(* ===== verification/Exchange_Prelude.thy ===== *)
theory Exchange_Prelude
  imports Main "HOL-Library.Word" "HOL-Library.Monad_Syntax" "HOL-Library.Multiset"
begin

text \<open>
  Shared vocabulary of the development: the fixed-width integers of the C++ sources, the
  model of \<^verbatim>\<open>std::map\<close> as an association list kept in the order of its comparator, and
  the library lemmas on lists, words and ordered maps that the component theories use.

  Conventions used everywhere:
  \<^item> an operation that can dereference a pointer returns an \<^typ>\<open>'a option\<close>;
    \<open>None\<close> is undefined behaviour (dereferencing freed memory or an end iterator);
  \<^item> \<^verbatim>\<open>std::unordered_map\<close> is a map \<open>'k \<rightharpoonup> 'v\<close>, \<^verbatim>\<open>std::map\<close> is an
    ordered association list (\<open>omap\<close>), \<^verbatim>\<open>std::vector\<close> and \<^verbatim>\<open>std::list\<close> are lists;
  \<^item> unsigned arithmetic is word arithmetic and wraps.
\<close>

section \<open>Fixed-width integers\<close>

type_synonym u8 = "8 word"
type_synonym u16 = "16 word"
type_synonym u32 = "32 word"
type_synonym u64 = "64 word"

section \<open>Ordered maps\<close>

text \<open>
  \<^verbatim>\<open>std::map<K, V, Compare>\<close>: the list of its nodes in iteration order. \<open>lt\<close> is the
  comparator; \<^verbatim>\<open>begin()\<close> is the head of the list.
\<close>

type_synonym ('k, 'v) omap = "('k \<times> 'v) list"

definition omap_find :: "'k \<Rightarrow> ('k, 'v) omap \<Rightarrow> 'v option" where
  "omap_find k m = map_of m k"

fun omap_emplace :: "('k \<Rightarrow> 'k \<Rightarrow> bool) \<Rightarrow> 'k \<Rightarrow> 'v \<Rightarrow> ('k, 'v) omap \<Rightarrow> ('k, 'v) omap" where
  "omap_emplace lt k v [] = [(k, v)]"
| "omap_emplace lt k v ((a, w) # m) =
     (if lt k a then (k, v) # (a, w) # m
      else if lt a k then (a, w) # omap_emplace lt k v m
      else (a, w) # m)"

text \<open>Writing through an iterator or a reference to the value stored at a key.\<close>

fun omap_assign :: "'k \<Rightarrow> 'v \<Rightarrow> ('k, 'v) omap \<Rightarrow> ('k, 'v) omap" where
  "omap_assign k v [] = []"
| "omap_assign k v ((a, w) # m) = (if a = k then (a, v) # m else (a, w) # omap_assign k v m)"

fun omap_erase :: "'k \<Rightarrow> ('k, 'v) omap \<Rightarrow> ('k, 'v) omap" where
  "omap_erase k [] = []"
| "omap_erase k ((a, w) # m) = (if a = k then m else (a, w) # omap_erase k m)"

definition omap_sorted :: "('k \<Rightarrow> 'k \<Rightarrow> bool) \<Rightarrow> ('k, 'v) omap \<Rightarrow> bool" where
  "omap_sorted lt m \<longleftrightarrow> sorted_wrt lt (map fst m)"

section \<open>Collections of rewrite rules\<close>

named_theorems level_simps \<open>price level operations\<close>
named_theorems book_simps \<open>accessors of the two sides of a book\<close>
named_theorems wire_simps \<open>sizes and fields of wire messages\<close>

section \<open>Ordered maps: lemmas\<close>

lemma omap_find_simps [simp]:
  "omap_find k [] = None"
  "omap_find k ((a, w) # m) = (if a = k then Some w else omap_find k m)"
  by (auto simp: omap_find_def)

lemma omap_sorted_simps [simp]:
  "omap_sorted lt []"
  "omap_sorted lt ((a, w) # m) \<longleftrightarrow> (\<forall>x\<in>set m. lt a (fst x)) \<and> omap_sorted lt m"
  by (auto simp: omap_sorted_def)

lemma omap_find_None_iff: "omap_find k m = None \<longleftrightarrow> k \<notin> fst ` set m"
  by (simp add: omap_find_def map_of_eq_None_iff)

lemma omap_find_in_set: "omap_find k m = Some v \<Longrightarrow> (k, v) \<in> set m"
  by (simp add: omap_find_def map_of_SomeD)

lemma map_fst_omap_assign [simp]: "map fst (omap_assign k v m) = map fst m"
  by (induction k v m rule: omap_assign.induct) auto

lemma omap_sorted_assign [simp]: "omap_sorted lt (omap_assign k v m) = omap_sorted lt m"
  by (simp add: omap_sorted_def)

lemma set_omap_erase_subset: "set (omap_erase k m) \<subseteq> set m"
  by (induction k m rule: omap_erase.induct) auto

lemma omap_sorted_erase: "omap_sorted lt m \<Longrightarrow> omap_sorted lt (omap_erase k m)"
  by (induction k m rule: omap_erase.induct) (auto dest: set_omap_erase_subset [THEN subsetD])

text \<open>
  The contract of a comparator: a strict total order. Everything proved below holds for
  both comparators the order book uses, \<^verbatim>\<open>std::greater\<close> for bids and
  \<^verbatim>\<open>std::less\<close> for asks.
\<close>

locale comparator =
  fixes lt :: "'k \<Rightarrow> 'k \<Rightarrow> bool"
  assumes lt_irrefl: "\<not> lt a a"
    and lt_trans: "lt a b \<Longrightarrow> lt b c \<Longrightarrow> lt a c"
    and lt_total: "a \<noteq> b \<Longrightarrow> lt a b \<or> lt b a"
begin

lemma lt_asym: "lt a b \<Longrightarrow> \<not> lt b a"
  using lt_irrefl lt_trans by blast

lemma distinct_keys: "omap_sorted lt m \<Longrightarrow> distinct (map fst m)"
  by (induction m) (use lt_irrefl in fastforce)+

lemma find_iff: "omap_sorted lt m \<Longrightarrow> omap_find k m = Some v \<longleftrightarrow> (k, v) \<in> set m"
  by (simp add: omap_find_def distinct_keys)

lemma set_emplace_subset: "set (omap_emplace lt k v m) \<subseteq> insert (k, v) (set m)"
  by (induction m) (auto split: if_splits)

lemma set_emplace:
  "k \<notin> fst ` set m \<Longrightarrow> set (omap_emplace lt k v m) = insert (k, v) (set m)"
proof (induction m)
  case (Cons x m)
  then have "lt k (fst x) \<or> lt (fst x) k"
    using lt_total [of k "fst x"] by auto
  with Cons show ?case by (cases x) auto
qed simp

lemma sorted_emplace: "omap_sorted lt m \<Longrightarrow> omap_sorted lt (omap_emplace lt k v m)"
proof (induction m)
  case (Cons x m)
  obtain a w where x: "x = (a, w)" by (cases x)
  have "\<forall>y\<in>set (omap_emplace lt k v m). lt a (fst y)" if "lt a k"
    using that Cons.prems set_emplace_subset [of k v m] by (fastforce simp: x)
  with Cons show ?case
    by (auto simp: x intro: lt_trans)
qed simp

lemma set_assign:
  "omap_sorted lt m \<Longrightarrow> omap_find k m = Some w \<Longrightarrow>
   set (omap_assign k v m) = insert (k, v) (set m - {(k, w)})"
  by (induction k v m rule: omap_assign.induct)
    (auto simp: omap_find_def lt_irrefl dest: map_of_SomeD split: if_splits)

lemma set_erase: "omap_sorted lt m \<Longrightarrow> set (omap_erase k m) = {x \<in> set m. fst x \<noteq> k}"
  by (induction k m rule: omap_erase.induct) (auto simp: lt_irrefl)

end

interpretation greater_u32: comparator "(>) :: u32 \<Rightarrow> u32 \<Rightarrow> bool"
  by unfold_locales auto

interpretation less_u32: comparator "(<) :: u32 \<Rightarrow> u32 \<Rightarrow> bool"
  by unfold_locales auto

section \<open>Lists and words\<close>

lemma remove1_hd [simp]: "xs \<noteq> [] \<Longrightarrow> remove1 (hd xs) xs = tl xs"
  by (cases xs) auto

lemma u_min_sub_nat:
  fixes a b :: "'a::len word"
  shows "unat (a - min a b) = unat a - unat (min a b)"
  by (rule unat_sub) simp

lemma unat_min:
  fixes a b :: "'a::len word"
  shows "unat (min a b) = min (unat a) (unat b)"
  by (simp add: min_def word_le_nat_alt)

section \<open>Runs of a step relation\<close>

text \<open>\<open>reach_in step start n s\<close>: from \<open>start\<close>, \<open>n\<close> steps can lead to \<open>s\<close>.\<close>

inductive reach_in :: "('s \<Rightarrow> 's \<Rightarrow> bool) \<Rightarrow> 's \<Rightarrow> nat \<Rightarrow> 's \<Rightarrow> bool" for step start where
  reach_start: "reach_in step start 0 start"
| reach_next: "reach_in step start n s \<Longrightarrow> step s s' \<Longrightarrow> reach_in step start (Suc n) s'"

inductive_cases reach_in_zeroE: "reach_in step start 0 s"
inductive_cases reach_in_SucE: "reach_in step start (Suc n) s"

lemma reach_in_rtranclp: "step\<^sup>*\<^sup>* s t \<Longrightarrow> reach_in step s0 n s \<Longrightarrow> \<exists>m. reach_in step s0 m t"
  by (induction rule: rtranclp_induct) (auto intro: reach_next)

lemma reach_in_trans: "reach_in step s m t \<Longrightarrow> reach_in step t n u \<Longrightarrow> reach_in step s (m + n) u"
  by (rotate_tac 1, induction rule: reach_in.induct) (auto intro: reach_next)

text \<open>Contract between a step relation and a finer one that can follow each of its steps by some of its
  own: every state the first can reach is related to one the second can reach.\<close>

locale simulation =
  fixes step :: "'s \<Rightarrow> 's \<Rightarrow> bool" and start :: 's and finer :: "'t \<Rightarrow> 't \<Rightarrow> bool" and finer_start :: 't
    and related :: "'s \<Rightarrow> 't \<Rightarrow> bool"
  assumes start_related: "related start finer_start"
    and step_followed: "step s s' \<Longrightarrow> related s t \<Longrightarrow> \<exists>t'. finer\<^sup>*\<^sup>* t t' \<and> related s' t'"
begin

lemma reach_followed: "reach_in step start n s \<Longrightarrow> \<exists>m t. reach_in finer finer_start m t \<and> related s t"
proof (induction rule: reach_in.induct)
  case reach_start
  then show ?case using start_related by (blast intro: reach_in.reach_start)
next
  case (reach_next n s s')
  then obtain m t where t: "reach_in finer finer_start m t" "related s t" by blast
  with step_followed [OF reach_next.hyps(2)] obtain t' where "finer\<^sup>*\<^sup>* t t'" "related s' t'" by blast
  with reach_in_rtranclp [OF _ t(1)] show ?case by blast
qed

end

text \<open>Contract of an invariant that may count the steps taken and has to hold only for runs up to a
  limit, such as one that keeps a machine counter from wrapping.\<close>

locale counted_invariant =
  fixes step :: "'s \<Rightarrow> 's \<Rightarrow> bool" and start :: 's and inv :: "nat \<Rightarrow> 's \<Rightarrow> bool" and limit :: nat
  assumes start_inv: "inv 0 start"
    and step_inv: "step s s' \<Longrightarrow> inv n s \<Longrightarrow> n < limit \<Longrightarrow> inv (Suc n) s'"
begin

lemma reach_inv: "reach_in step start n s \<Longrightarrow> n \<le> limit \<Longrightarrow> inv n s"
  by (induction rule: reach_in.induct) (auto intro: start_inv step_inv)

lemma reach_step_inv: "reach_in step start n s \<Longrightarrow> step s s' \<Longrightarrow> n < limit \<Longrightarrow> inv (Suc n) s'"
  by (rule step_inv [OF _ reach_inv]) simp_all

end

section \<open>Decimal output\<close>

text \<open>What \<^verbatim>\<open>%u\<close> and \<^verbatim>\<open>%lu\<close> print.\<close>

definition digit_char :: "nat \<Rightarrow> char" where
  "digit_char d = char_of (48 + int d)"

fun decimal :: "nat \<Rightarrow> string" where
  "decimal n = (if n < 10 then [digit_char n] else decimal (n div 10) @ [digit_char (n mod 10)])"

declare decimal.simps [simp del]

lemma decimal_ne [simp]: "decimal n \<noteq> []"
  by (subst decimal.simps) simp

end
