(* ===== verification/Core_Types.thy ===== *)
theory Core_Types
  imports Exchange_Prelude
begin

text \<open>
  The vocabulary of \<^verbatim>\<open>core/include/types.hpp\<close>, \<^verbatim>\<open>core/include/order.hpp\<close> and
  \<^verbatim>\<open>core/include/raw_message.hpp\<close>: identifiers and quantities as words of the width the
  aliases have, the enumerations, order requests, book elements, confirmations and market
  data updates.

  An \<^verbatim>\<open>enum class\<close> with a fixed underlying type can hold every value of that type, and
  \<^verbatim>\<open>Side\<close>, \<^verbatim>\<open>RejectReason\<close> and \<^verbatim>\<open>MdUpdateType\<close> are filled from network bytes by
  \<^verbatim>\<open>memcpy\<close>. Their models therefore have one more constructor for the values without an
  enumerator.
\<close>

section \<open>types.hpp\<close>

type_synonym Price = u32
type_synonym Quantity = u32
type_synonym OrderId = u64
type_synonym Timestamp = u64
type_synonym TraderId = u32
type_synonym SymbolId = u32

definition MAX_INSTRUMENTS :: nat where
  "MAX_INSTRUMENTS = 256"

datatype Side = Buy | Sell | Side_other u8

datatype RequestType = New | Cancel | Modify

datatype RejectReason =
    UnknownOrder | InvalidPrice | InvalidQty | Unauthorized | UnknownSymbol | SelfTrade
  | RejectReason_other u8

definition to_string :: "Side \<Rightarrow> string" where
  "to_string s = (if s = Buy then ''BUY'' else ''SELL'')"

definition oppositeSide :: "Side \<Rightarrow> Side" where
  "oppositeSide s = (if s = Buy then Sell else Buy)"

text \<open>The underlying values of the enumerators.\<close>

fun side_byte :: "Side \<Rightarrow> u8" where
  "side_byte Buy = 0"
| "side_byte Sell = 1"
| "side_byte (Side_other b) = b"

definition byte_side :: "u8 \<Rightarrow> Side" where
  "byte_side b = (if b = 0 then Buy else if b = 1 then Sell else Side_other b)"

fun reason_byte :: "RejectReason \<Rightarrow> u8" where
  "reason_byte UnknownOrder = 0"
| "reason_byte InvalidPrice = 1"
| "reason_byte InvalidQty = 2"
| "reason_byte Unauthorized = 3"
| "reason_byte UnknownSymbol = 4"
| "reason_byte SelfTrade = 5"
| "reason_byte (RejectReason_other b) = b"

definition byte_reason :: "u8 \<Rightarrow> RejectReason" where
  "byte_reason b =
     (if b = 0 then UnknownOrder else if b = 1 then InvalidPrice else if b = 2 then InvalidQty
      else if b = 3 then Unauthorized else if b = 4 then UnknownSymbol
      else if b = 5 then SelfTrade else RejectReason_other b)"

section \<open>order.hpp\<close>

record OrderRequest =
  m_orderId :: OrderId
  m_clientOrderId :: OrderId
  m_price :: Price
  m_timestamp :: Timestamp
  m_traderId :: TraderId
  m_symbolId :: SymbolId
  m_quantity :: Quantity
  m_side :: Side
  m_requestType :: RequestType

text \<open>\<^verbatim>\<open>OrderRequest req{}\<close>: the default member initialisers.\<close>

definition OrderRequest_init :: OrderRequest where
  "OrderRequest_init =
     \<lparr>m_orderId = 0, m_clientOrderId = 0, m_price = 0, m_timestamp = 0, m_traderId = 0,
      m_symbolId = 0, m_quantity = 0, m_side = Buy, m_requestType = New\<rparr>"

record BookElement =
  el_id :: OrderId
  el_traderId :: TraderId
  el_quantity :: Quantity

datatype ConfirmType = NewAck | ModifyAck | CancelAck | Trade | Reject

datatype OrderConfirm = OrderConfirm
  (oc_type: ConfirmType)
  (oc_orderId: OrderId)
  (oc_clientOrderId: OrderId)
  (oc_traderId: TraderId)
  (oc_symbolId: SymbolId)
  (oc_price: Price)
  (oc_qty: Quantity)
  (oc_reason: RejectReason)

datatype MdUpdateType = MdNew | MdModify | MdCancel | MdTrade | MdUpdateType_other u8

fun md_type_byte :: "MdUpdateType \<Rightarrow> u8" where
  "md_type_byte MdNew = 1"
| "md_type_byte MdModify = 2"
| "md_type_byte MdCancel = 3"
| "md_type_byte MdTrade = 4"
| "md_type_byte (MdUpdateType_other b) = b"

definition byte_md_type :: "u8 \<Rightarrow> MdUpdateType" where
  "byte_md_type b =
     (if b = 1 then MdNew else if b = 2 then MdModify else if b = 3 then MdCancel
      else if b = 4 then MdTrade else MdUpdateType_other b)"

datatype MdUpdate = MdUpdate
  (md_symbolId: SymbolId)
  (md_orderId: OrderId)
  (md_side: Side)
  (md_price: Price)
  (md_qty: Quantity)
  (md_updateType: MdUpdateType)

section \<open>raw\_message.hpp\<close>

definition MAX_RAW_MSG_SIZE :: nat where
  "MAX_RAW_MSG_SIZE = 128"

record RawMessage =
  rm_traderId :: TraderId
  rm_length :: u16
  rm_data :: "u8 list"

text \<open>\<^verbatim>\<open>RawMessage raw;\<close>: the default member initialisers zero every byte.\<close>

definition RawMessage_init :: RawMessage where
  "RawMessage_init = \<lparr>rm_traderId = 0, rm_length = 0, rm_data = replicate MAX_RAW_MSG_SIZE 0\<rparr>"

section \<open>Lemmas\<close>

lemma side_byte_roundtrip [simp]: "side_byte (byte_side b) = b"
  by (simp add: byte_side_def)

lemma reason_byte_roundtrip [simp]: "reason_byte (byte_reason b) = b"
  by (simp add: byte_reason_def)

lemma md_type_byte_roundtrip [simp]: "md_type_byte (byte_md_type b) = b"
  by (simp add: byte_md_type_def)

lemma oppositeSide_involutive: "s = Buy \<or> s = Sell \<Longrightarrow> oppositeSide (oppositeSide s) = s"
  by (auto simp: oppositeSide_def)

end
