(* ===== verification/Price_Level.thy ===== *)
theory Price_Level
  imports Core_Types
begin

text \<open>
  \<^verbatim>\<open>core/include/price_level.hpp\<close>: the FIFO queue of resting orders at one price. The queue
  holds pointers to \<^verbatim>\<open>BookElement\<close>s that the order book allocates, so the operations that
  look at an element take the heap and fail (\<open>None\<close>) on a pointer that is not allocated.
\<close>

section \<open>Heap of book elements\<close>

type_synonym ptr = nat
type_synonym heap = "ptr \<rightharpoonup> BookElement"

section \<open>PriceLevel\<close>

record PriceLevel =
  mPrice :: Price
  mTotalQty :: Quantity
  mOrders :: "ptr list"

definition PriceLevel_new :: "Price \<Rightarrow> PriceLevel" where
  "PriceLevel_new price = \<lparr>mPrice = price, mTotalQty = 0, mOrders = []\<rparr>"

definition level_isEmpty :: "PriceLevel \<Rightarrow> bool" where
  "level_isEmpty l \<longleftrightarrow> mOrders l = []"

definition level_addOrder :: "heap \<Rightarrow> ptr \<Rightarrow> PriceLevel \<Rightarrow> PriceLevel option" where
  "level_addOrder h order l = do {
     e \<leftarrow> h order;
     Some (l\<lparr>mOrders := mOrders l @ [order], mTotalQty := mTotalQty l + el_quantity e\<rparr>)
   }"

definition level_removeOrder :: "heap \<Rightarrow> ptr \<Rightarrow> PriceLevel \<Rightarrow> PriceLevel option" where
  "level_removeOrder h order l =
     (if order \<in> set (mOrders l) then do {
        e \<leftarrow> h order;
        Some (l\<lparr>mTotalQty := mTotalQty l - el_quantity e, mOrders := remove1 order (mOrders l)\<rparr>)
      } else Some l)"

definition level_reduceQty :: "Quantity \<Rightarrow> PriceLevel \<Rightarrow> PriceLevel" where
  "level_reduceQty amt l = l\<lparr>mTotalQty := mTotalQty l - amt\<rparr>"

text \<open>\<^verbatim>\<open>peekFirst\<close> returns the null pointer for an empty queue; dereferencing it is
  undefined, so here it is \<open>None\<close>.\<close>

definition level_peekFirst :: "PriceLevel \<Rightarrow> ptr option" where
  "level_peekFirst l = (case mOrders l of [] \<Rightarrow> None | p # _ \<Rightarrow> Some p)"

text \<open>The quantity really resting at a level, and the amount by which the cached total
  \<open>mTotalQty\<close> differs from it.\<close>

definition resting_qty :: "heap \<Rightarrow> PriceLevel \<Rightarrow> Quantity" where
  "resting_qty h l = sum_list (map (\<lambda>p. case h p of None \<Rightarrow> 0 | Some e \<Rightarrow> el_quantity e) (mOrders l))"

definition qty_drift :: "heap \<Rightarrow> PriceLevel \<Rightarrow> Quantity" where
  "qty_drift h l = mTotalQty l - resting_qty h l"

section \<open>Lemmas\<close>

lemmas [level_simps] =
  PriceLevel_new_def level_isEmpty_def level_reduceQty_def level_peekFirst_def

lemma level_addOrder_Some [level_simps]:
  "h p = Some e \<Longrightarrow> level_addOrder h p l =
     Some (l\<lparr>mOrders := mOrders l @ [p], mTotalQty := mTotalQty l + el_quantity e\<rparr>)"
  by (simp add: level_addOrder_def)

lemma level_removeOrder_Some [level_simps]:
  "h p = Some e \<Longrightarrow> p \<in> set (mOrders l) \<Longrightarrow> level_removeOrder h p l =
     Some (l\<lparr>mTotalQty := mTotalQty l - el_quantity e, mOrders := remove1 p (mOrders l)\<rparr>)"
  by (simp add: level_removeOrder_def)

lemma resting_qty_remove1:
  "p \<in> set ps \<Longrightarrow>
   sum_list (map f (remove1 p ps)) = sum_list (map f ps) - (f p :: 'a::ab_group_add)"
  by (induction ps) auto

lemma resting_qty_heap_cong:
  "(\<And>p. p \<in> set (mOrders l) \<Longrightarrow> h p = h' p) \<Longrightarrow> resting_qty h l = resting_qty h' l"
  unfolding resting_qty_def by (rule arg_cong [where f = sum_list]) (auto intro: map_cong)

lemma addOrder_drift:
  assumes "level_addOrder h p l = Some l'"
  shows "qty_drift h l' = qty_drift h l"
  using assms
  by (auto simp: level_addOrder_def qty_drift_def resting_qty_def bind_eq_Some_conv)

lemma removeOrder_drift:
  assumes "level_removeOrder h p l = Some l'"
  shows "qty_drift h l' = qty_drift h l"
  using assms
  by (auto simp: level_removeOrder_def qty_drift_def resting_qty_def resting_qty_remove1
      bind_eq_Some_conv split: if_splits)

end
