(* ===== verification/Order_Book.thy ===== *)
theory Order_Book
  imports Price_Level
begin

text \<open>
  \<^verbatim>\<open>matching/include/order_book.hpp\<close> and \<^verbatim>\<open>matching/src/order_book.cpp\<close>: the limit order
  book of one instrument. The book owns the heap cells of its elements; \<open>elems\<close> and
  \<open>nextPtr\<close> model \<^verbatim>\<open>new\<close> and \<^verbatim>\<open>delete\<close> for them. \<open>orderMap\<close> and the price levels
  share these elements by pointer, as in the source.

  The confirmation and market data vectors are in/out parameters that every operation only
  appends to. \<open>None\<close> is undefined behaviour; that it never happens is a theorem of
  \<open>Book_Refinement\<close>, not a part of the model.
\<close>

section \<open>State\<close>

record OrderDetails =
  d_side :: Side
  d_price :: Price
  d_quantity :: Quantity

type_synonym levels = "(Price, PriceLevel) omap"

record OrderBook =
  symbol :: SymbolId
  bids :: levels
  asks :: levels
  orderMap :: "OrderId \<rightharpoonup> ptr"
  orderDetails :: "OrderId \<rightharpoonup> OrderDetails"
  elems :: heap
  nextPtr :: ptr

definition OrderBook_new :: "SymbolId \<Rightarrow> OrderBook" where
  "OrderBook_new s =
     \<lparr>symbol = s, bids = [], asks = [], orderMap = Map.empty, orderDetails = Map.empty,
      elems = Map.empty, nextPtr = 0\<rparr>"

definition getBestBidPrice :: "OrderBook \<Rightarrow> Price" where
  "getBestBidPrice b = (case bids b of [] \<Rightarrow> 0 | (p, l) # _ \<Rightarrow> p)"

definition getBestBidQty :: "OrderBook \<Rightarrow> Quantity" where
  "getBestBidQty b = (case bids b of [] \<Rightarrow> 0 | (p, l) # _ \<Rightarrow> mTotalQty l)"

definition getBestAskPrice :: "OrderBook \<Rightarrow> Price" where
  "getBestAskPrice b = (case asks b of [] \<Rightarrow> 0 | (p, l) # _ \<Rightarrow> p)"

definition getBestAskQty :: "OrderBook \<Rightarrow> Quantity" where
  "getBestAskQty b = (case asks b of [] \<Rightarrow> 0 | (p, l) # _ \<Rightarrow> mTotalQty l)"

section \<open>Sides and levels\<close>

text \<open>\<^verbatim>\<open>getBook<S>()\<close> returns a reference; reading it is \<open>getBook\<close>, writing through it is
  \<open>setBook\<close>. \<open>side_lt S\<close> is the comparator of that map.\<close>

definition getBook :: "Side \<Rightarrow> OrderBook \<Rightarrow> levels" where
  "getBook S b = (if S = Buy then bids b else asks b)"

definition setBook :: "Side \<Rightarrow> levels \<Rightarrow> OrderBook \<Rightarrow> OrderBook" where
  "setBook S m b = (if S = Buy then b\<lparr>bids := m\<rparr> else b\<lparr>asks := m\<rparr>)"

definition side_lt :: "Side \<Rightarrow> Price \<Rightarrow> Price \<Rightarrow> bool" where
  "side_lt S = (if S = Buy then (>) else (<))"

definition getOrCreateLevel :: "Side \<Rightarrow> Price \<Rightarrow> OrderBook \<Rightarrow> PriceLevel \<times> OrderBook" where
  "getOrCreateLevel S price b =
     (case omap_find price (getBook S b) of
        Some l \<Rightarrow> (l, b)
      | None \<Rightarrow>
          (PriceLevel_new price,
           setBook S (omap_emplace (side_lt S) price (PriceLevel_new price) (getBook S b)) b))"

definition removeFromLevel :: "Side \<Rightarrow> ptr \<Rightarrow> Price \<Rightarrow> OrderBook \<Rightarrow> OrderBook option" where
  "removeFromLevel S elem price b =
     (case omap_find price (getBook S b) of
        None \<Rightarrow> Some b
      | Some l \<Rightarrow> do {
          l' \<leftarrow> level_removeOrder (elems b) elem l;
          Some (if level_isEmpty l' then setBook S (omap_erase price (getBook S b)) b
                else setBook S (omap_assign price l' (getBook S b)) b)
        })"

definition insertIntoLevel :: "Side \<Rightarrow> ptr \<Rightarrow> Price \<Rightarrow> OrderBook \<Rightarrow> OrderBook option" where
  "insertIntoLevel S elem price b = do {
     let (level, b1) = getOrCreateLevel S price b;
     level' \<leftarrow> level_addOrder (elems b1) elem level;
     Some (setBook S (omap_assign price level' (getBook S b1)) b1)
   }"

section \<open>Matching\<close>

record MatchState =
  ms_book :: OrderBook
  remainingQty :: Quantity
  confirmsOut :: "OrderConfirm list"
  mdOut :: "MdUpdate list"

text \<open>Erasing an element from both lookup maps and deleting it.\<close>

definition dropElement :: "ptr \<Rightarrow> OrderId \<Rightarrow> OrderBook \<Rightarrow> OrderBook" where
  "dropElement p i b =
     b\<lparr>orderMap := (orderMap b)(i := None), orderDetails := (orderDetails b)(i := None),
       elems := (elems b)(p := None)\<rparr>"

text \<open>Self-trade prevention: the resting order of the same trader is cancelled.\<close>

definition cancelPassive ::
  "Side \<Rightarrow> Price \<Rightarrow> ptr \<Rightarrow> BookElement \<Rightarrow> PriceLevel \<Rightarrow> MatchState \<Rightarrow> (PriceLevel \<times> MatchState) option" where
  "cancelPassive S levelPrice p passive level x = do {
     let b = ms_book x;
     let cancelledQty = el_quantity passive;
     level' \<leftarrow> level_removeOrder (elems b) p level;
     Some (level',
       x\<lparr>confirmsOut := confirmsOut x @
           [OrderConfirm CancelAck (el_id passive) 0 (el_traderId passive) (symbol b) 0 cancelledQty SelfTrade],
         mdOut := mdOut x @ [MdUpdate (symbol b) (el_id passive) S levelPrice cancelledQty MdCancel],
         ms_book := dropElement p (el_id passive) b\<rparr>)
   }"

definition tradePassive ::
  "Side \<Rightarrow> OrderRequest \<Rightarrow> Price \<Rightarrow> ptr \<Rightarrow> BookElement \<Rightarrow> PriceLevel \<Rightarrow> MatchState
    \<Rightarrow> (PriceLevel \<times> MatchState) option" where
  "tradePassive S incoming levelPrice p passive level x = do {
     let b = ms_book x;
     let tradeQty = min (remainingQty x) (el_quantity passive);
     let passive' = passive\<lparr>el_quantity := el_quantity passive - tradeQty\<rparr>;
     let b' = b\<lparr>elems := (elems b)(p \<mapsto> passive')\<rparr>;
     let x' = x\<lparr>remainingQty := remainingQty x - tradeQty,
       confirmsOut := confirmsOut x @
         [OrderConfirm Trade (el_id passive) 0 (el_traderId passive) (symbol b) levelPrice tradeQty UnknownOrder,
          OrderConfirm Trade (m_orderId incoming) (m_clientOrderId incoming) (m_traderId incoming) (symbol b)
            levelPrice tradeQty UnknownOrder],
       mdOut := mdOut x @
         [MdUpdate (symbol b) (el_id passive) S levelPrice tradeQty MdTrade,
          MdUpdate (symbol b) (m_orderId incoming) (m_side incoming) (m_price incoming) tradeQty MdTrade]\<rparr>;
     if el_quantity passive' = 0 then do {
       level' \<leftarrow> level_removeOrder (elems b') p level;
       Some (level', x'\<lparr>ms_book := dropElement p (el_id passive') b'\<rparr>)
     } else Some (level_reduceQty tradeQty level, x'\<lparr>ms_book := b'\<rparr>)
   }"

text \<open>One iteration of the inner loop.\<close>

definition matchStep ::
  "Side \<Rightarrow> OrderRequest \<Rightarrow> Price \<Rightarrow> PriceLevel \<Rightarrow> MatchState \<Rightarrow> (PriceLevel \<times> MatchState) option" where
  "matchStep S incoming levelPrice level x = do {
     p \<leftarrow> level_peekFirst level;
     passive \<leftarrow> elems (ms_book x) p;
     if el_traderId passive = m_traderId incoming
     then cancelPassive S levelPrice p passive level x
     else tradePassive S incoming levelPrice p passive level x
   }"

lemma matchStep_orders:
  assumes "matchStep S incoming pr level x = Some (level', x')" and "0 < remainingQty x"
  shows "length (mOrders level') < length (mOrders level)
       \<or> mOrders level' = mOrders level \<and> remainingQty x' = 0"
  using assms
  by (auto simp: matchStep_def cancelPassive_def tradePassive_def level_peekFirst_def
      level_removeOrder_def level_reduceQty_def Let_def min_def bind_eq_Some_conv
      split: if_splits list.splits)

text \<open>The inner loop: consume the queue of one level.\<close>

function matchLevel ::
  "Side \<Rightarrow> OrderRequest \<Rightarrow> Price \<Rightarrow> PriceLevel \<Rightarrow> MatchState \<Rightarrow> (PriceLevel \<times> MatchState) option" where
  "matchLevel S incoming levelPrice level x =
     (if 0 < remainingQty x \<and> \<not> level_isEmpty level
      then case matchStep S incoming levelPrice level x of
             None \<Rightarrow> None
           | Some (level', x') \<Rightarrow> matchLevel S incoming levelPrice level' x'
      else Some (level, x))"
  by pat_completeness auto
termination
proof (relation "measures [\<lambda>(S, i, pr, l, x). length (mOrders l),
    \<lambda>(S, i, pr, l, x). if 0 < remainingQty x then 1 else 0]", goal_cases)
  case (2 S incoming pr level x r level' x')
  then show ?case
    using matchStep_orders [of S incoming pr level x level' x'] by auto
qed simp

declare matchLevel.simps [simp del]

definition canTrade :: "Side \<Rightarrow> Price \<Rightarrow> Price \<Rightarrow> bool" where
  "canTrade PassiveSide levelPrice limit =
     (if PassiveSide = Sell then levelPrice \<le> limit else limit \<le> levelPrice)"

lemma matchLevel_exit:
  "matchLevel S incoming pr level x = Some (level', x') \<Longrightarrow>
   remainingQty x' = 0 \<or> level_isEmpty level'"
proof (induction S incoming pr level x rule: matchLevel.induct)
  case (1 S incoming pr level x)
  show ?case
  proof (cases "0 < remainingQty x \<and> \<not> level_isEmpty level")
    case True
    with 1 show ?thesis
      by (auto simp: matchLevel.simps [of S incoming pr level x] split: option.splits)
  next
    case False
    with "1.prems" show ?thesis
      by (auto simp: matchLevel.simps [of S incoming pr level x] word_gt_0)
  qed
qed

lemma matchStep_sides:
  "matchStep S incoming pr level x = Some (level', x') \<Longrightarrow>
   bids (ms_book x') = bids (ms_book x) \<and> asks (ms_book x') = asks (ms_book x)"
  by (auto simp: matchStep_def cancelPassive_def tradePassive_def dropElement_def Let_def
      bind_eq_Some_conv split: if_splits)

lemma matchLevel_sides:
  "matchLevel S incoming pr level x = Some (level', x') \<Longrightarrow>
   bids (ms_book x') = bids (ms_book x) \<and> asks (ms_book x') = asks (ms_book x)"
proof (induction S incoming pr level x rule: matchLevel.induct)
  case (1 S incoming pr level x)
  then show ?case
    by (auto simp: matchLevel.simps [of S incoming pr level x] matchStep_sides
        split: option.splits if_splits)
qed

text \<open>The outer loop: walk the levels of the passive side from the best price on.\<close>

function matchAgainst :: "Side \<Rightarrow> OrderRequest \<Rightarrow> MatchState \<Rightarrow> MatchState option" where
  "matchAgainst PassiveSide incoming x =
     (case getBook PassiveSide (ms_book x) of
        [] \<Rightarrow> Some x
      | (levelPrice, level) # rest \<Rightarrow>
          if 0 < remainingQty x \<and> canTrade PassiveSide levelPrice (m_price incoming)
          then case matchLevel PassiveSide incoming levelPrice level x of
                 None \<Rightarrow> None
               | Some (level', x') \<Rightarrow>
                   matchAgainst PassiveSide incoming
                     (x'\<lparr>ms_book := setBook PassiveSide
                           (if level_isEmpty level' then rest else (levelPrice, level') # rest)
                           (ms_book x')\<rparr>)
          else Some x)"
  by pat_completeness auto
termination
proof (relation "measures [\<lambda>(S, i, x). length (getBook S (ms_book x)),
    \<lambda>(S, i, x). if 0 < remainingQty x then 1 else 0]", goal_cases)
  case (2 S incoming x lev rest levelPrice level r level' x')
  then show ?case
    using matchLevel_exit [of S incoming levelPrice level x level' x']
    by (auto simp: getBook_def setBook_def)
qed simp

declare matchAgainst.simps [simp del]

section \<open>Public interface\<close>

definition addOrder ::
  "OrderRequest \<Rightarrow> OrderBook \<Rightarrow> OrderConfirm list \<Rightarrow> MdUpdate list
    \<Rightarrow> (OrderBook \<times> OrderConfirm list \<times> MdUpdate list) option" where
  "addOrder incoming b confirms mds = do {
     x \<leftarrow> matchAgainst (if m_side incoming = Buy then Sell else Buy) incoming
       \<lparr>ms_book = b, remainingQty = m_quantity incoming,
        confirmsOut = confirms @
          [OrderConfirm NewAck (m_orderId incoming) (m_clientOrderId incoming) (m_traderId incoming)
             (symbol b) 0 0 UnknownOrder],
        mdOut = mds @
          [MdUpdate (symbol b) (m_orderId incoming) (m_side incoming) (m_price incoming)
             (m_quantity incoming) MdNew]\<rparr>;
     if remainingQty x = 0 then Some (ms_book x, confirmsOut x, mdOut x)
     else do {
       let b1 = ms_book x;
       let elem = nextPtr b1;
       let b2 = b1\<lparr>elems := (elems b1)(elem \<mapsto>
                      \<lparr>el_id = m_orderId incoming, el_traderId = m_traderId incoming,
                       el_quantity = remainingQty x\<rparr>),
                   nextPtr := Suc elem,
                   orderMap := (orderMap b1)(m_orderId incoming \<mapsto> elem),
                   orderDetails := (orderDetails b1)(m_orderId incoming \<mapsto>
                      \<lparr>d_side = m_side incoming, d_price = m_price incoming,
                       d_quantity = remainingQty x\<rparr>)\<rparr>;
       b3 \<leftarrow> insertIntoLevel (if m_side incoming = Buy then Buy else Sell) elem (m_price incoming) b2;
       Some (b3, confirmsOut x, mdOut x)
     }
   }"

definition cancelOrder ::
  "OrderId \<Rightarrow> TraderId \<Rightarrow> OrderBook \<Rightarrow> OrderConfirm list \<Rightarrow> MdUpdate list
    \<Rightarrow> (OrderBook \<times> OrderConfirm list \<times> MdUpdate list) option" where
  "cancelOrder i traderId b confirms mds =
     (case orderMap b i of
        None \<Rightarrow>
          Some (b, confirms @ [OrderConfirm Reject i 0 traderId (symbol b) 0 0 UnknownOrder], mds)
      | Some elem \<Rightarrow> do {
          e \<leftarrow> elems b elem;
          if el_traderId e \<noteq> traderId
          then Some (b, confirms @ [OrderConfirm Reject i 0 traderId (symbol b) 0 0 UnknownOrder], mds)
          else do {
            d \<leftarrow> orderDetails b i;
            b1 \<leftarrow> removeFromLevel (if d_side d = Buy then Buy else Sell) elem (d_price d) b;
            Some (dropElement elem i b1,
                  confirms @ [OrderConfirm CancelAck i 0 traderId (symbol b) 0 0 UnknownOrder],
                  mds @ [MdUpdate (symbol b) i (d_side d) (d_price d) (el_quantity e) MdCancel])
          }
        })"

definition modifyOrder ::
  "OrderId \<Rightarrow> TraderId \<Rightarrow> Price \<Rightarrow> Quantity \<Rightarrow> OrderBook \<Rightarrow> OrderConfirm list \<Rightarrow> MdUpdate list
    \<Rightarrow> (OrderBook \<times> OrderConfirm list \<times> MdUpdate list) option" where
  "modifyOrder i traderId newPrice newQty b confirms mds =
     (case orderMap b i of
        None \<Rightarrow>
          Some (b, confirms @ [OrderConfirm Reject i 0 traderId (symbol b) 0 0 UnknownOrder], mds)
      | Some elem \<Rightarrow> do {
          e \<leftarrow> elems b elem;
          if el_traderId e \<noteq> traderId
          then Some (b, confirms @ [OrderConfirm Reject i 0 traderId (symbol b) 0 0 UnknownOrder], mds)
          else do {
            d \<leftarrow> orderDetails b i;
            b' \<leftarrow> (if d_price d = newPrice \<and> newQty < d_quantity d
                  then Some (b\<lparr>elems := (elems b)(elem \<mapsto> e\<lparr>el_quantity := newQty\<rparr>),
                               orderDetails := (orderDetails b)(i \<mapsto> d\<lparr>d_quantity := newQty\<rparr>)\<rparr>)
                  else do {
                    b1 \<leftarrow> removeFromLevel (if d_side d = Buy then Buy else Sell) elem (d_price d) b;
                    let b2 = b1\<lparr>elems := (elems b1)(elem \<mapsto> e\<lparr>el_quantity := newQty\<rparr>),
                                orderDetails := (orderDetails b1)(i \<mapsto>
                                  d\<lparr>d_price := newPrice, d_quantity := newQty\<rparr>)\<rparr>;
                    insertIntoLevel (if d_side d = Buy then Buy else Sell) elem newPrice b2
                  });
            Some (b',
                  confirms @ [OrderConfirm ModifyAck i 0 traderId (symbol b) 0 0 UnknownOrder],
                  mds @ [MdUpdate (symbol b) i (d_side d) newPrice newQty MdModify])
          }
        })"

end
