(* ===== verification/Book_Spec.thy ===== *)
theory Book_Spec
  imports Core_Types
begin

text \<open>
  The abstract specification of an order book: two lists of resting orders, each in
  price-time priority. It has no pointers, no price levels and no lookup maps. Matching walks
  the opposite list from its head; a new order is placed behind every order at least as good;
  cancelling filters an order out; modifying moves it to the back of its new price or, for a
  reduction at the same price, changes it in place. \<open>Book_Refinement\<close> shows that the
  concrete book implements this specification.

  \<open>r_recorded\<close> is the quantity the book last recorded for the order when it was placed or
  modified; fills do not change it. The specification carries it because the decision of
  \<^verbatim>\<open>modifyOrder\<close> to keep time priority is made against it.
\<close>

section \<open>State\<close>

record Resting =
  r_id :: OrderId
  r_trader :: TraderId
  r_side :: Side
  r_price :: Price
  r_qty :: Quantity
  r_recorded :: Quantity

record SpecBook =
  s_symbol :: SymbolId
  s_bids :: "Resting list"
  s_asks :: "Resting list"

datatype match_event = Fill Resting Quantity | SelfCancel Resting

section \<open>Operations\<close>

text \<open>A resting order is within the limit of the incoming one.\<close>

definition crosses :: "OrderRequest \<Rightarrow> Resting \<Rightarrow> bool" where
  "crosses req r =
     (if m_side req = Buy then r_price r \<le> m_price req else m_price req \<le> r_price r)"

fun spec_match ::
  "OrderRequest \<Rightarrow> Quantity \<Rightarrow> Resting list \<Rightarrow> Resting list \<times> Quantity \<times> match_event list" where
  "spec_match req rem [] = ([], rem, [])"
| "spec_match req rem (r # rs) =
     (if rem = 0 \<or> \<not> crosses req r then (r # rs, rem, [])
      else if r_trader r = m_traderId req then
        (case spec_match req rem rs of (rs', rem', evs) \<Rightarrow> (rs', rem', SelfCancel r # evs))
      else if r_qty r \<le> rem then
        (case spec_match req (rem - r_qty r) rs of
           (rs', rem', evs) \<Rightarrow> (rs', rem', Fill r (r_qty r) # evs))
      else (r\<lparr>r_qty := r_qty r - rem\<rparr> # rs, 0, [Fill r rem]))"

definition passive_side :: "OrderRequest \<Rightarrow> Side" where
  "passive_side req = (if m_side req = Buy then Sell else Buy)"

fun event_confirms :: "SymbolId \<Rightarrow> OrderRequest \<Rightarrow> match_event \<Rightarrow> OrderConfirm list" where
  "event_confirms s req (Fill r t) =
     [OrderConfirm Trade (r_id r) 0 (r_trader r) s (r_price r) t UnknownOrder,
      OrderConfirm Trade (m_orderId req) (m_clientOrderId req) (m_traderId req) s (r_price r) t
        UnknownOrder]"
| "event_confirms s req (SelfCancel r) =
     [OrderConfirm CancelAck (r_id r) 0 (r_trader r) s 0 (r_qty r) SelfTrade]"

fun event_mds :: "SymbolId \<Rightarrow> OrderRequest \<Rightarrow> match_event \<Rightarrow> MdUpdate list" where
  "event_mds s req (Fill r t) =
     [MdUpdate s (r_id r) (passive_side req) (r_price r) t MdTrade,
      MdUpdate s (m_orderId req) (m_side req) (m_price req) t MdTrade]"
| "event_mds s req (SelfCancel r) =
     [MdUpdate s (r_id r) (passive_side req) (r_price r) (r_qty r) MdCancel]"

text \<open>Place an order behind all orders that are at least as good; \<open>lt p q\<close> reads ``price
  \<open>p\<close> is better than price \<open>q\<close>''.\<close>

fun spec_insert :: "(Price \<Rightarrow> Price \<Rightarrow> bool) \<Rightarrow> Resting \<Rightarrow> Resting list \<Rightarrow> Resting list" where
  "spec_insert lt r [] = [r]"
| "spec_insert lt r (x # xs) =
     (if lt (r_price r) (r_price x) then r # x # xs else x # spec_insert lt r xs)"

definition spec_place :: "Resting \<Rightarrow> SpecBook \<Rightarrow> SpecBook" where
  "spec_place r B =
     (if r_side r = Buy then B\<lparr>s_bids := spec_insert (>) r (s_bids B)\<rparr>
      else B\<lparr>s_asks := spec_insert (<) r (s_asks B)\<rparr>)"

definition spec_remove :: "OrderId \<Rightarrow> SpecBook \<Rightarrow> SpecBook" where
  "spec_remove i B =
     B\<lparr>s_bids := filter (\<lambda>r. r_id r \<noteq> i) (s_bids B), s_asks := filter (\<lambda>r. r_id r \<noteq> i) (s_asks B)\<rparr>"

definition set_qty :: "OrderId \<Rightarrow> Quantity \<Rightarrow> Resting \<Rightarrow> Resting" where
  "set_qty i q r = (if r_id r = i then r\<lparr>r_qty := q, r_recorded := q\<rparr> else r)"

definition spec_shrink :: "OrderId \<Rightarrow> Quantity \<Rightarrow> SpecBook \<Rightarrow> SpecBook" where
  "spec_shrink i q B =
     B\<lparr>s_bids := map (set_qty i q) (s_bids B), s_asks := map (set_qty i q) (s_asks B)\<rparr>"

definition spec_orders :: "SpecBook \<Rightarrow> Resting list" where
  "spec_orders B = s_bids B @ s_asks B"

definition spec_find :: "OrderId \<Rightarrow> SpecBook \<Rightarrow> Resting option" where
  "spec_find i B = List.find (\<lambda>r. r_id r = i) (spec_orders B)"

definition spec_add ::
  "OrderRequest \<Rightarrow> SpecBook \<Rightarrow> SpecBook \<times> OrderConfirm list \<times> MdUpdate list" where
  "spec_add req B =
     (case spec_match req (m_quantity req) (if m_side req = Buy then s_asks B else s_bids B) of
        (rs, rem, evs) \<Rightarrow>
          let B1 = (if m_side req = Buy then B\<lparr>s_asks := rs\<rparr> else B\<lparr>s_bids := rs\<rparr>);
              B2 = (if rem = 0 then B1
                    else spec_place \<lparr>r_id = m_orderId req, r_trader = m_traderId req,
                           r_side = m_side req, r_price = m_price req, r_qty = rem,
                           r_recorded = rem\<rparr> B1)
          in (B2,
              OrderConfirm NewAck (m_orderId req) (m_clientOrderId req) (m_traderId req)
                (s_symbol B) 0 0 UnknownOrder # concat (map (event_confirms (s_symbol B) req) evs),
              MdUpdate (s_symbol B) (m_orderId req) (m_side req) (m_price req) (m_quantity req) MdNew
                # concat (map (event_mds (s_symbol B) req) evs)))"

definition spec_reject :: "OrderId \<Rightarrow> TraderId \<Rightarrow> SpecBook \<Rightarrow> SpecBook \<times> OrderConfirm list \<times> MdUpdate list" where
  "spec_reject i t B = (B, [OrderConfirm Reject i 0 t (s_symbol B) 0 0 UnknownOrder], [])"

definition spec_cancel ::
  "OrderId \<Rightarrow> TraderId \<Rightarrow> SpecBook \<Rightarrow> SpecBook \<times> OrderConfirm list \<times> MdUpdate list" where
  "spec_cancel i t B =
     (case spec_find i B of
        None \<Rightarrow> spec_reject i t B
      | Some r \<Rightarrow>
          if r_trader r \<noteq> t then spec_reject i t B
          else (spec_remove i B,
                [OrderConfirm CancelAck i 0 t (s_symbol B) 0 0 UnknownOrder],
                [MdUpdate (s_symbol B) i (r_side r) (r_price r) (r_qty r) MdCancel]))"

definition spec_modify ::
  "OrderId \<Rightarrow> TraderId \<Rightarrow> Price \<Rightarrow> Quantity \<Rightarrow> SpecBook
    \<Rightarrow> SpecBook \<times> OrderConfirm list \<times> MdUpdate list" where
  "spec_modify i t price q B =
     (case spec_find i B of
        None \<Rightarrow> spec_reject i t B
      | Some r \<Rightarrow>
          if r_trader r \<noteq> t then spec_reject i t B
          else (if r_price r = price \<and> q < r_recorded r then spec_shrink i q B
                else spec_place (r\<lparr>r_price := price, r_qty := q, r_recorded := q\<rparr>) (spec_remove i B),
                [OrderConfirm ModifyAck i 0 t (s_symbol B) 0 0 UnknownOrder],
                [MdUpdate (s_symbol B) i (r_side r) price q MdModify]))"

section \<open>Vocabulary of the properties\<close>

text \<open>Price-time priority: along the list prices never get better.\<close>

definition priority_sorted :: "(Price \<Rightarrow> Price \<Rightarrow> bool) \<Rightarrow> Resting list \<Rightarrow> bool" where
  "priority_sorted lt = sorted_wrt (\<lambda>x y. \<not> lt (r_price y) (r_price x))"

definition spec_ok :: "SpecBook \<Rightarrow> bool" where
  "spec_ok B \<longleftrightarrow> priority_sorted (>) (s_bids B) \<and> priority_sorted (<) (s_asks B)
     \<and> distinct (map r_id (spec_orders B))
     \<and> (\<forall>r\<in>set (s_bids B). r_side r = Buy) \<and> (\<forall>r\<in>set (s_asks B). r_side r \<noteq> Buy)"

text \<open>No resting bid reaches a resting ask.\<close>

definition uncrossed :: "SpecBook \<Rightarrow> bool" where
  "uncrossed B \<longleftrightarrow> (\<forall>x\<in>set (s_bids B). \<forall>y\<in>set (s_asks B). r_price x < r_price y)"

fun event_order :: "match_event \<Rightarrow> Resting" where
  "event_order (Fill r t) = r"
| "event_order (SelfCancel r) = r"

fun event_fill :: "match_event \<Rightarrow> nat" where
  "event_fill (Fill r t) = unat t"
| "event_fill (SelfCancel r) = 0"

text \<open>The order hit is gone afterwards: filled to its last unit, or cancelled.\<close>

fun consumed :: "match_event \<Rightarrow> bool" where
  "consumed (Fill r t) \<longleftrightarrow> t = r_qty r"
| "consumed (SelfCancel r) \<longleftrightarrow> True"

text \<open>What a request executes, what it leaves and what it leaves unfilled.\<close>

definition opposite_list :: "OrderRequest \<Rightarrow> SpecBook \<Rightarrow> Resting list" where
  "opposite_list req B = (if m_side req = Buy then s_asks B else s_bids B)"

definition executions :: "OrderRequest \<Rightarrow> SpecBook \<Rightarrow> match_event list" where
  "executions req B = snd (snd (spec_match req (m_quantity req) (opposite_list req B)))"

definition unfilled :: "OrderRequest \<Rightarrow> SpecBook \<Rightarrow> Quantity" where
  "unfilled req B = fst (snd (spec_match req (m_quantity req) (opposite_list req B)))"

definition survivors :: "OrderRequest \<Rightarrow> SpecBook \<Rightarrow> Resting list" where
  "survivors req B = fst (spec_match req (m_quantity req) (opposite_list req B))"

section \<open>Matching\<close>

lemma spec_match_quantity:
  "spec_match req rem rs = (rs', rem', evs) \<Longrightarrow>
   unat rem = unat rem' + sum_list (map event_fill evs)"
proof (induction req rem rs arbitrary: rs' rem' evs rule: spec_match.induct)
  case (2 req rem r rs)
  show ?case
  proof (cases "rem = 0 \<or> \<not> crosses req r \<or> r_trader r = m_traderId req \<or> \<not> r_qty r \<le> rem")
    case True
    with 2 show ?thesis by (auto split: if_splits prod.splits)
  next
    case False
    obtain ys rem1 evs1 where rec: "spec_match req (rem - r_qty r) rs = (ys, rem1, evs1)"
      by (cases "spec_match req (rem - r_qty r) rs")
    with False 2 have "unat (rem - r_qty r) = unat rem1 + sum_list (map event_fill evs1)"
      by auto
    moreover have "unat (rem - r_qty r) = unat rem - unat (r_qty r)" "unat (r_qty r) \<le> unat rem"
      using False by (auto simp: unat_sub word_le_nat_alt)
    ultimately show ?thesis using False rec "2.prems" by auto
  qed
qed simp

lemma spec_match_events:
  "spec_match req rem rs = (rs', rem', evs) \<Longrightarrow> ev \<in> set evs \<Longrightarrow>
   event_order ev \<in> set rs \<and> crosses req (event_order ev) \<and>
   (case ev of Fill r t \<Rightarrow> r_trader r \<noteq> m_traderId req \<and> t \<le> r_qty r
    | SelfCancel r \<Rightarrow> r_trader r = m_traderId req)"
proof (induction req rem rs arbitrary: rs' rem' evs rule: spec_match.induct)
  case (2 req rem r rs)
  then show ?case
    by (fastforce split: if_splits prod.splits match_event.splits)
qed simp

text \<open>The orders hit are a prefix of the list, in list order; all but the last one are
  consumed completely, and the last one keeps its place if it is only reduced.\<close>

definition prefix_hit :: "Resting list \<Rightarrow> Resting list \<Rightarrow> Quantity \<Rightarrow> match_event list \<Rightarrow> bool" where
  "prefix_hit rs rs' rem' evs \<longleftrightarrow>
     rs = map event_order evs @ rs' \<and> (\<forall>ev\<in>set evs. consumed ev)
   \<or> (\<exists>r t evs0 tail. evs = evs0 @ [Fill r t] \<and> rs = map event_order evs @ tail
       \<and> rs' = r\<lparr>r_qty := r_qty r - t\<rparr> # tail \<and> t < r_qty r \<and> rem' = 0 \<and> (\<forall>ev\<in>set evs0. consumed ev))"

lemma prefix_hit_Cons:
  assumes "prefix_hit rs rs' rem' evs" "consumed ev" "event_order ev = r"
  shows "prefix_hit (r # rs) rs' rem' (ev # evs)"
proof (rule disjE [OF assms(1) [unfolded prefix_hit_def]], goal_cases)
  case 2
  then obtain r0 t evs0 tail where "evs = evs0 @ [Fill r0 t]" "rs = map event_order evs @ tail" "rs' = r0\<lparr>r_qty := r_qty r0 - t\<rparr> # tail"
    "t < r_qty r0" "rem' = 0" "\<forall>ev\<in>set evs0. consumed ev"
    by blast
  with assms(2,3) show ?case
    unfolding prefix_hit_def
    by (intro disjI2 exI [of _ r0] exI [of _ t] exI [of _ "ev # evs0"] exI [of _ tail]) auto
qed (use assms(2,3) in \<open>auto simp: prefix_hit_def\<close>)

lemma spec_match_prefix:
  "spec_match req rem rs = (rs', rem', evs) \<Longrightarrow> prefix_hit rs rs' rem' evs"
proof (induction req rem rs arbitrary: rs' rem' evs rule: spec_match.induct)
  case (2 req rem r rs)
  consider "rem = 0 \<or> \<not> crosses req r"
    | (self) "rem \<noteq> 0" "crosses req r" "r_trader r = m_traderId req"
    | (fill) "rem \<noteq> 0" "crosses req r" "r_trader r \<noteq> m_traderId req" "r_qty r \<le> rem"
    | (partial) "rem \<noteq> 0" "crosses req r" "r_trader r \<noteq> m_traderId req" "rem < r_qty r"
    by fastforce
  then show ?case
  proof cases
    case self
    with "2.prems" obtain evs1 where
      "spec_match req rem rs = (rs', rem', evs1)" "evs = SelfCancel r # evs1"
      by (auto split: prod.splits)
    with "2.IH"(1) self show ?thesis by (auto intro: prefix_hit_Cons)
  next
    case fill
    with "2.prems" obtain evs1 where
      "spec_match req (rem - r_qty r) rs = (rs', rem', evs1)" "evs = Fill r (r_qty r) # evs1"
      by (auto split: prod.splits)
    with "2.IH"(2) fill show ?thesis by (auto intro: prefix_hit_Cons)
  next
    case partial
    with "2.prems" have "rs' = r\<lparr>r_qty := r_qty r - rem\<rparr> # rs" "rem' = 0" "evs = [Fill r rem]"
      by (simp_all add: not_le [symmetric])
    with partial(4) show ?thesis
      unfolding prefix_hit_def by (intro disjI2 exI [of _ r] exI [of _ rem] exI [of _ "[]"] exI [of _ rs]) simp
  qed (use "2.prems" in \<open>auto simp: prefix_hit_def\<close>)
qed (simp add: prefix_hit_def)

lemma spec_match_keys:
  "spec_match req rem rs = (rs', rem', evs) \<Longrightarrow>
   \<exists>n. map r_id rs' = drop n (map r_id rs) \<and> map r_price rs' = drop n (map r_price rs)
     \<and> map r_trader rs' = drop n (map r_trader rs) \<and> map r_side rs' = drop n (map r_side rs)"
proof -
  assume "spec_match req rem rs = (rs', rem', evs)"
  from spec_match_prefix [OF this] show ?thesis
    unfolding prefix_hit_def
  proof (elim disjE exE conjE)
    assume "rs = map event_order evs @ rs'"
    then show ?thesis by (intro exI [of _ "length evs"]) simp
  next
    fix r t evs0 tail
    assume "evs = evs0 @ [Fill r t]" "rs = map event_order evs @ tail"
      "rs' = r\<lparr>r_qty := r_qty r - t\<rparr> # tail"
    then show ?thesis by (intro exI [of _ "length evs0"]) simp
  qed
qed

lemma crosses_mono:
  "crosses req y \<Longrightarrow> \<not> (if m_side req = Buy then (<) else (>)) (r_price y) (r_price x) \<Longrightarrow> crosses req x"
  by (auto simp: crosses_def split: if_splits)

text \<open>Matching stops only when the request is filled or nothing tradable is left.\<close>

lemma spec_match_exhausts:
  "spec_match req rem rs = (rs', rem', evs) \<Longrightarrow>
   priority_sorted (if m_side req = Buy then (<) else (>)) rs \<Longrightarrow>
   rem' = 0 \<or> (\<forall>r\<in>set rs'. \<not> crosses req r)"
proof (induction req rem rs arbitrary: rs' rem' evs rule: spec_match.induct)
  case (2 req rem r rs)
  have tail: "crosses req y \<Longrightarrow> crosses req r" if "y \<in> set rs" for y
    using that "2.prems"(2) crosses_mono [of req y r] by (auto simp: priority_sorted_def)
  have "priority_sorted (if m_side req = Buy then (<) else (>)) rs"
    using "2.prems"(2) by (simp add: priority_sorted_def)
  with 2 tail show ?case
    by (cases "rem = 0 \<or> \<not> crosses req r") (auto split: if_splits prod.splits)
qed simp

section \<open>Placing and removing\<close>

lemma set_spec_insert [simp]: "set (spec_insert lt r rs) = insert r (set rs)"
  by (induction rs) auto

lemma mset_spec_insert: "mset (spec_insert lt r rs) = add_mset r (mset rs)"
  by (induction rs) auto

lemma spec_insert_stable:
  "\<exists>xs ys. rs = xs @ ys \<and> spec_insert lt r rs = xs @ r # ys
     \<and> (\<forall>x\<in>set xs. \<not> lt (r_price r) (r_price x)) \<and> (ys \<noteq> [] \<longrightarrow> lt (r_price r) (r_price (hd ys)))"
proof (induction rs)
  case (Cons x rs)
  show ?case
  proof (cases "lt (r_price r) (r_price x)")
    case True
    then show ?thesis by (intro exI [of _ "[]"] exI [of _ "x # rs"]) simp
  next
    case False
    from Cons obtain xs ys where "rs = xs @ ys" "spec_insert lt r rs = xs @ r # ys"
      "\<forall>x\<in>set xs. \<not> lt (r_price r) (r_price x)" "ys \<noteq> [] \<longrightarrow> lt (r_price r) (r_price (hd ys))"
      by blast
    with False show ?thesis
      by (intro exI [of _ "x # xs"] exI [of _ ys]) simp
  qed
qed simp

lemma priority_sorted_filter: "priority_sorted lt rs \<Longrightarrow> priority_sorted lt (filter P rs)"
  by (simp add: priority_sorted_def sorted_wrt_filter)

lemma priority_sorted_iff_prices:
  "priority_sorted lt rs \<longleftrightarrow> sorted_wrt (\<lambda>p q. \<not> lt q p) (map r_price rs)"
  by (simp add: priority_sorted_def sorted_wrt_map)

lemma sorted_wrt_drop: "sorted_wrt P xs \<Longrightarrow> sorted_wrt P (drop n xs)"
  by (metis append_take_drop_id sorted_wrt_append)

lemma spec_match_sorted:
  assumes "spec_match req rem rs = (rs', rem', evs)" and "priority_sorted lt rs"
  shows "priority_sorted lt rs'"
  using spec_match_keys [OF assms(1)] assms(2)
  by (auto simp: priority_sorted_iff_prices sorted_wrt_drop)

text \<open>One side of the book, for either comparator.\<close>

locale price_priority = comparator lt for lt :: "Price \<Rightarrow> Price \<Rightarrow> bool"
begin

lemma insert_sorted:
  "priority_sorted lt rs \<Longrightarrow> priority_sorted lt (spec_insert lt r rs)"
proof (induction rs)
  case (Cons x rs)
  then show ?case
    using lt_asym [of "r_price r" "r_price x"] lt_trans by (auto simp: priority_sorted_def)
qed (simp add: priority_sorted_def)

text \<open>Time priority: within a price, the new order is behind every order already there.\<close>

lemma insert_behind_equals:
  assumes "priority_sorted lt rs"
  shows "filter (\<lambda>x. r_price x = r_price r) (spec_insert lt r rs)
       = filter (\<lambda>x. r_price x = r_price r) rs @ [r]"
  using assms
proof (induction rs)
  case (Cons x rs)
  have "lt (r_price r) (r_price x) \<Longrightarrow> y \<in> set rs \<Longrightarrow> r_price y \<noteq> r_price r" for y
    using Cons.prems lt_irrefl by (auto simp: priority_sorted_def)
  with Cons show ?case
    by (auto simp: priority_sorted_def lt_irrefl filter_empty_conv)
qed simp

end

interpretation bid_priority: price_priority "(>) :: Price \<Rightarrow> Price \<Rightarrow> bool"
  by unfold_locales

interpretation ask_priority: price_priority "(<) :: Price \<Rightarrow> Price \<Rightarrow> bool"
  by unfold_locales

end
