(* ===== verification/Book_Invariant.thy ===== *)
theory Book_Invariant
  imports Order_Book Book_Spec
begin

text \<open>
  The invariant of the concrete order book and its abstraction to \<open>Book_Spec\<close>.

  \<open>links\<close> ties the heap, the two lookup maps and the places (side, price, pointer) that the
  price levels mention: every allocated element sits in exactly one place, is found under its
  own id, has details that name this place, and nothing else is allocated. \<open>levels_ok\<close> adds
  that each side is sorted by its comparator and has no empty level. The lemmas show how
  \<open>links\<close> moves under each heap update, and how the level operations move the places of one
  side, for either comparator (locale \<open>price_priority\<close>).
\<close>

section \<open>Invariant\<close>

type_synonym place = "bool \<times> Price \<times> ptr"

text \<open>The (price, pointer) pairs of one side in iteration order.\<close>

definition flat :: "levels \<Rightarrow> (Price \<times> ptr) list" where
  "flat m = concat (map (\<lambda>(pr, l). map (Pair pr) (mOrders l)) m)"

definition side_places :: "bool \<Rightarrow> levels \<Rightarrow> place set" where
  "side_places buy m = Pair buy ` set (flat m)"

definition links ::
  "heap \<Rightarrow> (OrderId \<rightharpoonup> ptr) \<Rightarrow> (OrderId \<rightharpoonup> OrderDetails) \<Rightarrow> ptr \<Rightarrow> place set \<Rightarrow> bool" where
  "links h om od np P \<longleftrightarrow>
     (\<forall>buy pr p buy' pr'. (buy, pr, p) \<in> P \<longrightarrow> (buy', pr', p) \<in> P \<longrightarrow> buy = buy' \<and> pr = pr')
   \<and> (\<forall>p. p \<in> dom h \<longleftrightarrow> (\<exists>buy pr. (buy, pr, p) \<in> P))
   \<and> (\<forall>buy pr p e. (buy, pr, p) \<in> P \<longrightarrow> h p = Some e \<longrightarrow>
        om (el_id e) = Some p \<and>
        (\<exists>d. od (el_id e) = Some d \<and> d_price d = pr \<and> (d_side d = Buy \<longleftrightarrow> buy)))
   \<and> (\<forall>i p. om i = Some p \<longrightarrow> (\<exists>e. h p = Some e \<and> el_id e = i))
   \<and> dom od = dom om
   \<and> (\<forall>p\<in>dom h. p < np)"

definition levels_ok :: "(Price \<Rightarrow> Price \<Rightarrow> bool) \<Rightarrow> levels \<Rightarrow> bool" where
  "levels_ok lt m \<longleftrightarrow> omap_sorted lt m
     \<and> (\<forall>pr l. (pr, l) \<in> set m \<longrightarrow> mPrice l = pr \<and> mOrders l \<noteq> [] \<and> distinct (mOrders l))"

definition places :: "OrderBook \<Rightarrow> place set" where
  "places b = side_places True (bids b) \<union> side_places False (asks b)"

definition book_links :: "OrderBook \<Rightarrow> place set \<Rightarrow> bool" where
  "book_links b P \<longleftrightarrow> links (elems b) (orderMap b) (orderDetails b) (nextPtr b) P"

definition book_ok :: "OrderBook \<Rightarrow> bool" where
  "book_ok b \<longleftrightarrow> levels_ok (>) (bids b) \<and> levels_ok (<) (asks b) \<and> book_links b (places b)"

section \<open>Abstraction\<close>

definition resting_of :: "heap \<Rightarrow> (OrderId \<rightharpoonup> OrderDetails) \<Rightarrow> Price \<Rightarrow> ptr \<Rightarrow> Resting" where
  "resting_of h od pr p =
     (let e = the (h p); d = the (od (el_id e))
      in \<lparr>r_id = el_id e, r_trader = el_traderId e, r_side = d_side d, r_price = pr,
          r_qty = el_quantity e, r_recorded = d_quantity d\<rparr>)"

definition abs_side :: "heap \<Rightarrow> (OrderId \<rightharpoonup> OrderDetails) \<Rightarrow> levels \<Rightarrow> Resting list" where
  "abs_side h od m = map (\<lambda>(pr, p). resting_of h od pr p) (flat m)"

definition abs_book :: "OrderBook \<Rightarrow> SpecBook" where
  "abs_book b =
     \<lparr>s_symbol = symbol b, s_bids = abs_side (elems b) (orderDetails b) (bids b),
      s_asks = abs_side (elems b) (orderDetails b) (asks b)\<rparr>"

section \<open>Places of one side\<close>

lemma flat_simps [simp]:
  "flat [] = []"
  "flat ((pr, l) # m) = map (Pair pr) (mOrders l) @ flat m"
  by (simp_all add: flat_def)

lemma in_flat: "(pr, p) \<in> set (flat m) \<longleftrightarrow> (\<exists>l. (pr, l) \<in> set m \<and> p \<in> set (mOrders l))"
  by (induction m) auto

lemma in_side_places [simp]:
  "(buy, pr, p) \<in> side_places buy' m \<longleftrightarrow> buy = buy' \<and> (pr, p) \<in> set (flat m)"
  by (auto simp: side_places_def)

text \<open>Placing behind every pair whose price is at least as good.\<close>

fun place_insert :: "(Price \<Rightarrow> Price \<Rightarrow> bool) \<Rightarrow> Price \<times> ptr \<Rightarrow> (Price \<times> ptr) list \<Rightarrow> (Price \<times> ptr) list" where
  "place_insert lt x [] = [x]"
| "place_insert lt x (y # ys) = (if lt (fst x) (fst y) then x # y # ys else y # place_insert lt x ys)"

lemma set_place_insert [simp]: "set (place_insert lt x ys) = insert x (set ys)"
  by (induction ys) auto

lemma place_insert_append:
  "\<forall>y\<in>set ys. \<not> lt (fst x) (fst y) \<Longrightarrow> place_insert lt x (ys @ zs) = ys @ place_insert lt x zs"
  by (induction ys) auto

lemma map_place_insert:
  "(\<And>y. r_price (f y) = fst y) \<Longrightarrow> map f (place_insert lt x ys) = spec_insert lt (f x) (map f ys)"
  by (induction ys) auto

lemma levels_ok_Cons:
  "levels_ok lt ((pr, l) # m) \<longleftrightarrow> (\<forall>x\<in>set m. lt pr (fst x)) \<and> mPrice l = pr \<and> mOrders l \<noteq> []
     \<and> distinct (mOrders l) \<and> levels_ok lt m"
  by (auto simp: levels_ok_def)

lemma levels_ok_Nil [simp]: "levels_ok lt []"
  by (simp add: levels_ok_def)

context price_priority
begin

lemma flat_prices: "\<forall>x\<in>set m. lt pr (fst x) \<Longrightarrow> y \<in> set (flat m) \<Longrightarrow> lt pr (fst y)"
  by (cases y) (auto simp: in_flat)

lemma flat_notin: "\<forall>x\<in>set m. lt pr (fst x) \<Longrightarrow> (pr, p) \<notin> set (flat m)"
  using flat_prices [of m pr "(pr, p)"] lt_irrefl by auto

lemma flat_filter_other:
  "\<forall>x\<in>set m. lt pr (fst x) \<Longrightarrow> filter (\<lambda>x. x \<noteq> (pr, p)) (flat m) = flat m"
  using flat_notin by (auto simp: filter_id_conv)

lemma flat_distinct: "levels_ok lt m \<Longrightarrow> distinct (flat m)"
proof (induction m)
  case (Cons x m)
  obtain a w where x: "x = (a, w)" by (cases x)
  with Cons.prems have "(a, p) \<notin> set (flat m)" for p
    by (auto simp: levels_ok_Cons intro!: flat_notin)
  with Cons show ?case
    by (auto simp: x levels_ok_Cons distinct_map inj_on_def)
qed simp

lemma place_insert_front:
  "\<forall>x\<in>set m. lt pr (fst x) \<Longrightarrow> place_insert lt (pr, p) (flat m) = (pr, p) # flat m"
  using flat_prices [of m pr] by (cases "flat m") auto

lemma assign_emplace:
  "omap_find k m = None \<Longrightarrow> omap_assign k v (omap_emplace lt k w m) = omap_emplace lt k v m"
  by (induction m) (use lt_total in \<open>fastforce split: if_splits\<close>)+

lemma flat_emplace:
  assumes "levels_ok lt m" "omap_find pr m = None" "mOrders l = [p]"
  shows "flat (omap_emplace lt pr l m) = place_insert lt (pr, p) (flat m)"
  using assms(1,2)
proof (induction m)
  case (Cons x m)
  obtain a w where x: "x = (a, w)" by (cases x)
  from Cons.prems have "lt pr a \<or> lt a pr" using lt_total [of pr a] by (auto simp: x split: if_splits)
  then show ?case
  proof
    assume front: "lt pr a"
    with Cons.prems have "\<forall>y\<in>set (x # m). lt pr (fst y)"
      by (auto simp: x levels_ok_Cons intro: lt_trans)
    from place_insert_front [OF this] front show ?case
      by (simp add: x assms(3))
  next
    assume "lt a pr"
    with Cons show ?case
      by (auto simp: x levels_ok_Cons lt_asym place_insert_append split: if_splits)
  qed
qed (simp add: assms(3))

lemma flat_assign_snoc:
  assumes "levels_ok lt m" "omap_find pr m = Some l" "mOrders l' = mOrders l @ [p]"
  shows "flat (omap_assign pr l' m) = place_insert lt (pr, p) (flat m)"
  using assms(1,2)
proof (induction m)
  case (Cons x m)
  obtain a w where x: "x = (a, w)" by (cases x)
  show ?case
  proof (cases "a = pr")
    case True
    with Cons.prems assms(3) show ?thesis
      by (auto simp: x levels_ok_Cons lt_irrefl place_insert_append place_insert_front)
  next
    case False
    then have "(pr, l) \<in> set m" using Cons.prems by (auto simp: x dest: omap_find_in_set)
    with Cons.prems have "lt a pr" by (auto simp: x levels_ok_Cons)
    then have "\<not> lt pr a" by (rule lt_asym)
    with False Cons show ?thesis
      by (auto simp: x levels_ok_Cons place_insert_append)
  qed
qed simp

lemma flat_erase_last:
  assumes "levels_ok lt m" "omap_find pr m = Some l" "mOrders l = [p]"
  shows "flat (omap_erase pr m) = filter (\<lambda>x. x \<noteq> (pr, p)) (flat m)"
  using assms(1,2)
proof (induction m)
  case (Cons x m)
  obtain a w where x: "x = (a, w)" by (cases x)
  with Cons assms(3) show ?case
    by (auto simp: levels_ok_Cons flat_filter_other split: if_splits)
qed simp

lemma flat_assign_remove:
  assumes "levels_ok lt m" "omap_find pr m = Some l" "mOrders l' = remove1 p (mOrders l)"
  shows "flat (omap_assign pr l' m) = filter (\<lambda>x. x \<noteq> (pr, p)) (flat m)"
  using assms(1,2)
proof (induction m)
  case (Cons x m)
  obtain a w where x: "x = (a, w)" by (cases x)
  have "filter (\<lambda>x. x \<noteq> (pr, p)) (map (Pair a) qs) = map (Pair a) (if a = pr then removeAll p qs else qs)" for qs
    by (induction qs) auto
  with Cons assms(3) show ?case
    by (auto simp: x levels_ok_Cons flat_filter_other distinct_remove1_removeAll split: if_splits)
qed simp

lemma levels_ok_assign:
  assumes "levels_ok lt m" "omap_find pr m = Some l" "mPrice l' = pr" "mOrders l' \<noteq> []" "distinct (mOrders l')"
  shows "levels_ok lt (omap_assign pr l' m)"
  using assms set_assign [of m pr l l'] by (auto simp: levels_ok_def)

lemma levels_ok_emplace:
  assumes "levels_ok lt m" "omap_find pr m = None" "mPrice l = pr" "mOrders l \<noteq> []" "distinct (mOrders l)"
  shows "levels_ok lt (omap_emplace lt pr l m)"
  using assms set_emplace [of pr m l] sorted_emplace [of m pr l]
  by (auto simp: levels_ok_def omap_find_None_iff)

lemma levels_ok_erase: "levels_ok lt m \<Longrightarrow> levels_ok lt (omap_erase pr m)"
  by (auto simp: levels_ok_def omap_sorted_erase dest: set_omap_erase_subset [THEN subsetD])

end

section \<open>Links under heap updates\<close>

lemma linksI:
  assumes "\<And>buy pr p buy' pr'. (buy, pr, p) \<in> P \<Longrightarrow> (buy', pr', p) \<in> P \<Longrightarrow> buy = buy' \<and> pr = pr'"
    and "\<And>p. p \<in> dom h \<longleftrightarrow> (\<exists>buy pr. (buy, pr, p) \<in> P)"
    and "\<And>buy pr p e. (buy, pr, p) \<in> P \<Longrightarrow> h p = Some e \<Longrightarrow>
      om (el_id e) = Some p \<and> (\<exists>d. od (el_id e) = Some d \<and> d_price d = pr \<and> (d_side d = Buy \<longleftrightarrow> buy))"
    and "\<And>i p. om i = Some p \<Longrightarrow> \<exists>e. h p = Some e \<and> el_id e = i"
    and "dom od = dom om"
    and "\<And>p. p \<in> dom h \<Longrightarrow> p < np"
  shows "links h om od np P"
  unfolding links_def
  by (intro conjI allI impI ballI; (rule assms)?) (use assms in blast)+

lemma links_inj: "links h om od np P \<Longrightarrow> (buy, pr, p) \<in> P \<Longrightarrow> (buy', pr', p) \<in> P \<Longrightarrow> buy = buy' \<and> pr = pr'"
  by (simp add: links_def)

lemma links_dom: "links h om od np P \<Longrightarrow> p \<in> dom h \<longleftrightarrow> (\<exists>buy pr. (buy, pr, p) \<in> P)"
  unfolding links_def by blast

lemma links_entry:
  "links h om od np P \<Longrightarrow> (buy, pr, p) \<in> P \<Longrightarrow> h p = Some e \<Longrightarrow>
   om (el_id e) = Some p \<and> (\<exists>d. od (el_id e) = Some d \<and> d_price d = pr \<and> (d_side d = Buy \<longleftrightarrow> buy))"
  by (simp add: links_def)

lemma links_found: "links h om od np P \<Longrightarrow> om i = Some p \<Longrightarrow> \<exists>e. h p = Some e \<and> el_id e = i"
  by (simp add: links_def)

lemma links_details: "links h om od np P \<Longrightarrow> dom od = dom om"
  by (simp add: links_def)

lemma links_bound: "links h om od np P \<Longrightarrow> p \<in> dom h \<Longrightarrow> p < np"
  by (simp add: links_def)

lemma links_lookup:
  assumes "links h om od np P" and "(buy, pr, p) \<in> P"
  obtains e d where "h p = Some e" "om (el_id e) = Some p" "od (el_id e) = Some d"
    "d_price d = pr" "d_side d = Buy \<longleftrightarrow> buy"
proof -
  from links_dom [OF assms(1), of p] assms(2) obtain e where e: "h p = Some e" by blast
  from links_entry [OF assms e] e that show ?thesis by blast
qed

lemma links_place:
  assumes "links h om od np P" and "om i = Some p"
  obtains e d where "h p = Some e" "el_id e = i" "od i = Some d"
    "(d_side d = Buy, d_price d, p) \<in> P"
proof -
  from links_found [OF assms] obtain e where e: "h p = Some e" "el_id e = i" by blast
  with links_dom [OF assms(1), of p] obtain buy pr where pl: "(buy, pr, p) \<in> P" by blast
  from links_entry [OF assms(1) pl e(1)] e pl that show ?thesis by blast
qed

lemma links_ids_differ:
  assumes "links h om od np P" "(buy, pr, p) \<in> P" "(buy', pr', q) \<in> P" "h p = Some e" "h q = Some f" "p \<noteq> q"
  shows "el_id f \<noteq> el_id e"
  using links_entry [OF assms(1,2,4)] links_entry [OF assms(1,3,5)] assms(6) by auto

text \<open>An update of one element and of the details of its id does not show at other places.\<close>

lemma resting_of_other:
  assumes "links h om od np P" "(buy, pr, p) \<in> P" "(buy', pr', q) \<in> P" "h p = Some e" "q \<noteq> p"
  shows "resting_of (h(p := v)) (od(el_id e := w)) pr' q = resting_of h od pr' q"
proof -
  from links_lookup [OF assms(1,3)] obtain f where f: "h q = Some f" by blast
  with links_ids_differ [OF assms(1-4) f] assms(5) show ?thesis by (simp add: resting_of_def)
qed

lemma links_drop:
  assumes L: "links h om od np P" and pl: "(buy, pr, p) \<in> P" and e: "h p = Some e"
  shows "links (h(p := None)) (om(el_id e := None)) (od(el_id e := None)) np (P - {(buy, pr, p)})"
proof (rule linksI)
  fix b' pr' q f assume *: "(b', pr', q) \<in> P - {(buy, pr, p)}" "(h(p := None)) q = Some f"
  then have q: "q \<noteq> p" "h q = Some f" "(b', pr', q) \<in> P" by (auto split: if_splits)
  from links_ids_differ [OF L pl q(3) e q(2)] q(1) links_entry [OF L q(3,2)]
  show "(om(el_id e := None)) (el_id f) = Some q \<and>
    (\<exists>d. (od(el_id e := None)) (el_id f) = Some d \<and> d_price d = pr' \<and> (d_side d = Buy) = b')" by auto
next
  fix i q assume *: "(om(el_id e := None)) i = Some q"
  with links_found [OF L, of i q] e show "\<exists>f. (h(p := None)) q = Some f \<and> el_id f = i"
    by (auto split: if_splits)
next
  fix q show "q \<in> dom (h(p := None)) \<longleftrightarrow> (\<exists>b' pr'. (b', pr', q) \<in> P - {(buy, pr, p)})"
    using links_dom [OF L, of q] links_inj [OF L pl] by (cases "q = p") auto
next
  fix b1 pr1 q b2 pr2 assume "(b1, pr1, q) \<in> P - {(buy, pr, p)}" "(b2, pr2, q) \<in> P - {(buy, pr, p)}"
  then show "b1 = b2 \<and> pr1 = pr2" using links_inj [OF L] by blast
qed (use links_details [OF L] links_bound [OF L] in auto)

lemma links_element_update:
  assumes L: "links h om od np P" and e: "h p = Some e" and same: "el_id e' = el_id e"
  shows "links (h(p \<mapsto> e')) om od np P"
proof (rule linksI)
  fix buy pr q f assume *: "(buy, pr, q) \<in> P" "(h(p \<mapsto> e')) q = Some f"
  from *(2) e same obtain f' where f': "h q = Some f'" "el_id f' = el_id f" by (cases "q = p") auto
  with links_entry [OF L *(1) f'(1)]
  show "om (el_id f) = Some q \<and> (\<exists>d. od (el_id f) = Some d \<and> d_price d = pr \<and> (d_side d = Buy) = buy)"
    by simp
next
  fix i q assume "om i = Some q"
  with links_found [OF L, of i q] e same show "\<exists>f. (h(p \<mapsto> e')) q = Some f \<and> el_id f = i" by auto
next
  fix q show "q \<in> dom (h(p \<mapsto> e')) \<longleftrightarrow> (\<exists>buy pr. (buy, pr, q) \<in> P)"
    using links_dom [OF L, of q] e by auto
next
  fix q assume "q \<in> dom (h(p \<mapsto> e'))"
  then show "q < np" using links_bound [OF L, of q] e by auto
qed (use links_inj [OF L] links_details [OF L] in blast)+

lemma links_move:
  assumes L: "links h om od np P" and pl: "(buy, pr, p) \<in> P" and e: "h p = Some e"
    and d': "(d_side d' = Buy) = buy"
  shows "links h om (od(el_id e \<mapsto> d')) np (insert (buy, d_price d', p) (P - {(buy, pr, p)}))"
    (is "links h om _ np ?P")
proof (rule linksI)
  have only: "q = p \<longleftrightarrow> (b', pr', q) = (buy, d_price d', p)" if "(b', pr', q) \<in> ?P" for b' pr' q
    using that links_inj [OF L pl] by auto
  fix b' pr' q f assume *: "(b', pr', q) \<in> ?P" "h q = Some f"
  show "om (el_id f) = Some q \<and>
    (\<exists>d. (od(el_id e \<mapsto> d')) (el_id f) = Some d \<and> d_price d = pr' \<and> (d_side d = Buy) = b')"
  proof (cases "q = p")
    case True
    with only [OF *(1)] * e d' links_entry [OF L pl e] show ?thesis by auto
  next
    case False
    with * have pq: "(b', pr', q) \<in> P" by auto
    from links_ids_differ [OF L pl pq e *(2)] False links_entry [OF L pq *(2)] show ?thesis by auto
  qed
next
  fix q show "q \<in> dom h \<longleftrightarrow> (\<exists>b' pr'. (b', pr', q) \<in> ?P)"
    using links_dom [OF L, of q] pl by (cases "q = p") auto
next
  fix b1 pr1 q b2 pr2 assume "(b1, pr1, q) \<in> ?P" "(b2, pr2, q) \<in> ?P"
  then show "b1 = b2 \<and> pr1 = pr2"
    using links_inj [OF L pl, of b1 pr1] links_inj [OF L pl, of b2 pr2] links_inj [OF L, of b1 pr1 q b2 pr2]
    by (cases "q = p") auto
next
  show "dom (od(el_id e \<mapsto> d')) = dom om"
    using links_details [OF L] links_entry [OF L pl e] by auto
qed (use links_found [OF L] links_bound [OF L] in auto)

lemma links_alloc:
  assumes L: "links h om od np P" and new: "el_id e \<notin> dom om" and d: "(d_side d = Buy) = buy"
  shows "links (h(np \<mapsto> e)) (om(el_id e \<mapsto> np)) (od(el_id e \<mapsto> d)) (Suc np) (insert (buy, d_price d, np) P)"
    (is "links _ _ _ _ ?P")
proof (rule linksI)
  have fresh: "np \<notin> dom h" using links_bound [OF L] by blast
  then have notin: "(b', pr', np) \<notin> P" for b' pr'
    using links_dom [OF L, of np] by blast
  {
    fix b' pr' q f assume *: "(b', pr', q) \<in> ?P" "(h(np \<mapsto> e)) q = Some f"
    show "(om(el_id e \<mapsto> np)) (el_id f) = Some q \<and>
      (\<exists>d'. (od(el_id e \<mapsto> d)) (el_id f) = Some d' \<and> d_price d' = pr' \<and> (d_side d' = Buy) = b')"
    proof (cases "q = np")
      case True
      with * notin d show ?thesis by auto
    next
      case False
      with * have pq: "(b', pr', q) \<in> P" "h q = Some f" by auto
      from links_entry [OF L pq] new have "el_id f \<noteq> el_id e" by auto
      with links_entry [OF L pq] show ?thesis by auto
    qed
  next
    fix i q assume "(om(el_id e \<mapsto> np)) i = Some q"
    then show "\<exists>f. (h(np \<mapsto> e)) q = Some f \<and> el_id f = i"
      using links_found [OF L, of i q] fresh by (auto split: if_splits)
  next
    fix b1 pr1 q b2 pr2 assume "(b1, pr1, q) \<in> ?P" "(b2, pr2, q) \<in> ?P"
    then show "b1 = b2 \<and> pr1 = pr2"
      using notin links_inj [OF L, of b1 pr1 q b2 pr2] by (cases "q = np") auto
  }
  fix q show "q \<in> dom (h(np \<mapsto> e)) \<longleftrightarrow> (\<exists>b' pr'. (b', pr', q) \<in> ?P)"
    using links_dom [OF L, of q] by auto
next
  fix q assume "q \<in> dom (h(np \<mapsto> e))"
  then show "q < Suc np" using links_bound [OF L, of q] by (auto simp: less_Suc_eq)
qed (use links_details [OF L] in auto)

end
