(* ===== verification/Book_Refinement.thy ===== *)
theory Book_Refinement
  imports Book_Invariant
begin

text \<open>
  Every operation of the concrete order book keeps its invariant, never reaches undefined
  behaviour, and refines the corresponding operation of \<open>Book_Spec\<close>: the abstraction of the
  new book and the confirmations and market data it appends are those of the specification.
\<close>

section \<open>Simulation of the matching loops\<close>

definition level_places :: "bool \<Rightarrow> Price \<Rightarrow> PriceLevel \<Rightarrow> place set" where
  "level_places buy pr l = (\<lambda>p. (buy, pr, p)) ` set (mOrders l)"

definition emits :: "OrderRequest \<Rightarrow> MatchState \<Rightarrow> match_event list \<Rightarrow> MatchState \<Rightarrow> bool" where
  "emits req x evs x' \<longleftrightarrow>
     confirmsOut x' = confirmsOut x @ concat (map (event_confirms (symbol (ms_book x)) req) evs)
   \<and> mdOut x' = mdOut x @ concat (map (event_mds (symbol (ms_book x)) req) evs)
   \<and> symbol (ms_book x') = symbol (ms_book x)"

definition prepend_events ::
  "match_event list \<Rightarrow> Resting list \<times> Quantity \<times> match_event list \<Rightarrow> Resting list \<times> Quantity \<times> match_event list" where
  "prepend_events evs = (\<lambda>(rs, rem, evs'). (rs, rem, evs @ evs'))"

definition level_view :: "Price \<Rightarrow> PriceLevel \<Rightarrow> OrderBook \<Rightarrow> Resting list" where
  "level_view pr l b = map (resting_of (elems b) (orderDetails b) pr) (mOrders l)"

text \<open>What one or more iterations of the inner loop do, seen from the specification. \<open>Q\<close> are
  the places of the book outside the level being matched.\<close>

definition level_sim ::
  "bool \<Rightarrow> OrderRequest \<Rightarrow> Price \<Rightarrow> place set \<Rightarrow> PriceLevel \<Rightarrow> MatchState \<Rightarrow> match_event list
    \<Rightarrow> PriceLevel \<Rightarrow> MatchState \<Rightarrow> bool" where
  "level_sim buy req pr Q level x evs level' x' \<longleftrightarrow>
     emits req x evs x'
   \<and> mPrice level' = mPrice level \<and> (\<exists>n. mOrders level' = drop n (mOrders level))
   \<and> book_links (ms_book x') (level_places buy pr level' \<union> Q)
   \<and> bids (ms_book x') = bids (ms_book x) \<and> asks (ms_book x') = asks (ms_book x)
   \<and> dom (orderMap (ms_book x')) \<subseteq> dom (orderMap (ms_book x))
   \<and> (\<forall>buy' c q. (buy', c, q) \<in> Q \<longrightarrow>
        resting_of (elems (ms_book x')) (orderDetails (ms_book x')) c q
      = resting_of (elems (ms_book x)) (orderDetails (ms_book x)) c q)
   \<and> (\<forall>R. spec_match req (remainingQty x) (level_view pr level (ms_book x) @ R)
        = prepend_events evs (spec_match req (remainingQty x') (level_view pr level' (ms_book x') @ R)))"

lemma emits_trans: "emits req x evs y \<Longrightarrow> emits req y evs' z \<Longrightarrow> emits req x (evs @ evs') z"
  by (simp add: emits_def)

lemma emits_refl: "emits req x [] x"
  by (simp add: emits_def)

lemma prepend_events_simps [simp]:
  "prepend_events evs (rs, rem, evs') = (rs, rem, evs @ evs')"
  "prepend_events [] y = y"
  "prepend_events evs (prepend_events evs' y) = prepend_events (evs @ evs') y"
  by (cases y; simp add: prepend_events_def)+

lemma level_sim_refl:
  "book_links (ms_book x) (level_places buy pr level \<union> Q) \<Longrightarrow> level_sim buy req pr Q level x [] level x"
  by (auto simp: level_sim_def emits_refl intro: exI [of _ 0])

lemma level_sim_trans:
  assumes "level_sim buy req pr Q l x evs l1 x1" and "level_sim buy req pr Q l1 x1 evs' l2 x2"
  shows "level_sim buy req pr Q l x (evs @ evs') l2 x2"
proof -
  from assms obtain n1 n2 where "mOrders l1 = drop n1 (mOrders l)" "mOrders l2 = drop n2 (mOrders l1)"
    by (auto simp: level_sim_def)
  then have "mOrders l2 = drop (n2 + n1) (mOrders l)" by simp
  moreover have "dom (orderMap (ms_book x2)) \<subseteq> dom (orderMap (ms_book x))"
    using assms unfolding level_sim_def by (meson subset_trans)
  ultimately show ?thesis
    using assms unfolding level_sim_def by (simp add: emits_trans) (use emits_trans in blast)
qed

lemma level_places_Cons:
  "mOrders l = p # ps \<Longrightarrow> level_places buy pr l = insert (buy, pr, p) (level_places buy pr (l\<lparr>mOrders := ps\<rparr>))"
  by (auto simp: level_places_def)

text \<open>The three ways an iteration can go.\<close>

lemma matchStep_self:
  assumes "mOrders level = p # ps" "elems (ms_book x) p = Some e" "el_traderId e = m_traderId req"
  shows "matchStep S req pr level x =
    Some (level\<lparr>mTotalQty := mTotalQty level - el_quantity e, mOrders := ps\<rparr>,
      x\<lparr>confirmsOut := confirmsOut x @
          [OrderConfirm CancelAck (el_id e) 0 (el_traderId e) (symbol (ms_book x)) 0 (el_quantity e) SelfTrade],
        mdOut := mdOut x @ [MdUpdate (symbol (ms_book x)) (el_id e) S pr (el_quantity e) MdCancel],
        ms_book := dropElement p (el_id e) (ms_book x)\<rparr>)"
  using assms by (simp add: matchStep_def cancelPassive_def level_simps Let_def)

definition trade_outputs :: "Side \<Rightarrow> OrderRequest \<Rightarrow> Price \<Rightarrow> BookElement \<Rightarrow> Quantity \<Rightarrow> MatchState \<Rightarrow> MatchState" where
  "trade_outputs S req pr e t x =
     x\<lparr>remainingQty := remainingQty x - t,
       confirmsOut := confirmsOut x @
         [OrderConfirm Trade (el_id e) 0 (el_traderId e) (symbol (ms_book x)) pr t UnknownOrder,
          OrderConfirm Trade (m_orderId req) (m_clientOrderId req) (m_traderId req) (symbol (ms_book x))
            pr t UnknownOrder],
       mdOut := mdOut x @
         [MdUpdate (symbol (ms_book x)) (el_id e) S pr t MdTrade,
          MdUpdate (symbol (ms_book x)) (m_orderId req) (m_side req) (m_price req) t MdTrade]\<rparr>"

lemma matchStep_fill:
  assumes "mOrders level = p # ps" "elems (ms_book x) p = Some e" "el_traderId e \<noteq> m_traderId req"
    "el_quantity e \<le> remainingQty x"
  shows "matchStep S req pr level x =
    Some (level\<lparr>mOrders := ps\<rparr>,
      (trade_outputs S req pr e (el_quantity e) x)\<lparr>ms_book := dropElement p (el_id e) (ms_book x)\<rparr>)"
  using assms
  by (simp add: matchStep_def tradePassive_def trade_outputs_def level_simps min_absorb2 dropElement_def Let_def)

lemma matchStep_partial:
  assumes "mOrders level = p # ps" "elems (ms_book x) p = Some e" "el_traderId e \<noteq> m_traderId req"
    "remainingQty x < el_quantity e"
  shows "matchStep S req pr level x =
    Some (level_reduceQty (remainingQty x) level,
      (trade_outputs S req pr e (remainingQty x) x)\<lparr>ms_book := (ms_book x)
        \<lparr>elems := (elems (ms_book x))(p \<mapsto> e\<lparr>el_quantity := el_quantity e - remainingQty x\<rparr>)\<rparr>\<rparr>)"
proof -
  have "min (remainingQty x) (el_quantity e) = remainingQty x" "el_quantity e - remainingQty x \<noteq> 0"
    using assms(4) by auto
  with assms show ?thesis
    by (simp add: matchStep_def tradePassive_def trade_outputs_def level_simps Let_def)
qed

lemma level_sim_drop:
  assumes links: "book_links (ms_book x) (level_places buy pr level \<union> Q)"
    and level: "mOrders level = p # ps" "distinct (mOrders level)" "level_places buy pr level \<inter> Q = {}"
    and e: "elems (ms_book x) p = Some e"
    and emit: "emits req x [ev] x'" and book: "ms_book x' = dropElement p (el_id e) (ms_book x)"
    and lev: "mOrders level' = ps" "mPrice level' = mPrice level"
    and spec: "\<And>R. spec_match req (remainingQty x) (resting_of (elems (ms_book x)) (orderDetails (ms_book x)) pr p # R)
        = prepend_events [ev] (spec_match req (remainingQty x') R)"
  shows "level_sim buy req pr Q level x [ev] level' x'"
proof -
  let ?b = "ms_book x"
  let ?P = "level_places buy pr level \<union> Q"
  have L: "links (elems ?b) (orderMap ?b) (orderDetails ?b) (nextPtr ?b) ?P"
    using links by (simp add: book_links_def)
  have pl: "(buy, pr, p) \<in> ?P" using level(1) by (auto simp: level_places_def)
  have rest: "?P - {(buy, pr, p)} = level_places buy pr level' \<union> Q"
    using level lev(1) pl by (auto simp: level_places_def)
  have frame: "resting_of (elems (ms_book x')) (orderDetails (ms_book x')) c q = resting_of (elems ?b) (orderDetails ?b) c q"
    if "(buy', c, q) \<in> ?P" "q \<noteq> p" for buy' c q
    using resting_of_other [OF L pl that(1) e that(2)] by (simp add: book dropElement_def)
  have notp: "q \<noteq> p" if "(buy', c, q) \<in> Q" for buy' c q
    using that links_inj [OF L pl, of buy' c] level(1,3) by (auto simp: level_places_def)
  have tail: "level_view pr level' (ms_book x') = level_view pr (level\<lparr>mOrders := ps\<rparr>) ?b"
    using frame level(1,2) by (auto simp: level_view_def lev(1) level_places_def)
  have "level_view pr level ?b @ R =
      resting_of (elems ?b) (orderDetails ?b) pr p # level_view pr level' (ms_book x') @ R" for R
    by (simp add: level_view_def level(1) tail [unfolded level_view_def])
  then have match: "\<forall>R. spec_match req (remainingQty x) (level_view pr level ?b @ R)
      = prepend_events [ev] (spec_match req (remainingQty x') (level_view pr level' (ms_book x') @ R))"
    using spec by simp
  have "book_links (ms_book x') (level_places buy pr level' \<union> Q)"
    using links_drop [OF L pl e] rest by (simp add: book book_links_def dropElement_def)
  moreover have "\<exists>n. mOrders level' = drop n (mOrders level)"
    by (intro exI [of _ 1]) (simp add: level(1) lev(1))
  moreover have "dom (orderMap (ms_book x')) \<subseteq> dom (orderMap ?b)"
    by (auto simp: book dropElement_def split: if_splits)
  moreover have "bids (ms_book x') = bids ?b" "asks (ms_book x') = asks ?b"
    by (simp_all add: book dropElement_def)
  ultimately show ?thesis
    using emit match frame notp lev(2) unfolding level_sim_def by blast
qed

lemma level_sim_partial:
  assumes links: "book_links (ms_book x) (level_places buy pr level \<union> Q)"
    and level: "mOrders level = p # ps" "distinct (mOrders level)" "level_places buy pr level \<inter> Q = {}"
    and e: "elems (ms_book x) p = Some e" "el_id e' = el_id e"
    and emit: "emits req x [ev] x'" and book: "ms_book x' = (ms_book x)\<lparr>elems := (elems (ms_book x))(p \<mapsto> e')\<rparr>"
    and lev: "mOrders level' = mOrders level" "mPrice level' = mPrice level" and rem: "remainingQty x' = 0"
    and spec: "\<And>R. spec_match req (remainingQty x) (resting_of (elems (ms_book x)) (orderDetails (ms_book x)) pr p # R)
        = (resting_of (elems (ms_book x')) (orderDetails (ms_book x)) pr p # R, 0, [ev])"
  shows "level_sim buy req pr Q level x [ev] level' x'"
proof -
  let ?b = "ms_book x"
  let ?P = "level_places buy pr level \<union> Q"
  have L: "links (elems ?b) (orderMap ?b) (orderDetails ?b) (nextPtr ?b) ?P"
    using links by (simp add: book_links_def)
  have pl: "(buy, pr, p) \<in> ?P" using level(1) by (auto simp: level_places_def)
  have frame: "resting_of (elems (ms_book x')) (orderDetails (ms_book x')) c q = resting_of (elems ?b) (orderDetails ?b) c q"
    if "(buy', c, q) \<in> ?P" "q \<noteq> p" for buy' c q
    using resting_of_other [OF L pl that(1) e(1) that(2), of "Some e'" "orderDetails ?b (el_id e)"]
    by (simp add: book)
  have notp: "q \<noteq> p" if "(buy', c, q) \<in> Q" for buy' c q
    using that links_inj [OF L pl, of buy' c] level(1,3) by (auto simp: level_places_def)
  have tail: "map (resting_of (elems (ms_book x')) (orderDetails (ms_book x')) pr) ps
      = map (resting_of (elems ?b) (orderDetails ?b) pr) ps"
    using frame level(1,2) by (auto simp: level_places_def)
  have stop: "spec_match req 0 rs = (rs, 0, [])" for rs
    by (cases rs) auto
  have match: "\<forall>R. spec_match req (remainingQty x) (level_view pr level ?b @ R)
      = prepend_events [ev] (spec_match req (remainingQty x') (level_view pr level' (ms_book x') @ R))"
    using spec tail by (simp add: level_view_def level(1) lev(1) rem stop book)
  have same: "level_places buy pr level' = level_places buy pr level"
    by (simp add: level_places_def lev(1))
  have "book_links (ms_book x') (level_places buy pr level' \<union> Q)"
    using links_element_update [OF L e] by (simp add: book book_links_def same)
  moreover have "\<exists>n. mOrders level' = drop n (mOrders level)"
    by (intro exI [of _ 0]) (simp add: lev(1))
  moreover have "dom (orderMap (ms_book x')) \<subseteq> dom (orderMap ?b)" "bids (ms_book x') = bids ?b" "asks (ms_book x') = asks ?b"
    by (simp_all add: book)
  ultimately show ?thesis
    using emit match frame notp lev(2) unfolding level_sim_def by blast
qed

lemma matchStep_sim:
  assumes links: "book_links (ms_book x) (level_places (S = Buy) pr level \<union> Q)"
    and level: "mOrders level \<noteq> []" "distinct (mOrders level)" "level_places (S = Buy) pr level \<inter> Q = {}"
    and S: "S = passive_side req" and rem: "0 < remainingQty x" and can: "canTrade S pr (m_price req)"
  shows "\<exists>level' x' ev. matchStep S req pr level x = Some (level', x') \<and> level_sim (S = Buy) req pr Q level x [ev] level' x'"
proof -
  let ?b = "ms_book x"
  from level(1) obtain p ps where ps: "mOrders level = p # ps" by (cases "mOrders level") auto
  have pl: "(S = Buy, pr, p) \<in> level_places (S = Buy) pr level \<union> Q"
    using ps by (auto simp: level_places_def)
  from links_lookup [OF links [unfolded book_links_def] pl] obtain e where e: "elems ?b p = Some e" by blast
  define r where "r = resting_of (elems ?b) (orderDetails ?b) pr p"
  have r: "r_id r = el_id e" "r_trader r = el_traderId e" "r_price r = pr" "r_qty r = el_quantity e"
    by (simp_all add: r_def resting_of_def e Let_def)
  have cr: "crosses req r"
    using can by (auto simp: crosses_def r S passive_side_def canTrade_def split: if_splits)
  consider (self) "el_traderId e = m_traderId req"
    | (fill) "el_traderId e \<noteq> m_traderId req" "el_quantity e \<le> remainingQty x"
    | (partial) "el_traderId e \<noteq> m_traderId req" "remainingQty x < el_quantity e"
    by fastforce
  then show ?thesis
  proof cases
    case self
    show ?thesis
      by (rule exI, rule exI, rule exI [of _ "SelfCancel r"], rule conjI,
          rule matchStep_self [OF ps e self], rule level_sim_drop [OF links ps level(2,3) e])
        (use self rem cr in \<open>auto simp: emits_def r S dropElement_def r_def [symmetric] split: prod.splits\<close>)
  next
    case fill
    show ?thesis
      by (rule exI, rule exI, rule exI [of _ "Fill r (r_qty r)"], rule conjI,
          rule matchStep_fill [OF ps e fill], rule level_sim_drop [OF links ps level(2,3) e])
        (use fill rem cr in \<open>auto simp: emits_def r S dropElement_def trade_outputs_def r_def [symmetric] split: prod.splits\<close>)
  next
    case partial
    have upd: "resting_of ((elems ?b)(p \<mapsto> e\<lparr>el_quantity := el_quantity e - remainingQty x\<rparr>)) (orderDetails ?b) pr p
        = r\<lparr>r_qty := r_qty r - remainingQty x\<rparr>"
      by (simp add: r_def resting_of_def e Let_def)
    show ?thesis
      by (rule exI, rule exI, rule exI [of _ "Fill r (remainingQty x)"], rule conjI,
          rule matchStep_partial [OF ps e partial],
          rule level_sim_partial [OF links ps level(2,3) e, where e' = "e\<lparr>el_quantity := el_quantity e - remainingQty x\<rparr>"])
        (use partial rem cr upd in \<open>auto simp: emits_def r S trade_outputs_def level_simps r_def [symmetric]\<close>)
  qed
qed

lemma level_places_mono: "mOrders l' = drop n (mOrders l) \<Longrightarrow> level_places buy pr l' \<subseteq> level_places buy pr l"
  by (auto simp: level_places_def dest: in_set_dropD)

lemma matchLevel_sim:
  assumes "book_links (ms_book x) (level_places (S = Buy) pr level \<union> Q)"
    and "distinct (mOrders level)" "level_places (S = Buy) pr level \<inter> Q = {}"
    and "S = passive_side req" and "canTrade S pr (m_price req)"
  shows "\<exists>level' x' evs. matchLevel S req pr level x = Some (level', x') \<and> level_sim (S = Buy) req pr Q level x evs level' x'"
  using assms
proof (induction S req pr level x rule: matchLevel.induct)
  case (1 S req pr level x)
  show ?case
  proof (cases "0 < remainingQty x \<and> \<not> level_isEmpty level")
    case True
    with "1.prems" matchStep_sim [of x S pr level Q req] obtain l1 x1 ev
      where step: "matchStep S req pr level x = Some (l1, x1)" and sim: "level_sim (S = Buy) req pr Q level x [ev] l1 x1"
      by (auto simp: level_isEmpty_def)
    from sim obtain n where n: "mOrders l1 = drop n (mOrders level)" by (auto simp: level_sim_def)
    have "\<exists>level' x' evs. matchLevel S req pr l1 x1 = Some (level', x') \<and> level_sim (S = Buy) req pr Q l1 x1 evs level' x'"
    proof (rule "1.IH" [OF True step refl])
      show "book_links (ms_book x1) (level_places (S = Buy) pr l1 \<union> Q)" using sim by (simp add: level_sim_def)
      show "distinct (mOrders l1)" using n "1.prems"(2) by simp
      show "level_places (S = Buy) pr l1 \<inter> Q = {}" using level_places_mono [OF n] "1.prems"(3) by blast
    qed (use "1.prems" in auto)
    then obtain level' x' evs where rec: "matchLevel S req pr l1 x1 = Some (level', x')"
      "level_sim (S = Buy) req pr Q l1 x1 evs level' x'" by blast
    from True step rec(1) have "matchLevel S req pr level x = Some (level', x')"
      by (simp add: matchLevel.simps [of S req pr level x])
    with level_sim_trans [OF sim rec(2)] show ?thesis by blast
  next
    case False
    then have "matchLevel S req pr level x = Some (level, x)"
      by (simp only: matchLevel.simps [of S req pr level x] if_False)
    with level_sim_refl [OF "1.prems"(1)] show ?thesis by blast
  qed
qed

section \<open>The two sides of a book\<close>

lemma price_priority_side_lt: "price_priority (side_lt S)"
  by (cases "S = Buy") (simp_all add: side_lt_def bid_priority.price_priority_axioms ask_priority.price_priority_axioms)

lemmas side_priority =
  price_priority.flat_distinct [OF price_priority_side_lt]
  price_priority.flat_notin [OF price_priority_side_lt]

definition other_side :: "Side \<Rightarrow> Side" where
  "other_side S = (if S = Buy then Sell else Buy)"

lemma getBook_setBook [book_simps]:
  "getBook S (setBook S m b) = m"
  "getBook (other_side S) (setBook S m b) = getBook (other_side S) b"
  "elems (setBook S m b) = elems b" "orderMap (setBook S m b) = orderMap b"
  "orderDetails (setBook S m b) = orderDetails b" "nextPtr (setBook S m b) = nextPtr b"
  "symbol (setBook S m b) = symbol b"
  by (auto simp: getBook_def setBook_def other_side_def)

lemma book_links_setBook [book_simps]: "book_links (setBook S m b) P = book_links b P"
  by (simp add: book_links_def book_simps)

text \<open>The invariant, seen from either side.\<close>

lemma book_ok_side:
  "book_ok b \<longleftrightarrow> levels_ok (side_lt S) (getBook S b) \<and> levels_ok (side_lt (other_side S)) (getBook (other_side S) b)
     \<and> book_links b (side_places (S = Buy) (getBook S b) \<union> side_places (S \<noteq> Buy) (getBook (other_side S) b))"
  by (cases "S = Buy") (auto simp: book_ok_def places_def side_lt_def getBook_def other_side_def Un_commute)

definition side_view :: "Side \<Rightarrow> OrderBook \<Rightarrow> Resting list" where
  "side_view S b = abs_side (elems b) (orderDetails b) (getBook S b)"

lemma abs_book_eqI:
  assumes "symbol b = s_symbol B" "side_view S b = (if S = Buy then s_bids B else s_asks B)"
    "side_view (other_side S) b = (if S = Buy then s_asks B else s_bids B)"
  shows "abs_book b = B"
  using assms
  by (cases "S = Buy") (simp_all add: abs_book_def side_view_def getBook_def other_side_def)

lemma abs_side_cong:
  assumes "\<And>pr p. (pr, p) \<in> set (flat m) \<Longrightarrow> resting_of h od pr p = resting_of h' od' pr p"
  shows "abs_side h od m = abs_side h' od' m"
  using assms by (auto simp: abs_side_def)

lemma abs_side_Cons: "abs_side h od ((pr, l) # m) = map (resting_of h od pr) (mOrders l) @ abs_side h od m"
  by (simp add: abs_side_def)

section \<open>Simulation of the outer loop\<close>

definition match_sim :: "Side \<Rightarrow> OrderRequest \<Rightarrow> MatchState \<Rightarrow> match_event list \<Rightarrow> MatchState \<Rightarrow> bool" where
  "match_sim S req x evs x' \<longleftrightarrow>
     emits req x evs x' \<and> book_ok (ms_book x')
   \<and> side_view (other_side S) (ms_book x') = side_view (other_side S) (ms_book x)
   \<and> getBook (other_side S) (ms_book x') = getBook (other_side S) (ms_book x)
   \<and> dom (orderMap (ms_book x')) \<subseteq> dom (orderMap (ms_book x))
   \<and> spec_match req (remainingQty x) (side_view S (ms_book x))
     = (side_view S (ms_book x'), remainingQty x', evs)"

lemma level_places_disjoint:
  assumes "levels_ok (side_lt S) ((pr, level) # rest)"
  shows "level_places (S = Buy) pr level \<inter> (side_places (S = Buy) rest \<union> side_places (S \<noteq> Buy) m) = {}"
  using assms side_priority(2) [of rest S pr] by (auto simp: level_places_def levels_ok_Cons)

text \<open>One round of the outer loop, from the result of the inner loop.\<close>

lemma level_sim_book_ok:
  assumes ok: "book_ok (ms_book x)" and lev: "getBook S (ms_book x) = (pr, level) # rest"
    and sim: "level_sim (S = Buy) req pr
      (side_places (S = Buy) rest \<union> side_places (S \<noteq> Buy) (getBook (other_side S) (ms_book x))) level x evs level' x'"
    and b': "b' = setBook S (if level_isEmpty level' then rest else (pr, level') # rest) (ms_book x')"
  shows "book_ok b' \<and> side_view (other_side S) b' = side_view (other_side S) (ms_book x)
    \<and> getBook (other_side S) b' = getBook (other_side S) (ms_book x)
    \<and> side_view S b' = level_view pr level' (ms_book x') @ abs_side (elems (ms_book x)) (orderDetails (ms_book x)) rest"
proof -
  let ?other = "getBook (other_side S) (ms_book x)"
  have other: "getBook (other_side S) (ms_book x') = ?other"
    using sim by (simp add: level_sim_def getBook_def)
  from ok lev have oks: "levels_ok (side_lt S) ((pr, level) # rest)" "levels_ok (side_lt (other_side S)) ?other"
    unfolding book_ok_side [of _ S] by auto
  from sim obtain n where n: "mOrders level' = drop n (mOrders level)" "mPrice level' = mPrice level"
    by (auto simp: level_sim_def)
  have frame: "abs_side (elems (ms_book x')) (orderDetails (ms_book x')) m = abs_side (elems (ms_book x)) (orderDetails (ms_book x)) m"
    if "m = rest \<or> m = ?other" for m
    by (rule abs_side_cong) (use sim that in \<open>auto simp: level_sim_def\<close>)
  have "side_places (S = Buy) (if level_isEmpty level' then rest else (pr, level') # rest) =
      level_places (S = Buy) pr level' \<union> side_places (S = Buy) rest"
    by (auto simp: side_places_def level_places_def level_isEmpty_def)
  then have "book_links (ms_book x') (side_places (S = Buy) (if level_isEmpty level' then rest else (pr, level') # rest)
      \<union> side_places (S \<noteq> Buy) ?other)"
    using sim by (simp add: level_sim_def Un_assoc)
  then have "book_ok b'"
    unfolding book_ok_side [of _ S] b' using oks n other
    by (auto simp: book_simps levels_ok_Cons level_isEmpty_def)
  with frame other show ?thesis
    by (auto simp: side_view_def b' book_simps level_view_def level_isEmpty_def abs_side_Cons)
qed

lemma spec_match_stop:
  assumes "levels_ok lt ((pr, level) # rest)" "S = passive_side req"
    "remainingQty x = 0 \<or> \<not> canTrade S pr (m_price req)"
  shows "spec_match req (remainingQty x) (abs_side h od ((pr, level) # rest)) = (abs_side h od ((pr, level) # rest), remainingQty x, [])"
proof -
  from assms(1) obtain p ps where "mOrders level = p # ps" by (cases "mOrders level") (auto simp: levels_ok_Cons)
  moreover have "\<not> canTrade S pr (m_price req) \<Longrightarrow> \<not> crosses req (resting_of h od pr p)"
    using assms(2) by (auto simp: crosses_def resting_of_def Let_def passive_side_def canTrade_def split: if_splits)
  ultimately show ?thesis using assms(3) by (auto simp: abs_side_Cons)
qed

text \<open>Matching against the best level, and what it leaves for the rest of the side.\<close>

lemma match_best_level:
  assumes ok: "book_ok (ms_book x)" and S: "S = passive_side req" and lev: "getBook S (ms_book x) = (pr, level) # rest"
    and go: "0 < remainingQty x" "canTrade S pr (m_price req)"
  obtains l1 x1 x2 evs1 where "matchLevel S req pr level x = Some (l1, x1)"
    "x2 = x1\<lparr>ms_book := setBook S (if level_isEmpty l1 then rest else (pr, l1) # rest) (ms_book x1)\<rparr>"
    "book_ok (ms_book x2)" "\<And>evs x'. match_sim S req x2 evs x' \<Longrightarrow> match_sim S req x (evs1 @ evs) x'"
proof -
  let ?Q = "side_places (S = Buy) rest \<union> side_places (S \<noteq> Buy) (getBook (other_side S) (ms_book x))"
  from ok lev have lok: "levels_ok (side_lt S) ((pr, level) # rest)" unfolding book_ok_side [of _ S] by simp
  have "side_places (S = Buy) ((pr, level) # rest) = level_places (S = Buy) pr level \<union> side_places (S = Buy) rest"
    by (auto simp: side_places_def level_places_def)
  with ok lev have "book_links (ms_book x) (level_places (S = Buy) pr level \<union> ?Q)"
    unfolding book_ok_side [of _ S] by (simp add: Un_assoc)
  from matchLevel_sim [OF this _ level_places_disjoint [OF lok] S] go lok
  obtain l1 x1 evs1 where run: "matchLevel S req pr level x = Some (l1, x1)"
    and sim: "level_sim (S = Buy) req pr ?Q level x evs1 l1 x1"
    by (auto simp: levels_ok_Cons)
  define x2 where "x2 = x1\<lparr>ms_book := setBook S (if level_isEmpty l1 then rest else (pr, l1) # rest) (ms_book x1)\<rparr>"
  from level_sim_book_ok [OF ok lev sim] have b2: "book_ok (ms_book x2)"
    "side_view (other_side S) (ms_book x2) = side_view (other_side S) (ms_book x)"
    "getBook (other_side S) (ms_book x2) = getBook (other_side S) (ms_book x)"
    "side_view S (ms_book x2) = level_view pr l1 (ms_book x1) @ abs_side (elems (ms_book x)) (orderDetails (ms_book x)) rest"
    by (simp_all add: x2_def)
  have step: "emits req x evs1 x2" "dom (orderMap (ms_book x2)) \<subseteq> dom (orderMap (ms_book x))"
    using sim by (auto simp: level_sim_def emits_def x2_def book_simps)
  have "match_sim S req x (evs1 @ evs) x'" if rec: "match_sim S req x2 evs x'" for evs x'
  proof -
    have "spec_match req (remainingQty x) (side_view S (ms_book x)) = (side_view S (ms_book x'), remainingQty x', evs1 @ evs)"
      using sim rec b2(4) lev
      by (simp add: level_sim_def match_sim_def side_view_def abs_side_Cons level_view_def x2_def)
    then show ?thesis
      using rec b2 emits_trans [OF step(1)] subset_trans [OF _ step(2)]
      unfolding match_sim_def by (intro conjI) (simp_all only:)
  qed
  with run x2_def b2(1) show ?thesis by (rule that)
qed

lemma matchAgainst_sim:
  assumes "book_ok (ms_book x)" and "S = passive_side req"
  shows "\<exists>x' evs. matchAgainst S req x = Some x' \<and> match_sim S req x evs x'"
  using assms
proof (induction S req x rule: matchAgainst.induct)
  case (1 S req x)
  show ?case
  proof (cases "getBook S (ms_book x)")
    case Nil
    then have "matchAgainst S req x = Some x" by (simp add: matchAgainst.simps [of S req x])
    moreover have "match_sim S req x [] x"
      using "1.prems"(1) Nil by (simp add: match_sim_def emits_refl side_view_def abs_side_def)
    ultimately show ?thesis by blast
  next
    case (Cons lv rest)
    obtain pr level where lv: "lv = (pr, level)" by (cases lv)
    have lev: "getBook S (ms_book x) = (pr, level) # rest" using Cons lv by simp
    show ?thesis
    proof (cases "0 < remainingQty x \<and> canTrade S pr (m_price req)")
      case False
      from "1.prems"(1) lev have ok: "levels_ok (side_lt S) ((pr, level) # rest)" unfolding book_ok_side [of _ S] by simp
      have "matchAgainst S req x = Some x"
        using False by (simp only: matchAgainst.simps [of S req x] lev list.case prod.case if_False)
      moreover have "match_sim S req x [] x"
        using spec_match_stop [OF ok "1.prems"(2), of x] False "1.prems"(1) lev
        by (simp add: match_sim_def emits_refl side_view_def word_gt_0 disj_commute)
      ultimately show ?thesis by blast
    next
      case True
      obtain l1 x1 x2 evs1 where run: "matchLevel S req pr level x = Some (l1, x1)"
        and x2: "x2 = x1\<lparr>ms_book := setBook S (if level_isEmpty l1 then rest else (pr, l1) # rest) (ms_book x1)\<rparr>"
        and ok2: "book_ok (ms_book x2)" and sim: "\<And>evs x'. match_sim S req x2 evs x' \<Longrightarrow> match_sim S req x (evs1 @ evs) x'"
        using match_best_level [OF "1.prems" lev] True by blast
      have "\<exists>x' evs. matchAgainst S req x2 = Some x' \<and> match_sim S req x2 evs x'"
        unfolding x2 by (rule "1.IH" [OF Cons lv [symmetric] True run refl])
          (use ok2 "1.prems"(2) in \<open>auto simp: x2\<close>)
      then obtain x' evs where rec: "matchAgainst S req x2 = Some x'" "match_sim S req x2 evs x'" by blast
      have "matchAgainst S req x = Some x'"
        using True run rec(1) lev by (simp add: matchAgainst.simps [of S req x] x2)
      with sim [OF rec(2)] show ?thesis by blast
    qed
  qed
qed

section \<open>Levels of one side\<close>

lemma removeFromLevel_Some:
  assumes ok: "levels_ok (side_lt S) (getBook S b)" and pl: "(pr, p) \<in> set (flat (getBook S b))"
    and e: "elems b p = Some e"
  obtains m where "removeFromLevel S p pr b = Some (setBook S m b)" "levels_ok (side_lt S) m"
    "flat m = filter (\<lambda>x. x \<noteq> (pr, p)) (flat (getBook S b))"
proof -
  let ?m = "getBook S b"
  from pl obtain l where l: "(pr, l) \<in> set ?m" "p \<in> set (mOrders l)" by (auto simp: in_flat)
  have srt: "omap_sorted (side_lt S) ?m" using ok by (simp add: levels_ok_def)
  have cmp: "comparator (side_lt S)"
    using price_priority_side_lt by (simp add: price_priority_def)
  have find: "omap_find pr ?m = Some l"
    using l(1) comparator.find_iff [OF cmp srt] by blast
  from ok l have lok: "mPrice l = pr" "distinct (mOrders l)" by (auto simp: levels_ok_def)
  define l' where "l' = l\<lparr>mTotalQty := mTotalQty l - el_quantity e, mOrders := remove1 p (mOrders l)\<rparr>"
  have rem: "level_removeOrder (elems b) p l = Some l'"
    using e l(2) by (simp add: level_simps l'_def)
  show ?thesis
  proof (cases "remove1 p (mOrders l) = []")
    case True
    then have one: "mOrders l = [p]" using l(2) by (cases "mOrders l") (auto split: if_splits)
    show ?thesis
      by (rule that [of "omap_erase pr ?m"])
        (use True rem find one ok in \<open>auto simp: removeFromLevel_def level_isEmpty_def l'_def
          price_priority.levels_ok_erase [OF price_priority_side_lt]
          price_priority.flat_erase_last [OF price_priority_side_lt ok find one]\<close>)
  next
    case False
    show ?thesis
    proof (rule that [of "omap_assign pr l' ?m"])
      show "removeFromLevel S p pr b = Some (setBook S (omap_assign pr l' ?m) b)"
        using False rem find by (simp add: removeFromLevel_def level_isEmpty_def l'_def)
      show "levels_ok (side_lt S) (omap_assign pr l' ?m)"
        by (rule price_priority.levels_ok_assign [OF price_priority_side_lt ok find])
          (use lok False in \<open>simp_all add: l'_def\<close>)
      show "flat (omap_assign pr l' ?m) = filter (\<lambda>x. x \<noteq> (pr, p)) (flat ?m)"
        by (rule price_priority.flat_assign_remove [OF price_priority_side_lt ok find]) (simp add: l'_def)
    qed
  qed
qed

lemma insertIntoLevel_Some:
  assumes ok: "levels_ok (side_lt S) (getBook S b)" and pl: "(pr, p) \<notin> set (flat (getBook S b))"
    and e: "elems b p = Some e"
  obtains m where "insertIntoLevel S p pr b = Some (setBook S m b)" "levels_ok (side_lt S) m"
    "flat m = place_insert (side_lt S) (pr, p) (flat (getBook S b))"
proof (cases "omap_find pr (getBook S b)")
  case None
  let ?l = "(PriceLevel_new pr)\<lparr>mOrders := [p], mTotalQty := el_quantity e\<rparr>"
  have "setBook S m (setBook S m' b) = setBook S m b" for m m'
    by (simp add: setBook_def)
  then have "insertIntoLevel S p pr b = Some (setBook S (omap_emplace (side_lt S) pr ?l (getBook S b)) b)"
    using None e
    by (simp add: insertIntoLevel_def getOrCreateLevel_def level_simps book_simps
        price_priority.assign_emplace [OF price_priority_side_lt])
  then show ?thesis
    by (rule that)
      (auto simp: PriceLevel_new_def intro!: price_priority.levels_ok_emplace [OF price_priority_side_lt ok None]
        price_priority.flat_emplace [OF price_priority_side_lt ok None])
next
  case (Some l)
  then have l: "(pr, l) \<in> set (getBook S b)" by (rule omap_find_in_set)
  with ok pl have lok: "mPrice l = pr" "distinct (mOrders l)" "p \<notin> set (mOrders l)"
    by (auto simp: levels_ok_def in_flat)
  let ?l = "l\<lparr>mOrders := mOrders l @ [p], mTotalQty := mTotalQty l + el_quantity e\<rparr>"
  have "insertIntoLevel S p pr b = Some (setBook S (omap_assign pr ?l (getBook S b)) b)"
    using Some e by (simp add: insertIntoLevel_def getOrCreateLevel_def level_simps)
  moreover have "levels_ok (side_lt S) (omap_assign pr ?l (getBook S b))"
    by (rule price_priority.levels_ok_assign [OF price_priority_side_lt ok Some]) (use lok in simp_all)
  moreover have "flat (omap_assign pr ?l (getBook S b)) = place_insert (side_lt S) (pr, p) (flat (getBook S b))"
    by (rule price_priority.flat_assign_snoc [OF price_priority_side_lt ok Some]) simp
  ultimately show ?thesis by (rule that)
qed

section \<open>Looking an order up\<close>

lemma resting_price [simp]: "r_price (resting_of h od pr p) = pr"
  by (simp add: resting_of_def Let_def)

lemma resting_id_iff:
  assumes "links h om od np P" "om i = Some p" "(buy, pr, q) \<in> P"
  shows "r_id (resting_of h od pr q) = i \<longleftrightarrow> q = p"
proof -
  from links_lookup [OF assms(1,3)] obtain f where f: "h q = Some f" "om (el_id f) = Some q" by blast
  from links_found [OF assms(1,2)] obtain e where "h p = Some e" "el_id e = i" by blast
  with f assms(2) show ?thesis by (auto simp: resting_of_def Let_def)
qed

lemma resting_id_known:
  assumes "links h om od np P" "(buy, pr, q) \<in> P"
  shows "r_id (resting_of h od pr q) \<in> dom om"
proof -
  from links_lookup [OF assms] obtain f where "h q = Some f" "om (el_id f) = Some q" by blast
  then show ?thesis by (auto simp: resting_of_def Let_def)
qed

lemma find_filter: "List.find P xs = (case filter P xs of [] \<Rightarrow> None | x # _ \<Rightarrow> Some x)"
  by (induction xs) auto

lemma spec_orders_abs:
  "spec_orders (abs_book b) = map (\<lambda>(pr, p). resting_of (elems b) (orderDetails b) pr p) (flat (bids b) @ flat (asks b))"
  by (simp add: spec_orders_def abs_book_def abs_side_def)

lemma in_spec_orders_abs:
  "x \<in> set (spec_orders (abs_book b)) \<longleftrightarrow>
   (\<exists>buy pr q. (buy, pr, q) \<in> places b \<and> x = resting_of (elems b) (orderDetails b) pr q)"
proof -
  have "x \<in> set (spec_orders (abs_book b)) \<longleftrightarrow>
      (\<exists>y\<in>set (flat (bids b)) \<union> set (flat (asks b)). x = resting_of (elems b) (orderDetails b) (fst y) (snd y))"
    by (auto simp: spec_orders_abs case_prod_beta image_iff)
  then show ?thesis by (simp add: places_def bex_Un) (metis fst_conv snd_conv surj_pair)
qed

lemma spec_find_abs:
  assumes "book_ok b"
  shows "spec_find i (abs_book b) =
    (case orderMap b i of
       None \<Rightarrow> None
     | Some p \<Rightarrow> Some (resting_of (elems b) (orderDetails b) (d_price (the (orderDetails b i))) p))"
proof -
  have L: "links (elems b) (orderMap b) (orderDetails b) (nextPtr b) (places b)"
    using assms by (simp add: book_ok_def book_links_def)
  show ?thesis
  proof (cases "orderMap b i")
    case None
    then have "\<forall>x\<in>set (spec_orders (abs_book b)). r_id x \<noteq> i"
      using resting_id_known [OF L] by (metis domIff in_spec_orders_abs)
    then show ?thesis using None by (auto simp: spec_find_def find_None_iff)
  next
    case (Some p)
    from links_place [OF L Some] obtain d where d: "orderDetails b i = Some d" "(d_side d = Buy, d_price d, p) \<in> places b"
      by blast
    let ?r = "resting_of (elems b) (orderDetails b) (d_price d) p"
    have uniq: "x = ?r" if "x \<in> set (spec_orders (abs_book b))" "r_id x = i" for x
    proof -
      from that(1) obtain buy pr q where q: "(buy, pr, q) \<in> places b" "x = resting_of (elems b) (orderDetails b) pr q"
        by (auto simp: in_spec_orders_abs)
      with that(2) resting_id_iff [OF L Some q(1)] links_inj [OF L d(2), of buy pr] show ?thesis by auto
    qed
    have "?r \<in> set (spec_orders (abs_book b))"
      using d(2) by (auto simp: in_spec_orders_abs)
    moreover have "r_id ?r = i" using resting_id_iff [OF L Some d(2)] by simp
    ultimately obtain x where x: "List.find (\<lambda>r. r_id r = i) (spec_orders (abs_book b)) = Some x"
      by (cases "List.find (\<lambda>r. r_id r = i) (spec_orders (abs_book b))") (auto simp: find_None_iff)
    then have "x \<in> set (spec_orders (abs_book b))" "r_id x = i" by (auto simp: find_Some_iff)
    from uniq [OF this] x show ?thesis by (simp add: Some d(1) spec_find_def)
  qed
qed

lemma orderMap_dom:
  assumes "book_ok b"
  shows "dom (orderMap b) = r_id ` set (spec_orders (abs_book b))"
proof -
  have L: "links (elems b) (orderMap b) (orderDetails b) (nextPtr b) (places b)"
    using assms by (simp add: book_ok_def book_links_def)
  have "i \<in> r_id ` set (spec_orders (abs_book b))" if known: "orderMap b i = Some p" for i p
  proof -
    obtain e d where "elems b p = Some e" "el_id e = i" "orderDetails b i = Some d"
      and pl: "(d_side d = Buy, d_price d, p) \<in> places b"
      by (rule links_place [OF L known])
    then have "resting_of (elems b) (orderDetails b) (d_price d) p \<in> set (spec_orders (abs_book b))"
      unfolding in_spec_orders_abs by blast
    with resting_id_iff [OF L known pl] show ?thesis by blast
  qed
  moreover have "r_id x \<in> dom (orderMap b)" if "x \<in> set (spec_orders (abs_book b))" for x
    using that resting_id_known [OF L] unfolding in_spec_orders_abs by blast
  ultimately show ?thesis by blast
qed

lemma s_symbol_abs [simp]: "s_symbol (abs_book b) = symbol b"
  by (simp add: abs_book_def)

section \<open>Refinement of the operations\<close>

text \<open>An outcome of the concrete book implements a result of the specification.\<close>

definition implements ::
  "(OrderBook \<times> OrderConfirm list \<times> MdUpdate list) option \<Rightarrow> OrderConfirm list \<Rightarrow> MdUpdate list
    \<Rightarrow> SpecBook \<times> OrderConfirm list \<times> MdUpdate list \<Rightarrow> bool" where
  "implements outcome cs ms R \<longleftrightarrow>
     (case R of (B, cs', ms') \<Rightarrow> \<exists>b. outcome = Some (b, cs @ cs', ms @ ms') \<and> book_ok b \<and> abs_book b = B)"

lemma implementsI:
  "outcome = Some (b, cs @ cs', ms @ ms') \<Longrightarrow> book_ok b \<Longrightarrow> abs_book b = B \<Longrightarrow> implements outcome cs ms (B, cs', ms')"
  by (auto simp: implements_def)

lemma book_ok_new: "book_ok (OrderBook_new s)"
  by (auto simp: book_ok_def OrderBook_new_def places_def side_places_def book_links_def links_def)

lemma filter_place:
  assumes "links h om od np P" "(buy, pr, p) \<in> P" "Pair buy ` set xs \<subseteq> P"
  shows "filter (\<lambda>x. x \<noteq> (pr, p)) xs = filter (\<lambda>x. snd x \<noteq> p) xs"
proof (rule filter_cong [OF refl])
  fix x assume "x \<in> set xs"
  then show "x \<noteq> (pr, p) \<longleftrightarrow> snd x \<noteq> p"
    using assms(3) links_inj [OF assms(1,2), of buy "fst x"] by (cases x) auto
qed

lemma view_without:
  assumes "links h om od np P" "om i = Some p" "h p = Some e" "Pair buy ` set xs \<subseteq> P"
  shows "map (\<lambda>(pr, q). resting_of (h(p := v)) (od(i := w)) pr q) (filter (\<lambda>x. snd x \<noteq> p) xs)
      = filter (\<lambda>r. r_id r \<noteq> i) (map (\<lambda>(pr, q). resting_of h od pr q) xs)"
  using assms(4)
proof (induction xs)
  case (Cons x xs)
  obtain pr q where x: "x = (pr, q)" by (cases x)
  from Cons.prems x have q: "(buy, pr, q) \<in> P" by auto
  obtain e0 d where e0: "h p = Some e0" "el_id e0 = i" "od i = Some d" and pl: "(d_side d = Buy, d_price d, p) \<in> P"
    by (rule links_place [OF assms(1,2)])
  with assms(3) have e: "el_id e = i" "(d_side d = Buy, d_price d, p) \<in> P" by simp_all
  have "q \<noteq> p \<Longrightarrow> resting_of (h(p := v)) (od(i := w)) pr q = resting_of h od pr q"
    using resting_of_other [OF assms(1) e(2) q assms(3)] e(1) by simp
  with Cons resting_id_iff [OF assms(1,2) q] show ?case by (simp add: x del: fun_upd_apply)
qed simp

lemma side_subset:
  "Pair True ` set (flat (bids b)) \<subseteq> places b" "Pair False ` set (flat (asks b)) \<subseteq> places b"
  by (auto simp: places_def side_places_def)

lemma getBook_places: "Pair (S = Buy) ` set (flat (getBook S b)) \<subseteq> places b"
  by (cases "S = Buy") (auto simp: places_def side_places_def getBook_def)

lemma places_side: "(S = Buy, pr, p) \<in> places b \<longleftrightarrow> (pr, p) \<in> set (flat (getBook S b))"
  by (cases "S = Buy") (auto simp: places_def getBook_def)

text \<open>Taking an order out of its level, whatever is then stored for its pointer and id.\<close>

definition taken_out :: "OrderBook \<Rightarrow> OrderId \<Rightarrow> ptr \<Rightarrow> Side \<Rightarrow> Price \<Rightarrow> levels \<Rightarrow> bool" where
  "taken_out b i p S pr m \<longleftrightarrow>
     levels_ok (side_lt S) m \<and> (S = Buy, pr, p) \<in> places b
   \<and> (\<forall>b'. getBook S b' = m \<longrightarrow> getBook (other_side S) b' = getBook (other_side S) b \<longrightarrow>
        places b' = places b - {(S = Buy, pr, p)} \<and> (\<forall>c. (c, p) \<notin> set (flat m)))
   \<and> (\<forall>b' v w. getBook S b' = m \<longrightarrow> getBook (other_side S) b' = getBook (other_side S) b \<longrightarrow>
        elems b' = (elems b)(p := v) \<longrightarrow> orderDetails b' = (orderDetails b)(i := w) \<longrightarrow>
        symbol b' = symbol b \<longrightarrow> abs_book b' = spec_remove i (abs_book b))"

lemma remove_step:
  assumes ok: "book_ok b" and i: "orderMap b i = Some p" and e: "elems b p = Some e"
    and d: "orderDetails b i = Some d" and S: "S = (if d_side d = Buy then Buy else Sell)"
  shows "\<exists>m. removeFromLevel S p (d_price d) b = Some (setBook S m b) \<and> taken_out b i p S (d_price d) m"
proof -
  have L: "links (elems b) (orderMap b) (orderDetails b) (nextPtr b) (places b)"
    using ok by (simp add: book_ok_def book_links_def)
  obtain e0 d0 where 0: "elems b p = Some e0" "el_id e0 = i" "orderDetails b i = Some d0"
    "(d_side d0 = Buy, d_price d0, p) \<in> places b"
    by (rule links_place [OF L i])
  then have pl: "(S = Buy, d_price d, p) \<in> places b" and ei: "el_id e = i"
    using d e by (cases "d_side d = Buy"; simp add: S)+
  have lok: "levels_ok (side_lt S) (getBook S b)"
    using ok unfolding book_ok_side [of _ S] by simp
  obtain m where m: "removeFromLevel S p (d_price d) b = Some (setBook S m b)" "levels_ok (side_lt S) m"
    "flat m = filter (\<lambda>x. x \<noteq> (d_price d, p)) (flat (getBook S b))"
    using removeFromLevel_Some [OF lok _ e] pl by (auto simp: places_side)
  have fm: "flat m = filter (\<lambda>x. snd x \<noteq> p) (flat (getBook S b))"
    using m(3) filter_place [OF L pl getBook_places] by simp
  have fo: "filter (\<lambda>x. snd x \<noteq> p) (flat (getBook (other_side S) b)) = flat (getBook (other_side S) b)"
  proof -
    have "snd x \<noteq> p" if "x \<in> set (flat (getBook (other_side S) b))" for x
      using that getBook_places [of "other_side S" b] links_inj [OF L pl, of "S \<noteq> Buy" "fst x"]
      by (cases x) (auto simp: other_side_def split: if_splits)
    then show ?thesis by (simp add: filter_id_conv)
  qed
  have pls: "places b' = places b - {(S = Buy, d_price d, p)} \<and> (\<forall>pr. (pr, p) \<notin> set (flat m))"
    if "getBook S b' = m" "getBook (other_side S) b' = getBook (other_side S) b" for b'
  proof
    show "places b' = places b - {(S = Buy, d_price d, p)}"
      using that by (cases "S = Buy") (auto simp: places_def side_places_def getBook_def other_side_def m(3))
  qed (simp add: fm)
  have "abs_book b' = spec_remove i (abs_book b)"
    if b': "getBook S b' = m" "getBook (other_side S) b' = getBook (other_side S) b"
      "elems b' = (elems b)(p := v)" "orderDetails b' = (orderDetails b)(i := w)" "symbol b' = symbol b" for b' v w
  proof (rule abs_book_eqI [where S = S])
    have "side_view S b' = filter (\<lambda>r. r_id r \<noteq> i) (side_view S b)"
      using view_without [OF L i e getBook_places, of v w S]
      by (simp add: side_view_def b' abs_side_def fm)
    then show "side_view S b' = (if S = Buy then s_bids (spec_remove i (abs_book b)) else s_asks (spec_remove i (abs_book b)))"
      by (simp add: spec_remove_def abs_book_def side_view_def getBook_def)
    have "side_view (other_side S) b' = filter (\<lambda>r. r_id r \<noteq> i) (side_view (other_side S) b)"
      using view_without [OF L i e getBook_places, of v w "other_side S"]
      by (simp add: side_view_def b' abs_side_def fo)
    then show "side_view (other_side S) b' = (if S = Buy then s_asks (spec_remove i (abs_book b)) else s_bids (spec_remove i (abs_book b)))"
      by (simp add: spec_remove_def abs_book_def side_view_def getBook_def other_side_def)
  qed (simp add: b' spec_remove_def abs_book_def)
  with m(2) pl pls have "taken_out b i p S (d_price d) m"
    unfolding taken_out_def by blast
  with m(1) show ?thesis by blast
qed

text \<open>Putting an allocated order into the level of its price.\<close>

lemma insert_step:
  assumes oks: "levels_ok (side_lt S) (getBook S b)" "levels_ok (side_lt (other_side S)) (getBook (other_side S) b)"
    and links: "book_links b (insert (S = Buy, pr, p) (places b))" and new: "(pr, p) \<notin> set (flat (getBook S b))"
    and S: "(d_side (the (orderDetails b (el_id e))) = Buy) = (S = Buy)" and e: "elems b p = Some e"
  obtains b' where "insertIntoLevel S p pr b = Some b'" "book_ok b'"
    "abs_book b' = spec_place (resting_of (elems b) (orderDetails b) pr p) (abs_book b)"
proof -
  obtain m where m: "insertIntoLevel S p pr b = Some (setBook S m b)" "levels_ok (side_lt S) m"
    "flat m = place_insert (side_lt S) (pr, p) (flat (getBook S b))"
    using insertIntoLevel_Some [OF oks(1) new e] by blast
  have "side_places (S = Buy) m \<union> side_places (S \<noteq> Buy) (getBook (other_side S) b) = insert (S = Buy, pr, p) (places b)"
    by (cases "S = Buy") (auto simp: places_def side_places_def getBook_def other_side_def m(3))
  then have ok: "book_ok (setBook S m b)"
    unfolding book_ok_side [of _ S] using m(2) oks(2) links by (simp add: book_simps)
  let ?r = "resting_of (elems b) (orderDetails b) pr p"
  have side: "side_view S (setBook S m b) = spec_insert (side_lt S) ?r (side_view S b)"
    unfolding side_view_def abs_side_def
    by (simp add: book_simps m(3) map_place_insert split: prod.splits)
  have other: "side_view (other_side S) (setBook S m b) = side_view (other_side S) b"
    by (simp add: side_view_def book_simps)
  have rs: "(r_side ?r = Buy) = (S = Buy)" using S e by (simp add: resting_of_def Let_def)
  have "abs_book (setBook S m b) = spec_place ?r (abs_book b)"
    by (rule abs_book_eqI [where S = S])
      (use side other rs in \<open>auto simp: spec_place_def abs_book_def book_simps side_view_def getBook_def
         other_side_def side_lt_def\<close>)
  with m(1) ok that show ?thesis by blast
qed

text \<open>What the two lookups at the start of a cancel or a modify find.\<close>

lemma found_order:
  assumes ok: "book_ok b" and i: "orderMap b i = Some p"
  obtains e d r where "elems b p = Some e" "el_id e = i" "orderDetails b i = Some d"
    "spec_find i (abs_book b) = Some r" "r = resting_of (elems b) (orderDetails b) (d_price d) p"
    "r_id r = i" "r_trader r = el_traderId e" "r_side r = d_side d" "r_price r = d_price d"
    "r_qty r = el_quantity e" "r_recorded r = d_quantity d"
proof -
  have L: "links (elems b) (orderMap b) (orderDetails b) (nextPtr b) (places b)"
    using ok by (simp add: book_ok_def book_links_def)
  obtain e d where "elems b p = Some e" "el_id e = i" "orderDetails b i = Some d"
    "(d_side d = Buy, d_price d, p) \<in> places b"
    by (rule links_place [OF L i])
  then show ?thesis
    using that [of e d "resting_of (elems b) (orderDetails b) (d_price d) p"] spec_find_abs [OF ok] i
    by (simp add: resting_of_def Let_def)
qed

lemma book_ok_sideI:
  assumes "levels_ok (side_lt S) (getBook S b)" "levels_ok (side_lt (other_side S)) (getBook (other_side S) b)"
    "book_links b (places b)" "S = Buy \<or> S = Sell"
  shows "book_ok b"
  using assms by (auto simp: book_ok_def getBook_def other_side_def side_lt_def)

lemma cancelOrder_implements:
  assumes "book_ok b"
  shows "implements (cancelOrder i t b cs ms) cs ms (spec_cancel i t (abs_book b))"
proof (cases "orderMap b i")
  case None
  with assms show ?thesis
    by (auto simp: implements_def cancelOrder_def spec_cancel_def spec_find_abs spec_reject_def)
next
  case (Some p)
  have L: "links (elems b) (orderMap b) (orderDetails b) (nextPtr b) (places b)"
    using assms by (simp add: book_ok_def book_links_def)
  obtain e d r where e: "elems b p = Some e" "el_id e = i" and d: "orderDetails b i = Some d"
    and r: "spec_find i (abs_book b) = Some r" "r_trader r = el_traderId e" "r_side r = d_side d"
      "r_price r = d_price d" "r_qty r = el_quantity e"
    by (rule found_order [OF assms Some]) blast
  show ?thesis
  proof (cases "el_traderId e = t")
    case False
    with Some e r assms show ?thesis
      by (auto simp: implements_def cancelOrder_def spec_cancel_def spec_reject_def)
  next
    case True
    define S where "S = (if d_side d = Buy then Buy else Sell)"
    from remove_step [OF assms Some e(1) d S_def] obtain m
      where m: "removeFromLevel S p (d_price d) b = Some (setBook S m b)" "taken_out b i p S (d_price d) m" by blast
    define b' where "b' = dropElement p i (setBook S m b)"
    have f: "getBook S b' = m" "getBook (other_side S) b' = getBook (other_side S) b"
      "elems b' = (elems b)(p := None)" "orderDetails b' = (orderDetails b)(i := None)"
      "orderMap b' = (orderMap b)(i := None)" "nextPtr b' = nextPtr b" "symbol b' = symbol b"
      by (auto simp: b'_def dropElement_def book_simps getBook_def setBook_def other_side_def)
    have pl: "(S = Buy, d_price d, p) \<in> places b" "places b' = places b - {(S = Buy, d_price d, p)}"
      using m(2) f(1,2) unfolding taken_out_def by blast+
    have "book_links b' (places b')"
      unfolding book_links_def f(3-6) pl(2) using links_drop [OF L pl(1) e(1)] e(2) by simp
    then have "book_ok b'"
      by (rule book_ok_sideI [rotated 2, where S = S])
        (use m(2) f(1,2) assms in \<open>auto simp: taken_out_def S_def book_ok_side [of b S]\<close>)
    moreover have "abs_book b' = spec_remove i (abs_book b)"
      using m(2) f unfolding taken_out_def by blast
    ultimately show ?thesis
      using Some e d True r m(1)
      by (simp add: spec_cancel_def cancelOrder_def implements_def b'_def S_def [symmetric])
  qed
qed

text \<open>A reduction at the same price: the element and its details change, nothing moves.\<close>

lemma shrink_step:
  assumes ok: "book_ok b" and i: "orderMap b i = Some p" and e: "elems b p = Some e" and d: "orderDetails b i = Some d"
    and b': "b' = b\<lparr>elems := (elems b)(p \<mapsto> e\<lparr>el_quantity := q\<rparr>), orderDetails := (orderDetails b)(i \<mapsto> d\<lparr>d_quantity := q\<rparr>)\<rparr>"
  shows "book_ok b' \<and> abs_book b' = spec_shrink i q (abs_book b)"
proof -
  have L: "links (elems b) (orderMap b) (orderDetails b) (nextPtr b) (places b)"
    using ok by (simp add: book_ok_def book_links_def)
  obtain e0 d0 where 0: "elems b p = Some e0" "el_id e0 = i" "orderDetails b i = Some d0" and pl: "(d_side d0 = Buy, d_price d0, p) \<in> places b"
    by (rule links_place [OF L i])
  with e d have ei: "el_id e = i" and pl: "(d_side d = Buy, d_price d, p) \<in> places b" by simp_all
  have pb: "places b' = places b" by (simp add: b' places_def)
  have "links (elems b) (orderMap b) ((orderDetails b)(i \<mapsto> d\<lparr>d_quantity := q\<rparr>)) (nextPtr b) (places b)"
    using links_move [OF L pl e, of "d\<lparr>d_quantity := q\<rparr>"] ei pl by (simp add: insert_absorb)
  from links_element_update [OF this e, of "e\<lparr>el_quantity := q\<rparr>"] have "book_links b' (places b')"
    by (simp add: book_links_def b' pb [unfolded b'])
  moreover have "resting_of (elems b') (orderDetails b') pr x = set_qty i q (resting_of (elems b) (orderDetails b) pr x)"
    if "(buy, pr, x) \<in> places b" for buy pr x
  proof (cases "x = p")
    case True
    then show ?thesis using e d ei by (simp add: resting_of_def set_qty_def b' Let_def)
  next
    case False
    with resting_of_other [OF L pl that e False, of "Some (e\<lparr>el_quantity := q\<rparr>)" "Some (d\<lparr>d_quantity := q\<rparr>)"]
      resting_id_iff [OF L i that] show ?thesis by (simp add: b' set_qty_def ei)
  qed
  then have "abs_side (elems b') (orderDetails b') m = map (set_qty i q) (abs_side (elems b) (orderDetails b) m)"
    if "Pair buy ` set (flat m) \<subseteq> places b" for buy m
    using that by (force simp: abs_side_def)
  from this [OF side_subset(1)] this [OF side_subset(2)]
  have "abs_book b' = spec_shrink i q (abs_book b)"
    by (simp add: abs_book_def spec_shrink_def b')
  ultimately show ?thesis
    using ok by (simp add: book_ok_def b')
qed

text \<open>Taking an order out of its level and putting it, changed, into the level of its new price.\<close>

lemma move_step:
  assumes ok: "book_ok b" and i: "orderMap b i = Some p" and e: "elems b p = Some e" "el_id e = i" and d: "orderDetails b i = Some d"
    and S: "S = (if d_side d = Buy then Buy else Sell)"
    and d': "d' = d\<lparr>d_price := price, d_quantity := q\<rparr>"
  shows "\<exists>b1 b3. removeFromLevel S p (d_price d) b = Some b1
    \<and> insertIntoLevel S p price (b1\<lparr>elems := (elems b1)(p \<mapsto> e\<lparr>el_quantity := q\<rparr>), orderDetails := (orderDetails b1)(i \<mapsto> d')\<rparr>) = Some b3
    \<and> elems b1 = elems b \<and> orderDetails b1 = orderDetails b \<and> symbol b1 = symbol b \<and> book_ok b3
    \<and> abs_book b3 = spec_place ((resting_of (elems b) (orderDetails b) (d_price d) p)\<lparr>r_price := price, r_qty := q, r_recorded := q\<rparr>)
        (spec_remove i (abs_book b))"
proof -
  have L: "links (elems b) (orderMap b) (orderDetails b) (nextPtr b) (places b)"
    using ok by (simp add: book_ok_def book_links_def)
  from remove_step [OF ok i e(1) d S] obtain m
    where m: "removeFromLevel S p (d_price d) b = Some (setBook S m b)" "taken_out b i p S (d_price d) m" by blast
  define e' where "e' = e\<lparr>el_quantity := q\<rparr>"
  define b2 where "b2 = (setBook S m b)\<lparr>elems := (elems (setBook S m b))(p \<mapsto> e'),
    orderDetails := (orderDetails (setBook S m b))(i \<mapsto> d')\<rparr>"
  have f: "getBook S b2 = m" "getBook (other_side S) b2 = getBook (other_side S) b"
    "elems b2 = (elems b)(p := Some e')" "orderDetails b2 = (orderDetails b)(i := Some d')"
    "orderMap b2 = orderMap b" "nextPtr b2 = nextPtr b" "symbol b2 = symbol b"
    by (auto simp: b2_def getBook_def setBook_def other_side_def)
  have sb: "(d_side d = Buy) = (S = Buy)" by (simp add: S)
  have t: "levels_ok (side_lt S) m" "(S = Buy, d_price d, p) \<in> places b"
    "places b2 = places b - {(S = Buy, d_price d, p)}" "(price, p) \<notin> set (flat m)"
    "abs_book b2 = spec_remove i (abs_book b)"
    using m(2) f unfolding taken_out_def by blast+
  have "links (elems b) (orderMap b) ((orderDetails b)(i \<mapsto> d')) (nextPtr b) (insert (S = Buy, price, p) (places b2))"
    using links_move [OF L t(2) e(1), of d'] e(2) t(3) sb by (simp add: d')
  from links_element_update [OF this e(1), of e'] have "book_links b2 (insert (S = Buy, price, p) (places b2))"
    by (simp add: book_links_def f e'_def)
  moreover have "levels_ok (side_lt (other_side S)) (getBook (other_side S) b)" using ok by (simp add: book_ok_side [of b S])
  ultimately obtain b3 where b3: "insertIntoLevel S p price b2 = Some b3" "book_ok b3"
    "abs_book b3 = spec_place (resting_of (elems b2) (orderDetails b2) price p) (abs_book b2)"
    using insert_step [of S b2 price p e'] t(1,4) f e(2) sb by (auto simp: d' e'_def)
  have "resting_of (elems b2) (orderDetails b2) price p =
      (resting_of (elems b) (orderDetails b) (d_price d) p)\<lparr>r_price := price, r_qty := q, r_recorded := q\<rparr>"
    using e d by (simp add: resting_of_def f e'_def d' Let_def)
  with b3 t(5) m(1) show ?thesis
    by (intro exI [of _ "setBook S m b"] exI [of _ b3]) (simp add: b2_def e'_def book_simps)
qed

lemma modifyOrder_implements:
  assumes "book_ok b"
  shows "implements (modifyOrder i t price q b cs ms) cs ms (spec_modify i t price q (abs_book b))"
proof (cases "orderMap b i")
  case None
  with assms show ?thesis
    by (auto simp: implements_def modifyOrder_def spec_modify_def spec_find_abs spec_reject_def)
next
  case (Some p)
  obtain e d r where e: "elems b p = Some e" "el_id e = i" and d: "orderDetails b i = Some d"
    and r: "spec_find i (abs_book b) = Some r" "r = resting_of (elems b) (orderDetails b) (d_price d) p"
      "r_trader r = el_traderId e" "r_side r = d_side d"
      "r_price r = d_price d" "r_recorded r = d_quantity d"
    by (rule found_order [OF assms Some]) blast
  consider (foreign) "el_traderId e \<noteq> t" | (shrink) "el_traderId e = t" "d_price d = price \<and> q < d_quantity d"
    | (move) "el_traderId e = t" "(d_price d = price \<and> q < d_quantity d) = False" by blast
  then show ?thesis
  proof cases
    case foreign
    with Some e r assms show ?thesis
      by (auto simp: implements_def modifyOrder_def spec_modify_def spec_reject_def)
  next
    case shrink
    with shrink_step [OF assms Some e(1) d refl, of q] show ?thesis
      using Some e d r by (simp add: implements_def modifyOrder_def spec_modify_def)
  next
    case move
    define S where "S = (if d_side d = Buy then Buy else Sell)"
    from move_step [OF assms Some e d S_def refl, of price q] obtain b1 b3 where b3:
      "removeFromLevel S p (d_price d) b = Some b1"
      "insertIntoLevel S p price (b1\<lparr>elems := (elems b1)(p \<mapsto> e\<lparr>el_quantity := q\<rparr>),
         orderDetails := (orderDetails b1)(i \<mapsto> d\<lparr>d_price := price, d_quantity := q\<rparr>)\<rparr>) = Some b3"
      "elems b1 = elems b" "orderDetails b1 = orderDetails b" "symbol b1 = symbol b" "book_ok b3"
      "abs_book b3 = spec_place (r\<lparr>r_price := price, r_qty := q, r_recorded := q\<rparr>) (spec_remove i (abs_book b))"
      unfolding r(2) by blast
    have "modifyOrder i t price q b cs ms =
      Some (b3, cs @ [OrderConfirm ModifyAck i 0 t (symbol b) 0 0 UnknownOrder],
        ms @ [MdUpdate (symbol b) i (d_side d) price q MdModify])"
      using Some e d move(1) b3(1-5) by (simp add: modifyOrder_def move(2) S_def [symmetric])
    with b3(6,7) show ?thesis
      using move(1) r(1,3-6) by (simp add: implements_def spec_modify_def move(2))
  qed
qed

text \<open>Allocating an element for a new id and putting it into its level.\<close>

lemma alloc_step:
  assumes ok: "book_ok b" and new: "el_id e \<notin> dom (orderMap b)" and T: "T = (if d_side d = Buy then Buy else Sell)"
    and b2: "b2 = b\<lparr>elems := (elems b)(nextPtr b \<mapsto> e), nextPtr := Suc (nextPtr b),
      orderMap := (orderMap b)(el_id e \<mapsto> nextPtr b), orderDetails := (orderDetails b)(el_id e \<mapsto> d)\<rparr>"
  shows "\<exists>b3. insertIntoLevel T (nextPtr b) (d_price d) b2 = Some b3 \<and> book_ok b3
    \<and> abs_book b3 = spec_place \<lparr>r_id = el_id e, r_trader = el_traderId e, r_side = d_side d, r_price = d_price d,
        r_qty = el_quantity e, r_recorded = d_quantity d\<rparr> (abs_book b)"
proof -
  have L: "links (elems b) (orderMap b) (orderDetails b) (nextPtr b) (places b)"
    using ok by (simp add: book_ok_def book_links_def)
  have fresh: "(c, nextPtr b) \<notin> set (flat (getBook U b))" for c U
    using places_side [of U c "nextPtr b" b] links_dom [OF L, of "nextPtr b"] links_bound [OF L, of "nextPtr b"] by blast
  have pb: "places b2 = places b" "getBook U b2 = getBook U b" for U by (simp_all add: b2 places_def getBook_def)
  have sb: "(d_side d = Buy) = (T = Buy)" by (simp add: T)
  have f: "elems b2 = (elems b)(nextPtr b \<mapsto> e)" "orderMap b2 = (orderMap b)(el_id e \<mapsto> nextPtr b)"
    "orderDetails b2 = (orderDetails b)(el_id e \<mapsto> d)" "nextPtr b2 = Suc (nextPtr b)"
    by (simp_all add: b2)
  have lk: "book_links b2 (insert (T = Buy, d_price d, nextPtr b) (places b2))"
    using links_alloc [OF L new sb] by (simp only: book_links_def pb f)
  have oks: "levels_ok (side_lt T) (getBook T b2)" "levels_ok (side_lt (other_side T)) (getBook (other_side T) b2)"
    using ok by (simp_all add: book_ok_side [of b T] pb)
  have at: "elems b2 (nextPtr b) = Some e" "(d_side (the (orderDetails b2 (el_id e))) = Buy) = (T = Buy)"
    using sb by (simp_all add: f)
  obtain b3 where b3: "insertIntoLevel T (nextPtr b) (d_price d) b2 = Some b3" "book_ok b3"
    "abs_book b3 = spec_place (resting_of (elems b2) (orderDetails b2) (d_price d) (nextPtr b)) (abs_book b2)"
    by (rule insert_step [OF oks lk fresh [folded pb(2)] at(2,1)])
  have "resting_of (elems b2) (orderDetails b2) pr y = resting_of (elems b) (orderDetails b) pr y"
    if pl: "(buy, pr, y) \<in> places b" for buy pr y
  proof -
    obtain g h where g: "elems b y = Some g" "orderMap b (el_id g) = Some y" "orderDetails b (el_id g) = Some h"
      "d_price h = pr" "d_side h = Buy \<longleftrightarrow> buy"
      by (rule links_lookup [OF L pl])
    moreover from g(1) links_bound [OF L, of y] have "y \<noteq> nextPtr b" by auto
    moreover from g(2) new have "el_id g \<noteq> el_id e" by auto
    ultimately show ?thesis by (simp add: resting_of_def f)
  qed
  then have "abs_side (elems b2) (orderDetails b2) m = abs_side (elems b) (orderDetails b) m"
    if "Pair buy ` set (flat m) \<subseteq> places b" for buy m
    using that by (intro abs_side_cong) blast
  from this [OF side_subset(1)] this [OF side_subset(2)] have "abs_book b2 = abs_book b"
    by (simp add: abs_book_def b2)
  with b3 show ?thesis by (simp add: resting_of_def f)
qed

lemma addOrder_implements:
  assumes ok: "book_ok b" and new: "m_orderId req \<notin> dom (orderMap b)"
  shows "implements (addOrder req b cs ms) cs ms (spec_add req (abs_book b))"
proof -
  define S where "S = passive_side req"
  define x where "x = \<lparr>ms_book = b, remainingQty = m_quantity req,
    confirmsOut = cs @ [OrderConfirm NewAck (m_orderId req) (m_clientOrderId req) (m_traderId req) (symbol b) 0 0 UnknownOrder],
    mdOut = ms @ [MdUpdate (symbol b) (m_orderId req) (m_side req) (m_price req) (m_quantity req) MdNew]\<rparr>"
  have "book_ok (ms_book x)" using ok by (simp add: x_def)
  from matchAgainst_sim [OF this S_def] obtain x' evs
    where run: "matchAgainst S req x = Some x'" and sim: "match_sim S req x evs x'" by blast
  define b1 where "b1 = ms_book x'"
  have out: "confirmsOut x' = confirmsOut x @ concat (map (event_confirms (symbol b) req) evs)"
    "mdOut x' = mdOut x @ concat (map (event_mds (symbol b) req) evs)" "symbol b1 = symbol b"
    using sim by (auto simp: match_sim_def emits_def x_def b1_def)
  have b1: "book_ok b1" "side_view (other_side S) b1 = side_view (other_side S) b"
    "dom (orderMap b1) \<subseteq> dom (orderMap b)"
    using sim by (auto simp: match_sim_def x_def b1_def)
  have match: "spec_match req (m_quantity req) (side_view S b) = (side_view S b1, remainingQty x', evs)"
    using sim by (simp add: match_sim_def x_def b1_def)
  let ?B = "abs_book b"
  have abs1: "abs_book b1 = (if m_side req = Buy then ?B\<lparr>s_asks := side_view S b1\<rparr> else ?B\<lparr>s_bids := side_view S b1\<rparr>)"
    using b1(2) out(3)
    by (auto simp: abs_book_def S_def passive_side_def side_view_def getBook_def other_side_def)
  have pv: "(if m_side req = Buy then s_asks ?B else s_bids ?B) = side_view S b"
    by (auto simp: abs_book_def S_def passive_side_def side_view_def getBook_def)
  show ?thesis
  proof (cases "remainingQty x' = 0")
    case True
    then show ?thesis
      using run b1(1) abs1 out match pv
      by (simp add: implements_def addOrder_def spec_add_def x_def S_def passive_side_def b1_def [symmetric])
  next
    case False
    have new1: "el_id \<lparr>el_id = m_orderId req, el_traderId = m_traderId req, el_quantity = remainingQty x'\<rparr> \<notin> dom (orderMap b1)"
      using new b1(3) by auto
    from alloc_step [OF b1(1) new1 refl refl, of "\<lparr>d_side = m_side req, d_price = m_price req, d_quantity = remainingQty x'\<rparr>"]
    show ?thesis
      using run out match pv False abs1
      by (auto simp: implements_def addOrder_def spec_add_def x_def S_def passive_side_def Let_def b1_def [symmetric])
  qed
qed

end
