(* ===== verification/Matching_Engine.thy ===== *)
theory Matching_Engine
  imports Book_Refinement
begin

text \<open>
  \<^verbatim>\<open>matching/include/matching_engine.hpp\<close> and \<^verbatim>\<open>matching/src/matching_engine.cpp\<close>: the
  router from symbols to order books. It numbers new orders with a 64-bit counter that wraps;
  that no two live orders share an id until it wraps is what the books rely on.

  The locale \<open>book_contract\<close> states what the engine needs of a book: with a fresh id every
  operation returns, appends to the output vectors, keeps the book's invariant, and the ids it
  leaves in the book are old ones or the new one. It is interpreted on the operations of
  \<open>Order_Book\<close>; the engine's lemmas use only that interpretation.
\<close>

section \<open>State and operations\<close>

record MatchingEngine =
  books :: "SymbolId \<rightharpoonup> OrderBook"
  nextOrderId :: OrderId

definition MatchingEngine_new :: MatchingEngine where
  "MatchingEngine_new = \<lparr>books = Map.empty, nextOrderId = 1\<rparr>"

fun engine_initialize :: "SymbolId list \<Rightarrow> MatchingEngine \<Rightarrow> MatchingEngine" where
  "engine_initialize [] g = g"
| "engine_initialize (s # symbols) g =
     engine_initialize symbols (g\<lparr>books := (books g)(s \<mapsto> OrderBook_new s)\<rparr>)"

type_synonym engine_result = "(MatchingEngine \<times> OrderConfirm list \<times> MdUpdate list) option"

definition onOrder ::
  "OrderRequest \<Rightarrow> MatchingEngine \<Rightarrow> OrderConfirm list \<Rightarrow> MdUpdate list \<Rightarrow> engine_result" where
  "onOrder order g confirms mds = do {
     let order' = order\<lparr>m_orderId := nextOrderId g\<rparr>;
     let g' = g\<lparr>nextOrderId := nextOrderId g + 1\<rparr>;
     case books g (m_symbolId order') of
       None \<Rightarrow> Some (g', confirms, mds)
     | Some b \<Rightarrow> do {
         (b', confirms', mds') \<leftarrow> addOrder order' b confirms mds;
         Some (g'\<lparr>books := (books g)(m_symbolId order' \<mapsto> b')\<rparr>, confirms', mds')
       }
   }"

definition onCancel ::
  "OrderId \<Rightarrow> SymbolId \<Rightarrow> TraderId \<Rightarrow> MatchingEngine \<Rightarrow> OrderConfirm list \<Rightarrow> MdUpdate list
    \<Rightarrow> engine_result" where
  "onCancel orderId symbolId traderId g confirms mds =
     (case books g symbolId of
        None \<Rightarrow> Some (g, confirms, mds)
      | Some b \<Rightarrow> do {
          (b', confirms', mds') \<leftarrow> cancelOrder orderId traderId b confirms mds;
          Some (g\<lparr>books := (books g)(symbolId \<mapsto> b')\<rparr>, confirms', mds')
        })"

definition onModify ::
  "OrderId \<Rightarrow> SymbolId \<Rightarrow> TraderId \<Rightarrow> Price \<Rightarrow> Quantity \<Rightarrow> MatchingEngine \<Rightarrow> OrderConfirm list
    \<Rightarrow> MdUpdate list \<Rightarrow> engine_result" where
  "onModify orderId symbolId traderId newPrice newQty g confirms mds =
     (case books g symbolId of
        None \<Rightarrow> Some (g, confirms, mds)
      | Some b \<Rightarrow> do {
          (b', confirms', mds') \<leftarrow> modifyOrder orderId traderId newPrice newQty b confirms mds;
          Some (g\<lparr>books := (books g)(symbolId \<mapsto> b')\<rparr>, confirms', mds')
        })"

definition engine_getBestBidPrice :: "SymbolId \<Rightarrow> MatchingEngine \<Rightarrow> Price" where
  "engine_getBestBidPrice s g = (case books g s of None \<Rightarrow> 0 | Some b \<Rightarrow> getBestBidPrice b)"

definition engine_getBestBidQty :: "SymbolId \<Rightarrow> MatchingEngine \<Rightarrow> Quantity" where
  "engine_getBestBidQty s g = (case books g s of None \<Rightarrow> 0 | Some b \<Rightarrow> getBestBidQty b)"

definition engine_getBestAskPrice :: "SymbolId \<Rightarrow> MatchingEngine \<Rightarrow> Price" where
  "engine_getBestAskPrice s g = (case books g s of None \<Rightarrow> 0 | Some b \<Rightarrow> getBestAskPrice b)"

definition engine_getBestAskQty :: "SymbolId \<Rightarrow> MatchingEngine \<Rightarrow> Quantity" where
  "engine_getBestAskQty s g = (case books g s of None \<Rightarrow> 0 | Some b \<Rightarrow> getBestAskQty b)"

section \<open>Invariant\<close>

text \<open>Every book is well formed, is filed under its own symbol, and holds only ids that the
  counter has already passed.\<close>

definition books_inv ::
  "('b \<Rightarrow> bool) \<Rightarrow> ('b \<Rightarrow> OrderId set) \<Rightarrow> ('b \<Rightarrow> SymbolId) \<Rightarrow> OrderId \<Rightarrow> (SymbolId \<rightharpoonup> 'b) \<Rightarrow> bool" where
  "books_inv ok ids sy next bs \<longleftrightarrow>
     (\<forall>s b. bs s = Some b \<longrightarrow> ok b \<and> sy b = s \<and> (\<forall>i\<in>ids b. i < next))"

definition book_ids :: "OrderBook \<Rightarrow> OrderId set" where
  "book_ids b = dom (orderMap b)"

definition engine_ok :: "MatchingEngine \<Rightarrow> bool" where
  "engine_ok g \<longleftrightarrow> books_inv book_ok book_ids symbol (nextOrderId g) (books g)"

section \<open>Contract of a book\<close>

locale book_contract =
  fixes add :: "OrderRequest \<Rightarrow> 'b \<Rightarrow> OrderConfirm list \<Rightarrow> MdUpdate list \<Rightarrow> ('b \<times> OrderConfirm list \<times> MdUpdate list) option"
    and cancel :: "OrderId \<Rightarrow> TraderId \<Rightarrow> 'b \<Rightarrow> OrderConfirm list \<Rightarrow> MdUpdate list \<Rightarrow> ('b \<times> OrderConfirm list \<times> MdUpdate list) option"
    and modify :: "OrderId \<Rightarrow> TraderId \<Rightarrow> Price \<Rightarrow> Quantity \<Rightarrow> 'b \<Rightarrow> OrderConfirm list \<Rightarrow> MdUpdate list \<Rightarrow> ('b \<times> OrderConfirm list \<times> MdUpdate list) option"
    and ok :: "'b \<Rightarrow> bool" and ids :: "'b \<Rightarrow> OrderId set" and sy :: "'b \<Rightarrow> SymbolId"
  assumes add_total: "ok b \<Longrightarrow> m_orderId req \<notin> ids b \<Longrightarrow>
      \<exists>b' cs' ms'. add req b cs ms = Some (b', cs @ cs', ms @ ms') \<and> ok b' \<and> sy b' = sy b
        \<and> ids b' \<subseteq> insert (m_orderId req) (ids b)"
    and cancel_total: "ok b \<Longrightarrow>
      \<exists>b' cs' ms'. cancel i t b cs ms = Some (b', cs @ cs', ms @ ms') \<and> ok b' \<and> sy b' = sy b \<and> ids b' \<subseteq> ids b"
    and modify_total: "ok b \<Longrightarrow>
      \<exists>b' cs' ms'. modify i t p q b cs ms = Some (b', cs @ cs', ms @ ms') \<and> ok b' \<and> sy b' = sy b \<and> ids b' \<subseteq> ids b"
begin

lemma inv_update:
  assumes "books_inv ok ids sy next bs" "bs s = Some b" "ok b'" "sy b' = sy b" "\<forall>i\<in>ids b'. i < next'" "next \<le> next'"
  shows "books_inv ok ids sy next' (bs(s \<mapsto> b'))"
  using assms unfolding books_inv_def by (auto intro: less_le_trans)

lemma fresh_id: "books_inv ok ids sy next bs \<Longrightarrow> bs s = Some b \<Longrightarrow> next \<notin> ids b"
  by (auto simp: books_inv_def)

lemma add_keeps:
  assumes inv: "books_inv ok ids sy next bs" and b: "bs s = Some b" and req: "m_orderId req = next" and "next < next'"
  shows "\<exists>b' cs' ms'. add req b cs ms = Some (b', cs @ cs', ms @ ms') \<and> books_inv ok ids sy next' (bs(s \<mapsto> b'))"
proof -
  from inv b have "ok b" and lt: "\<forall>i\<in>ids b. i < next" by (auto simp: books_inv_def)
  with add_total [of b req cs ms] fresh_id [OF inv b] req obtain b' cs' ms'
    where "add req b cs ms = Some (b', cs @ cs', ms @ ms')" "ok b'" "sy b' = sy b" "ids b' \<subseteq> insert next (ids b)" by auto
  moreover have "\<forall>i\<in>ids b'. i < next'"
    using calculation(4) lt \<open>next < next'\<close> by (auto dest!: subsetD intro: less_trans)
  ultimately show ?thesis using inv_update [OF inv b] \<open>next < next'\<close> by auto
qed

lemma cancel_keeps:
  assumes inv: "books_inv ok ids sy next bs" and b: "bs s = Some b"
  shows "\<exists>b' cs' ms'. cancel i t b cs ms = Some (b', cs @ cs', ms @ ms') \<and> books_inv ok ids sy next (bs(s \<mapsto> b'))"
proof -
  from inv b have "ok b" and lt: "\<forall>i\<in>ids b. i < next" by (auto simp: books_inv_def)
  with cancel_total [of b i t cs ms] obtain b' cs' ms'
    where "cancel i t b cs ms = Some (b', cs @ cs', ms @ ms')" "ok b'" "sy b' = sy b" "ids b' \<subseteq> ids b" by auto
  with lt inv_update [OF inv b] show ?thesis by blast
qed

lemma modify_keeps:
  assumes inv: "books_inv ok ids sy next bs" and b: "bs s = Some b"
  shows "\<exists>b' cs' ms'. modify i t p q b cs ms = Some (b', cs @ cs', ms @ ms') \<and> books_inv ok ids sy next (bs(s \<mapsto> b'))"
proof -
  from inv b have "ok b" and lt: "\<forall>i\<in>ids b. i < next" by (auto simp: books_inv_def)
  with modify_total [of b i t p q cs ms] obtain b' cs' ms'
    where "modify i t p q b cs ms = Some (b', cs @ cs', ms @ ms')" "ok b'" "sy b' = sy b" "ids b' \<subseteq> ids b" by auto
  with lt inv_update [OF inv b] show ?thesis by blast
qed

end

section \<open>The order book meets the contract\<close>

lemma spec_place_ids: "r_id ` set (spec_orders (spec_place r B)) = insert (r_id r) (r_id ` set (spec_orders B))"
  by (auto simp: spec_place_def spec_orders_def)

lemma spec_remove_ids: "r_id ` set (spec_orders (spec_remove i B)) \<subseteq> r_id ` set (spec_orders B)"
  by (auto simp: spec_remove_def spec_orders_def)

lemma spec_shrink_ids: "r_id ` set (spec_orders (spec_shrink i q B)) = r_id ` set (spec_orders B)"
proof -
  have "r_id \<circ> set_qty i q = r_id" by (auto simp: set_qty_def)
  then show ?thesis by (simp add: spec_shrink_def spec_orders_def image_Un image_comp)
qed

lemma spec_find_id: "spec_find i B = Some r \<Longrightarrow> r \<in> set (spec_orders B) \<and> r_id r = i"
  by (auto simp: spec_find_def find_Some_iff)

lemma spec_match_ids:
  assumes "spec_match req rem rs = (rs', rem', evs)"
  shows "r_id ` set rs' \<subseteq> r_id ` set rs"
proof -
  from spec_match_keys [OF assms] obtain n where "map r_id rs' = drop n (map r_id rs)" by blast
  then have "set (map r_id rs') \<subseteq> set (map r_id rs)" by (metis set_drop_subset)
  then show ?thesis by simp
qed

lemma spec_add_ids:
  "r_id ` set (spec_orders (fst (spec_add req B))) \<subseteq> insert (m_orderId req) (r_id ` set (spec_orders B))"
proof -
  obtain rs rem evs where m: "spec_match req (m_quantity req) (if m_side req = Buy then s_asks B else s_bids B) = (rs, rem, evs)"
    by (cases "spec_match req (m_quantity req) (if m_side req = Buy then s_asks B else s_bids B)")
  define B1 where "B1 = (if m_side req = Buy then B\<lparr>s_asks := rs\<rparr> else B\<lparr>s_bids := rs\<rparr>)"
  have "r_id ` set (spec_orders B1) \<subseteq> r_id ` set (spec_orders B)"
    using spec_match_ids [OF m] by (auto simp: B1_def spec_orders_def)
  then show ?thesis
    by (auto simp: spec_add_def m B1_def [symmetric] Let_def spec_place_ids)
qed

lemma spec_cancel_ids: "r_id ` set (spec_orders (fst (spec_cancel i t B))) \<subseteq> r_id ` set (spec_orders B)"
  using spec_remove_ids by (auto simp: spec_cancel_def spec_reject_def split: option.splits)

lemma spec_modify_ids: "r_id ` set (spec_orders (fst (spec_modify i t p q B))) \<subseteq> r_id ` set (spec_orders B)"
proof (cases "spec_find i B")
  case (Some r)
  with spec_find_id have "i \<in> r_id ` set (spec_orders B)" "r_id r = i" by blast+
  with Some show ?thesis
    using spec_remove_ids [of i B]
    by (auto simp: spec_modify_def spec_reject_def spec_place_ids spec_shrink_ids simp del: image_iff)
qed (simp add: spec_modify_def spec_reject_def)

lemma spec_symbols:
  "s_symbol (fst (spec_add req B)) = s_symbol B" "s_symbol (fst (spec_cancel i t B)) = s_symbol B"
  "s_symbol (fst (spec_modify i t p q B)) = s_symbol B"
  by (auto simp: spec_add_def spec_cancel_def spec_modify_def spec_reject_def spec_place_def spec_remove_def
      spec_shrink_def Let_def split: prod.splits option.splits)

text \<open>What an implemented outcome says about ids and symbol.\<close>

lemma implements_total:
  assumes "implements out cs ms R" "s_symbol (fst R) = symbol b" "r_id ` set (spec_orders (fst R)) \<subseteq> I"
  shows "\<exists>b' cs' ms'. out = Some (b', cs @ cs', ms @ ms') \<and> book_ok b' \<and> symbol b' = symbol b \<and> book_ids b' \<subseteq> I"
proof -
  from assms(1) obtain b' where b': "out = Some (b', cs @ fst (snd R), ms @ snd (snd R))" "book_ok b'" "abs_book b' = fst R"
    by (auto simp: implements_def split: prod.splits)
  then have "symbol b' = symbol b" "book_ids b' \<subseteq> I"
    using assms(2,3) orderMap_dom [OF b'(2)] s_symbol_abs [of b'] by (auto simp: book_ids_def)
  with b' show ?thesis by blast
qed

interpretation ob: book_contract addOrder cancelOrder modifyOrder book_ok book_ids symbol
proof unfold_locales
  fix b cs ms and req :: OrderRequest
  assume ok: "book_ok b" and "m_orderId req \<notin> book_ids b"
  then have new: "m_orderId req \<notin> dom (orderMap b)" by (simp add: book_ids_def)
  show "\<exists>b' cs' ms'. addOrder req b cs ms = Some (b', cs @ cs', ms @ ms') \<and> book_ok b' \<and> symbol b' = symbol b
      \<and> book_ids b' \<subseteq> insert (m_orderId req) (book_ids b)"
    by (rule implements_total [OF addOrder_implements [OF ok new]])
      (simp_all add: spec_symbols book_ids_def orderMap_dom [OF ok] spec_add_ids)
next
  fix b i t cs ms
  assume ok: "book_ok b"
  show "\<exists>b' cs' ms'. cancelOrder i t b cs ms = Some (b', cs @ cs', ms @ ms') \<and> book_ok b' \<and> symbol b' = symbol b \<and> book_ids b' \<subseteq> book_ids b"
    by (rule implements_total [OF cancelOrder_implements [OF ok]])
      (simp_all add: spec_symbols book_ids_def orderMap_dom [OF ok] spec_cancel_ids)
next
  fix b i t p q cs ms
  assume ok: "book_ok b"
  show "\<exists>b' cs' ms'. modifyOrder i t p q b cs ms = Some (b', cs @ cs', ms @ ms') \<and> book_ok b' \<and> symbol b' = symbol b \<and> book_ids b' \<subseteq> book_ids b"
    by (rule implements_total [OF modifyOrder_implements [OF ok]])
      (simp_all add: spec_symbols book_ids_def orderMap_dom [OF ok] spec_modify_ids)
qed

section \<open>Lemmas of the engine\<close>

lemma next_id_less: "n \<noteq> - 1 \<Longrightarrow> n < n + (1 :: OrderId)"
  by (meson inc_less_eq_triv_imp linorder_not_le)

lemma engine_ok_new: "engine_ok (engine_initialize symbols MatchingEngine_new)"
proof -
  have one: "engine_ok (g\<lparr>books := (books g)(s \<mapsto> OrderBook_new s)\<rparr>)" if "engine_ok g" for g s
  proof -
    have "symbol (OrderBook_new s) = s" "book_ids (OrderBook_new s) = {}"
      by (simp_all add: OrderBook_new_def book_ids_def)
    then have "book_ok b \<and> symbol b = s' \<and> (\<forall>i\<in>book_ids b. i < nextOrderId g)"
      if "((books g)(s \<mapsto> OrderBook_new s)) s' = Some b" for s' b
      using that book_ok_new [of s] \<open>engine_ok g\<close> [unfolded engine_ok_def books_inv_def, rule_format, of s' b]
      by (cases "s' = s") auto
    moreover have "books (g\<lparr>books := m\<rparr>) = m" "nextOrderId (g\<lparr>books := m\<rparr>) = nextOrderId g" for m
      by simp_all
    ultimately show ?thesis unfolding engine_ok_def books_inv_def by metis
  qed
  have "engine_ok g \<Longrightarrow> engine_ok (engine_initialize symbols g)" for g
  proof (induction symbols arbitrary: g)
    case (Cons s symbols)
    show ?case unfolding engine_initialize.simps by (rule Cons.IH, rule one, rule Cons.prems)
  qed simp
  moreover have "engine_ok MatchingEngine_new"
    by (simp add: engine_ok_def MatchingEngine_new_def books_inv_def)
  ultimately show ?thesis by blast
qed

lemma onOrder_ok:
  assumes ok: "engine_ok g" and room: "nextOrderId g \<noteq> - 1"
  shows "\<exists>g' cs' ms'. onOrder req g cs ms = Some (g', cs @ cs', ms @ ms') \<and> engine_ok g'
    \<and> nextOrderId g' = nextOrderId g + 1 \<and> dom (books g') = dom (books g)"
proof (cases "books g (m_symbolId req)")
  case None
  have "books_inv book_ok book_ids symbol (nextOrderId g + 1) (books g)"
    using ok next_id_less [OF room] unfolding engine_ok_def books_inv_def by (meson less_trans)
  with None show ?thesis by (simp add: onOrder_def engine_ok_def)
next
  case (Some b)
  from ob.add_keeps [OF ok [unfolded engine_ok_def] Some _ next_id_less [OF room], of "req\<lparr>m_orderId := nextOrderId g\<rparr>" cs ms]
  obtain b' cs' ms' where b': "addOrder (req\<lparr>m_orderId := nextOrderId g\<rparr>) b cs ms = Some (b', cs @ cs', ms @ ms')"
    "books_inv book_ok book_ids symbol (nextOrderId g + 1) ((books g)(m_symbolId req \<mapsto> b'))" by auto
  with Some show ?thesis by (auto simp: onOrder_def engine_ok_def Let_def)
qed

lemma onCancel_ok:
  assumes "engine_ok g"
  shows "\<exists>g' cs' ms'. onCancel i s t g cs ms = Some (g', cs @ cs', ms @ ms') \<and> engine_ok g'
    \<and> nextOrderId g' = nextOrderId g \<and> dom (books g') = dom (books g)"
proof (cases "books g s")
  case (Some b)
  from ob.cancel_keeps [OF assms [unfolded engine_ok_def] Some, of i t cs ms] Some show ?thesis
    by (auto simp: onCancel_def engine_ok_def)
qed (use assms in \<open>simp add: onCancel_def\<close>)

lemma onModify_ok:
  assumes "engine_ok g"
  shows "\<exists>g' cs' ms'. onModify i s t p q g cs ms = Some (g', cs @ cs', ms @ ms') \<and> engine_ok g'
    \<and> nextOrderId g' = nextOrderId g \<and> dom (books g') = dom (books g)"
proof (cases "books g s")
  case (Some b)
  from ob.modify_keeps [OF assms [unfolded engine_ok_def] Some, of i t p q cs ms] Some show ?thesis
    by (auto simp: onModify_def engine_ok_def)
qed (use assms in \<open>simp add: onModify_def\<close>)

end
