(* ===== verification/Book_Properties.thy ===== *)
theory Book_Properties
  imports Matching_Engine
begin

text \<open>
  What the refinement gives for the order book of the source: the abstraction of a well-formed
  book satisfies the invariant of the specification; trades come in matched pairs at prices
  within the limit and never between orders of one trader; quantities are conserved; the best
  orders trade first and in time order; adding and cancelling never leave the book crossed.
  The last section is about the cached level totals, which matching and in-place modification
  do not keep.
\<close>

section \<open>Vocabulary\<close>

text \<open>The quantity of an order that rests in the book under an id.\<close>

definition resting_quantity :: "OrderBook \<Rightarrow> OrderId \<Rightarrow> nat" where
  "resting_quantity b i =
     (case orderMap b i of
        None \<Rightarrow> 0
      | Some p \<Rightarrow> (case elems b p of None \<Rightarrow> 0 | Some e \<Rightarrow> unat (el_quantity e)))"

text \<open>The trader whose order rests under an id.\<close>

definition owner :: "OrderBook \<Rightarrow> OrderId \<Rightarrow> TraderId option" where
  "owner b i = Option.bind (orderMap b i) (\<lambda>p. map_option el_traderId (elems b p))"

definition trades :: "OrderConfirm list \<Rightarrow> OrderConfirm list" where
  "trades cs = filter (\<lambda>c. oc_type c = Trade) cs"

definition traded_quantity :: "OrderConfirm list \<Rightarrow> nat" where
  "traded_quantity cs = sum_list (map (\<lambda>c. unat (oc_qty c)) (trades cs))"

definition book_uncrossed :: "OrderBook \<Rightarrow> bool" where
  "book_uncrossed b \<longleftrightarrow> bids b = [] \<or> asks b = [] \<or> getBestBidPrice b < getBestAskPrice b"

definition all_pointers :: "OrderBook \<Rightarrow> ptr list" where
  "all_pointers b = map snd (flat (bids b) @ flat (asks b))"

section \<open>The abstraction is well formed\<close>

context price_priority
begin

lemma flat_sorted: "levels_ok lt m \<Longrightarrow> sorted_wrt (\<lambda>p q. \<not> lt q p) (map fst (flat m))"
proof (induction m)
  case (Cons x m)
  obtain a w where x: "x = (a, w)" by (cases x)
  have "sorted_wrt (\<lambda>p q. \<not> lt q p) (map fst (map (Pair a) ps))" for ps :: "ptr list"
    by (induction ps) (auto simp: lt_irrefl)
  with Cons flat_prices [of m a] show ?case
    by (auto simp: x levels_ok_Cons sorted_wrt_append lt_irrefl dest: lt_asym)
qed simp

lemma view_sorted: "levels_ok lt m \<Longrightarrow> priority_sorted lt (abs_side h od m)"
  using flat_sorted [of m]
  by (simp add: priority_sorted_iff_prices abs_side_def comp_def case_prod_beta)

end

lemma book_links_ok: "book_ok b \<Longrightarrow> links (elems b) (orderMap b) (orderDetails b) (nextPtr b) (places b)"
  by (simp add: book_ok_def book_links_def)

lemma in_places_pair:
  "(buy, x) \<in> places b \<longleftrightarrow> (if buy then x \<in> set (flat (bids b)) else x \<in> set (flat (asks b)))"
  by (auto simp: places_def side_places_def)

lemma pointers_distinct:
  assumes ok: "book_ok b"
  shows "distinct (all_pointers b)"
proof -
  have d: "distinct (flat (bids b))" "distinct (flat (asks b))"
    using ok by (auto simp: book_ok_def bid_priority.flat_distinct ask_priority.flat_distinct)
  have inj: "buy = buy' \<and> x = y" if "(buy, x) \<in> places b" "(buy', y) \<in> places b" "snd x = snd y" for buy buy' x y
    using that links_inj [OF book_links_ok [OF ok]] by (metis prod.collapse)
  have "inj_on snd (set (flat (bids b)))" "inj_on snd (set (flat (asks b)))"
    using inj [of True _ True] inj [of False _ False] by (auto simp: inj_on_def in_places_pair)
  moreover have "snd ` set (flat (bids b)) \<inter> snd ` set (flat (asks b)) = {}"
    using inj [of True _ False] unfolding in_places_pair by auto
  ultimately show ?thesis
    using d by (simp add: all_pointers_def distinct_map)
qed

lemma pointers_set:
  assumes "book_ok b"
  shows "set (all_pointers b) = dom (elems b)"
proof (rule set_eqI)
  fix p
  have "p \<in> dom (elems b) \<longleftrightarrow> (\<exists>buy pr. (buy, pr, p) \<in> places b)"
    by (rule links_dom [OF book_links_ok [OF assms]])
  also have "\<dots> \<longleftrightarrow> (\<exists>pr. (pr, p) \<in> set (flat (bids b)) \<union> set (flat (asks b)))"
    by (auto simp: in_places_pair ex_bool_eq)
  also have "\<dots> \<longleftrightarrow> p \<in> set (all_pointers b)"
    by (auto simp: all_pointers_def image_iff Bex_def)
  finally show "p \<in> set (all_pointers b) \<longleftrightarrow> p \<in> dom (elems b)" by simp
qed

lemma ran_orderMap:
  assumes "book_ok b"
  shows "ran (orderMap b) = dom (elems b)"
proof -
  note L = book_links_ok [OF assms]
  have "p \<in> ran (orderMap b)" if p: "elems b p = Some e" for p e
  proof -
    from links_dom [OF L, of p] p obtain buy pr where "(buy, pr, p) \<in> places b" by blast
    from links_entry [OF L this p] show ?thesis by (auto intro: ranI)
  qed
  then show ?thesis using links_found [OF L] by (fastforce simp: ran_def)
qed

lemma view_sides:
  assumes "book_ok b"
  shows "\<forall>r\<in>set (s_bids (abs_book b)). r_side r = Buy" "\<forall>r\<in>set (s_asks (abs_book b)). r_side r \<noteq> Buy"
proof -
  have side: "r_side (resting_of (elems b) (orderDetails b) (fst x) (snd x)) = Buy \<longleftrightarrow> buy"
    if x: "(buy, x) \<in> places b" for buy x
  proof -
    from x have pl: "(buy, fst x, snd x) \<in> places b" by simp
    obtain e d where "elems b (snd x) = Some e" "orderMap b (el_id e) = Some (snd x)"
      "orderDetails b (el_id e) = Some d" "d_price d = fst x" "d_side d = Buy \<longleftrightarrow> buy"
      by (rule links_lookup [OF book_links_ok [OF assms] pl])
    then show ?thesis by (simp add: resting_of_def Let_def)
  qed
  show "\<forall>r\<in>set (s_bids (abs_book b)). r_side r = Buy" "\<forall>r\<in>set (s_asks (abs_book b)). r_side r \<noteq> Buy"
    using side [of True] side [of False] by (simp_all add: abs_book_def abs_side_def in_places_pair case_prod_beta)
qed

lemma abs_book_spec_ok:
  assumes ok: "book_ok b"
  shows "spec_ok (abs_book b)"
proof -
  note L = book_links_ok [OF ok]
  let ?f = "\<lambda>(pr, p). resting_of (elems b) (orderDetails b) pr p"
  have "inj_on (r_id \<circ> ?f) (set (flat (bids b) @ flat (asks b)))"
  proof (rule inj_onI)
    fix x y assume xy: "x \<in> set (flat (bids b) @ flat (asks b))" "y \<in> set (flat (bids b) @ flat (asks b))"
      "(r_id \<circ> ?f) x = (r_id \<circ> ?f) y"
    have "\<exists>buy. (buy, z) \<in> places b" if "z \<in> set (flat (bids b) @ flat (asks b))" for z
      using that by (auto simp: in_places_pair ex_bool_eq)
    with xy(1,2) obtain bx bybuy where px: "(bx, fst x, snd x) \<in> places b" and py: "(bybuy, fst y, snd y) \<in> places b"
      by (metis prod.collapse)
    obtain e d where e: "elems b (snd x) = Some e" "orderMap b (el_id e) = Some (snd x)" "orderDetails b (el_id e) = Some d"
      "d_price d = fst x" "d_side d = Buy \<longleftrightarrow> bx"
      by (rule links_lookup [OF L px])
    have "snd y = snd x"
      using resting_id_iff [OF L e(2) py] xy(3) e(1) by (simp add: case_prod_beta resting_of_def Let_def)
    with links_inj [OF L px, of bybuy "fst y"] py show "x = y" by (simp add: prod_eq_iff)
  qed
  moreover have "distinct (flat (bids b) @ flat (asks b))"
    using pointers_distinct [OF ok] unfolding all_pointers_def distinct_map by blast
  ultimately have "distinct (map r_id (spec_orders (abs_book b)))"
    unfolding spec_orders_abs map_map by (simp add: distinct_map del: set_append map_append)
  moreover have "priority_sorted (>) (s_bids (abs_book b))" "priority_sorted (<) (s_asks (abs_book b))"
    using ok by (auto simp: book_ok_def abs_book_def bid_priority.view_sorted ask_priority.view_sorted)
  ultimately show ?thesis
    using view_sides [OF ok] by (simp add: spec_ok_def)
qed

lemma view_head:
  assumes "levels_ok lt m"
  shows "abs_side h od m = [] \<longleftrightarrow> m = []"
    "m = (pr, l) # m' \<Longrightarrow> \<exists>r rs. abs_side h od m = r # rs \<and> r_price r = pr"
proof -
  have head: "\<exists>r rs. abs_side h od m = r # rs \<and> r_price r = pr" if "m = (pr, l) # m'" for pr l m'
  proof -
    from assms that have "mOrders l \<noteq> []" by (simp add: levels_ok_Cons)
    then obtain p ps where "mOrders l = p # ps" by (cases "mOrders l") auto
    with that show ?thesis by (simp add: abs_side_def)
  qed
  then show "m = (pr, l) # m' \<Longrightarrow> \<exists>r rs. abs_side h od m = r # rs \<and> r_price r = pr" .
  show "abs_side h od m = [] \<longleftrightarrow> m = []"
  proof (cases m)
    case (Cons a m')
    then show ?thesis using head [of "fst a" "snd a" m'] by auto
  qed (simp add: abs_side_def)
qed

lemma best_bid_view:
  assumes "book_ok b"
  shows "getBestBidPrice b = (case s_bids (abs_book b) of [] \<Rightarrow> 0 | r # _ \<Rightarrow> r_price r)"
    "s_bids (abs_book b) = [] \<longleftrightarrow> bids b = []"
proof -
  have ok: "levels_ok (>) (bids b)" using assms by (simp add: book_ok_def)
  show "s_bids (abs_book b) = [] \<longleftrightarrow> bids b = []"
    using view_head(1) [OF ok] by (simp add: abs_book_def)
  show "getBestBidPrice b = (case s_bids (abs_book b) of [] \<Rightarrow> 0 | r # _ \<Rightarrow> r_price r)"
  proof (cases "bids b")
    case (Cons a m)
    then show ?thesis
      using view_head(2) [OF ok, of "fst a" "snd a" m "elems b" "orderDetails b"]
      by (auto simp: abs_book_def getBestBidPrice_def case_prod_beta)
  qed (simp add: abs_book_def abs_side_def getBestBidPrice_def)
qed

lemma best_ask_view:
  assumes "book_ok b"
  shows "getBestAskPrice b = (case s_asks (abs_book b) of [] \<Rightarrow> 0 | r # _ \<Rightarrow> r_price r)"
    "s_asks (abs_book b) = [] \<longleftrightarrow> asks b = []"
proof -
  have ok: "levels_ok (<) (asks b)" using assms by (simp add: book_ok_def)
  show "s_asks (abs_book b) = [] \<longleftrightarrow> asks b = []"
    using view_head(1) [OF ok] by (simp add: abs_book_def)
  show "getBestAskPrice b = (case s_asks (abs_book b) of [] \<Rightarrow> 0 | r # _ \<Rightarrow> r_price r)"
  proof (cases "asks b")
    case (Cons a m)
    then show ?thesis
      using view_head(2) [OF ok, of "fst a" "snd a" m "elems b" "orderDetails b"]
      by (auto simp: abs_book_def getBestAskPrice_def case_prod_beta)
  qed (simp add: abs_book_def abs_side_def getBestAskPrice_def)
qed

lemma uncrossed_view:
  assumes ok: "book_ok b"
  shows "book_uncrossed b \<longleftrightarrow> uncrossed (abs_book b)"
proof (cases "s_bids (abs_book b) = [] \<or> s_asks (abs_book b) = []")
  case True
  then show ?thesis
    using best_bid_view(2) [OF ok] best_ask_view(2) [OF ok] by (auto simp: book_uncrossed_def uncrossed_def)
next
  case False
  then obtain x xs y ys where v: "s_bids (abs_book b) = x # xs" "s_asks (abs_book b) = y # ys"
    by (auto simp: neq_Nil_conv)
  have "\<forall>z\<in>set xs. r_price z \<le> r_price x" "\<forall>z\<in>set ys. r_price y \<le> r_price z"
    using abs_book_spec_ok [OF ok] by (auto simp: spec_ok_def v priority_sorted_def not_less)
  with v show ?thesis
    using best_bid_view [OF ok] best_ask_view [OF ok] False
    by (auto simp: book_uncrossed_def uncrossed_def intro: le_less_trans less_le_trans)
      (meson le_less_trans less_le_trans)
qed

section \<open>Outcome of an added order\<close>

text \<open>\<open>spec_add\<close> in terms of what the request executes and what survives it.\<close>

definition residual :: "OrderRequest \<Rightarrow> SpecBook \<Rightarrow> Resting" where
  "residual req B =
     \<lparr>r_id = m_orderId req, r_trader = m_traderId req, r_side = m_side req, r_price = m_price req,
      r_qty = unfilled req B, r_recorded = unfilled req B\<rparr>"

definition with_survivors :: "OrderRequest \<Rightarrow> SpecBook \<Rightarrow> SpecBook" where
  "with_survivors req B =
     (if m_side req = Buy then B\<lparr>s_asks := survivors req B\<rparr> else B\<lparr>s_bids := survivors req B\<rparr>)"

lemma spec_match_parts:
  "spec_match req (m_quantity req) (opposite_list req B) = (survivors req B, unfilled req B, executions req B)"
  by (simp add: survivors_def unfilled_def executions_def)

lemma spec_add_book:
  "fst (spec_add req B) =
     (if unfilled req B = 0 then with_survivors req B else spec_place (residual req B) (with_survivors req B))"
  using spec_match_parts [of req B]
  by (simp add: spec_add_def with_survivors_def residual_def opposite_list_def Let_def split: prod.splits)

lemma spec_add_confirms:
  "fst (snd (spec_add req B)) =
     OrderConfirm NewAck (m_orderId req) (m_clientOrderId req) (m_traderId req) (s_symbol B) 0 0 UnknownOrder
       # concat (map (event_confirms (s_symbol B) req) (executions req B))"
  using spec_match_parts [of req B]
  by (simp add: spec_add_def opposite_list_def Let_def split: prod.splits)

lemma addOrder_outcome:
  assumes "book_ok b" and "orderMap b (m_orderId req) = None"
  obtains b' ms' where
    "addOrder req b cs ms = Some (b', cs @ OrderConfirm NewAck (m_orderId req) (m_clientOrderId req) (m_traderId req)
        (symbol b) 0 0 UnknownOrder # concat (map (event_confirms (symbol b) req) (executions req (abs_book b))), ms @ ms')"
    "book_ok b'" "abs_book b' = fst (spec_add req (abs_book b))"
  using addOrder_implements [OF assms(1), of req cs ms] assms(2) spec_add_confirms [of req "abs_book b"]
  by (auto simp: implements_def domIff split: prod.splits)

lemma resting_quantity_view:
  assumes "book_ok b"
  shows "resting_quantity b i = (case spec_find i (abs_book b) of None \<Rightarrow> 0 | Some r \<Rightarrow> unat (r_qty r))"
proof (cases "orderMap b i")
  case (Some p)
  obtain e r where "elems b p = Some e" "spec_find i (abs_book b) = Some r" "r_qty r = el_quantity e"
    by (rule found_order [OF assms Some]) blast
  with Some show ?thesis by (simp add: resting_quantity_def)
qed (simp add: resting_quantity_def spec_find_abs [OF assms])

lemma spec_find_unique:
  assumes "distinct (map r_id (spec_orders B))" "r \<in> set (spec_orders B)"
  shows "spec_find (r_id r) B = Some r"
proof -
  have "spec_find (r_id r) B \<noteq> None" using assms(2) by (auto simp: spec_find_def find_None_iff)
  then obtain r' where r': "spec_find (r_id r) B = Some r'" by blast
  then have "r' \<in> set (spec_orders B)" "r_id r' = r_id r" by (auto simp: spec_find_def find_Some_iff)
  with assms have "r' = r" by (auto simp: distinct_map inj_on_def)
  with r' show ?thesis by simp
qed

lemma spec_find_absent: "i \<notin> r_id ` set (spec_orders B) \<Longrightarrow> spec_find i B = None"
  by (auto simp: spec_find_def find_None_iff)

lemma with_survivors_ids: "r_id ` set (spec_orders (with_survivors req B)) \<subseteq> r_id ` set (spec_orders B)"
  using spec_match_ids [OF spec_match_parts [of req B]]
  by (auto simp: with_survivors_def spec_orders_def opposite_list_def split: if_splits)

lemma in_spec_place [simp]: "x \<in> set (spec_orders (spec_place r B)) \<longleftrightarrow> x = r \<or> x \<in> set (spec_orders B)"
  by (auto simp: spec_place_def spec_orders_def)

lemma opposite_after_add:
  "B' = fst (spec_add req B) \<Longrightarrow> opposite_list req B' = survivors req B"
  by (simp add: spec_add_book opposite_list_def with_survivors_def spec_place_def residual_def)

lemma add_resting_quantity:
  assumes ok: "book_ok b" and new: "orderMap b (m_orderId req) = None"
    and b': "book_ok b'" "abs_book b' = fst (spec_add req (abs_book b))"
  shows "resting_quantity b' (m_orderId req) = unat (unfilled req (abs_book b))"
proof (cases "unfilled req (abs_book b) = 0")
  case True
  have "m_orderId req \<notin> r_id ` set (spec_orders (abs_book b'))"
    using with_survivors_ids [of req "abs_book b"] orderMap_dom [OF ok] new True
    by (auto simp: b'(2) spec_add_book)
  with True show ?thesis by (simp add: resting_quantity_view [OF b'(1)] spec_find_absent)
next
  case False
  let ?r = "residual req (abs_book b)"
  have "?r \<in> set (spec_orders (abs_book b'))" using False by (simp add: b'(2) spec_add_book)
  moreover have "distinct (map r_id (spec_orders (abs_book b')))"
    using abs_book_spec_ok [OF b'(1)] by (simp add: spec_ok_def)
  ultimately have "spec_find (r_id ?r) (abs_book b') = Some ?r" by (rule spec_find_unique [rotated])
  then show ?thesis by (simp add: resting_quantity_view [OF b'(1)] residual_def)
qed

lemma traded_quantity_Cons [simp]:
  "traded_quantity [] = 0"
  "traded_quantity (c # cs) = (if oc_type c = Trade then unat (oc_qty c) else 0) + traded_quantity cs"
  by (simp_all add: traded_quantity_def trades_def)

lemma traded_quantity_append [simp]: "traded_quantity (cs @ ds) = traded_quantity cs + traded_quantity ds"
  by (simp add: traded_quantity_def trades_def)

lemma traded_quantity_events:
  "traded_quantity (concat (map (event_confirms s req) evs)) = 2 * sum_list (map event_fill evs)"
proof (induction evs)
  case (Cons ev evs)
  then show ?case by (cases ev) simp_all
qed simp

lemma addOrder_quantity:
  assumes "book_ok b" and "orderMap b (m_orderId req) = None"
  obtains b' cs' ms' where "addOrder req b cs ms = Some (b', cs @ cs', ms @ ms')"
    "2 * unat (m_quantity req) = traded_quantity cs' + 2 * resting_quantity b' (m_orderId req)"
proof -
  let ?B = "abs_book b"
  obtain b' ms' where b': "addOrder req b cs ms = Some (b', cs @ OrderConfirm NewAck (m_orderId req) (m_clientOrderId req) (m_traderId req)
        (symbol b) 0 0 UnknownOrder # concat (map (event_confirms (symbol b) req) (executions req ?B)), ms @ ms')"
    "book_ok b'" "abs_book b' = fst (spec_add req ?B)"
    by (rule addOrder_outcome [OF assms])
  have "unat (m_quantity req) = unat (unfilled req ?B) + sum_list (map event_fill (executions req ?B))"
    by (rule spec_match_quantity [OF spec_match_parts])
  with add_resting_quantity [OF assms b'(2,3)] show ?thesis
    by (intro that [OF b'(1)]) (simp add: traded_quantity_events)
qed

section \<open>The book stays uncrossed\<close>

lemma survivors_prices: "r_price ` set (survivors req B) \<subseteq> r_price ` set (opposite_list req B)"
proof -
  obtain n where "map r_price (survivors req B) = drop n (map r_price (opposite_list req B))"
    using spec_match_keys [OF spec_match_parts [of req B]] by blast
  then have "set (map r_price (survivors req B)) \<subseteq> set (map r_price (opposite_list req B))"
    by (metis set_drop_subset)
  then show ?thesis by simp
qed

lemma survivors_beyond_limit:
  assumes "spec_ok B" "unfilled req B \<noteq> 0" "r \<in> set (survivors req B)"
  shows "\<not> crosses req r"
  using spec_match_exhausts [OF spec_match_parts [of req B]] assms
  by (auto simp: spec_ok_def opposite_list_def split: if_splits)

lemma uncrossed_prices:
  "uncrossed B \<longleftrightarrow> (\<forall>p\<in>r_price ` set (s_bids B). \<forall>q\<in>r_price ` set (s_asks B). p < q)"
  by (simp add: uncrossed_def)

lemma uncrossed_subset:
  assumes "uncrossed B" "r_price ` set (s_bids B') \<subseteq> r_price ` set (s_bids B)"
    "r_price ` set (s_asks B') \<subseteq> r_price ` set (s_asks B)"
  shows "uncrossed B'"
  using assms unfolding uncrossed_prices by blast

lemma spec_add_uncrossed:
  assumes ok: "spec_ok B" and un: "uncrossed B"
  shows "uncrossed (fst (spec_add req B))"
proof -
  have ws: "uncrossed (with_survivors req B)"
    by (rule uncrossed_subset [OF un])
      (use survivors_prices [of req B] in \<open>auto simp: with_survivors_def opposite_list_def\<close>)
  show ?thesis
  proof (cases "unfilled req B = 0")
    case False
    have "(if m_side req = Buy then m_price req < r_price r else r_price r < m_price req)"
      if "r \<in> set (survivors req B)" for r
      using survivors_beyond_limit [OF ok False that] by (auto simp: crosses_def)
    with ws False show ?thesis
      by (auto simp: spec_add_book uncrossed_def spec_place_def residual_def with_survivors_def split: if_splits)
  qed (use ws in \<open>simp add: spec_add_book\<close>)
qed

lemma spec_cancel_uncrossed: "uncrossed B \<Longrightarrow> uncrossed (fst (spec_cancel i t B))"
  by (auto simp: spec_cancel_def spec_reject_def spec_remove_def uncrossed_def split: option.splits)

section \<open>Fills\<close>

text \<open>The fills among the executions, as pairs of the resting order and the quantity.\<close>

fun fills :: "match_event list \<Rightarrow> (Resting \<times> Quantity) list" where
  "fills [] = []"
| "fills (Fill r t # evs) = (r, t) # fills evs"
| "fills (SelfCancel r # evs) = fills evs"

text \<open>The two confirmations of one trade: the resting order's, then the incoming order's.\<close>

definition trade_pair :: "SymbolId \<Rightarrow> OrderRequest \<Rightarrow> Resting \<times> Quantity \<Rightarrow> OrderConfirm list" where
  "trade_pair s req f =
     [OrderConfirm Trade (r_id (fst f)) 0 (r_trader (fst f)) s (r_price (fst f)) (snd f) UnknownOrder,
      OrderConfirm Trade (m_orderId req) (m_clientOrderId req) (m_traderId req) s (r_price (fst f)) (snd f) UnknownOrder]"

lemma in_fills: "(r, t) \<in> set (fills evs) \<longleftrightarrow> Fill r t \<in> set evs"
  by (induction evs rule: fills.induct) auto

lemma trades_simps [simp]:
  "trades [] = []" "trades (c # cs) = (if oc_type c = Trade then c # trades cs else trades cs)"
  "trades (cs @ ds) = trades cs @ trades ds"
  by (simp_all add: trades_def)

lemma trades_of_events:
  "trades (concat (map (event_confirms s req) evs)) = concat (map (trade_pair s req) (fills evs))"
  by (induction evs rule: fills.induct) (simp_all add: trade_pair_def)

lemma executions_sound:
  assumes "ev \<in> set (executions req B)"
  shows "event_order ev \<in> set (opposite_list req B)" "crosses req (event_order ev)"
    "ev = Fill r t \<Longrightarrow> r_trader r \<noteq> m_traderId req \<and> t \<le> r_qty r"
    "ev = SelfCancel r \<Longrightarrow> r_trader r = m_traderId req"
  using spec_match_events [OF spec_match_parts assms] by (auto split: match_event.splits)

lemma opposite_in_orders: "set (opposite_list req B) \<subseteq> set (spec_orders B)"
  by (auto simp: opposite_list_def spec_orders_def)

section \<open>Time priority of placed orders\<close>

text \<open>The side of the book an order of a given side rests on.\<close>

definition own_list :: "Side \<Rightarrow> SpecBook \<Rightarrow> Resting list" where
  "own_list S B = (if S = Buy then s_bids B else s_asks B)"

lemma spec_ok_remove: "spec_ok B \<Longrightarrow> spec_ok (spec_remove i B)"
  by (auto simp: spec_ok_def spec_remove_def spec_orders_def priority_sorted_filter distinct_map_filter)

lemma place_behind_equals:
  assumes "priority_sorted (side_lt S) (own_list S B)" "r_side r = S"
  shows "filter (\<lambda>x. r_price x = r_price r) (own_list S (spec_place r B))
       = filter (\<lambda>x. r_price x = r_price r) (own_list S B) @ [r]"
  using assms bid_priority.insert_behind_equals [of "s_bids B" r] ask_priority.insert_behind_equals [of "s_asks B" r]
  by (auto simp: own_list_def spec_place_def side_lt_def)

lemma spec_ok_own_sorted: "spec_ok B \<Longrightarrow> priority_sorted (side_lt S) (own_list S B)"
  by (simp add: spec_ok_def own_list_def side_lt_def)

lemma own_with_survivors: "own_list (m_side req) (with_survivors req B) = own_list (m_side req) B"
  by (simp add: own_list_def with_survivors_def)

lemma spec_add_behind:
  assumes "spec_ok B"
  shows "filter (\<lambda>x. r_price x = m_price req) (own_list (m_side req) (fst (spec_add req B)))
       = filter (\<lambda>x. r_price x = m_price req) (own_list (m_side req) B)
         @ (if unfilled req B = 0 then [] else [residual req B])"
  using place_behind_equals [of "m_side req" "with_survivors req B" "residual req B"] spec_ok_own_sorted [OF assms, of "m_side req"]
  by (simp add: spec_add_book own_with_survivors) (simp add: residual_def)

lemma shrink_keeps_ids:
  "map r_id (s_bids (spec_shrink i q B)) = map r_id (s_bids B)" "map r_id (s_asks (spec_shrink i q B)) = map r_id (s_asks B)"
  by (simp_all add: spec_shrink_def comp_def set_qty_def if_distrib cong: if_cong)

lemma move_behind:
  assumes "spec_ok B"
  shows "filter (\<lambda>x. r_price x = r_price r) (own_list (r_side r) (spec_place r (spec_remove i B)))
       = filter (\<lambda>x. r_price x = r_price r \<and> r_id x \<noteq> i) (own_list (r_side r) B) @ [r]"
  using place_behind_equals [OF spec_ok_own_sorted [OF spec_ok_remove [OF assms]], of r]
  by (simp add: own_list_def spec_remove_def conj_commute)

section \<open>Best prices\<close>

lemma sorted_head_best:
  assumes "priority_sorted lt (r # rs)" "x \<in> set (r # rs)"
  shows "r_price x = r_price r \<or> \<not> lt (r_price x) (r_price r)"
  using assms by (auto simp: priority_sorted_def)

lemma best_bid_max:
  assumes ok: "book_ok b" and "bids b \<noteq> []"
  shows "getBestBidPrice b = Max (r_price ` set (s_bids (abs_book b)))"
proof -
  from assms best_bid_view [OF ok] obtain r rs where v: "s_bids (abs_book b) = r # rs" "getBestBidPrice b = r_price r"
    by (cases "s_bids (abs_book b)") auto
  have "r_price x \<le> r_price r" if "x \<in> set (r # rs)" for x
    using sorted_head_best [OF _ that, of "(>)"] abs_book_spec_ok [OF ok] by (auto simp: spec_ok_def v)
  then show ?thesis unfolding v by (intro Max_eqI [symmetric]) auto
qed

lemma best_ask_min:
  assumes ok: "book_ok b" and "asks b \<noteq> []"
  shows "getBestAskPrice b = Min (r_price ` set (s_asks (abs_book b)))"
proof -
  from assms best_ask_view [OF ok] obtain r rs where v: "s_asks (abs_book b) = r # rs" "getBestAskPrice b = r_price r"
    by (cases "s_asks (abs_book b)") auto
  have "r_price r \<le> r_price x" if "x \<in> set (r # rs)" for x
    using sorted_head_best [OF _ that, of "(<)"] abs_book_spec_ok [OF ok] by (auto simp: spec_ok_def v)
  then show ?thesis unfolding v by (intro Min_eqI [symmetric]) auto
qed

section \<open>Level totals while matching\<close>

lemma resting_qty_Cons:
  "mOrders l = p # ps \<Longrightarrow> h p = Some e \<Longrightarrow> resting_qty h l = el_quantity e + resting_qty h (l\<lparr>mOrders := ps\<rparr>)"
  by (simp add: resting_qty_def)

lemma resting_qty_update:
  "p \<notin> set (mOrders l) \<Longrightarrow> resting_qty (h(p := v)) l = resting_qty h l"
  by (rule resting_qty_heap_cong) auto

lemma resting_qty_level_cong: "mOrders l = mOrders l' \<Longrightarrow> resting_qty h l = resting_qty h l'"
  by (simp add: resting_qty_def)

lemma matchStep_drift:
  assumes "mOrders level = p # ps" "distinct (mOrders level)" "elems (ms_book x) p = Some e"
    "matchStep S req pr level x = Some (level', x')"
  shows "qty_drift (elems (ms_book x')) level' =
    qty_drift (elems (ms_book x)) level
      + (if el_traderId e \<noteq> m_traderId req \<and> el_quantity e \<le> remainingQty x then el_quantity e else 0)"
proof -
  let ?h = "elems (ms_book x)" and ?rest = "level\<lparr>mOrders := ps\<rparr>"
  have head: "resting_qty ?h level = el_quantity e + resting_qty ?h ?rest"
    using assms(1,3) by (rule resting_qty_Cons)
  have tail: "resting_qty (?h(p := v)) l = resting_qty ?h ?rest" if "mOrders l = ps" for v l
    using resting_qty_update [of p ?rest ?h v] resting_qty_level_cong [of l ?rest] assms(1,2) that by simp
  consider "el_traderId e = m_traderId req" | "el_traderId e \<noteq> m_traderId req" "el_quantity e \<le> remainingQty x"
    | "el_traderId e \<noteq> m_traderId req" "remainingQty x < el_quantity e" by fastforce
  then show ?thesis
  proof cases
    case 1
    with matchStep_self [OF assms(1,3) 1] assms(4) show ?thesis
      by (auto simp: qty_drift_def head tail dropElement_def)
  next
    case 2
    with matchStep_fill [OF assms(1,3) 2] assms(4) show ?thesis
      by (auto simp: qty_drift_def head tail dropElement_def)
  next
    case 3
    have "resting_qty (?h(p \<mapsto> e\<lparr>el_quantity := el_quantity e - remainingQty x\<rparr>)) level
        = el_quantity e - remainingQty x + resting_qty ?h ?rest"
      using resting_qty_Cons [OF assms(1), of "?h(p \<mapsto> e\<lparr>el_quantity := el_quantity e - remainingQty x\<rparr>)"] tail [of ?rest] by simp
    with 3 matchStep_partial [OF assms(1,3) 3] assms(4) show ?thesis
      by (auto simp: qty_drift_def head level_reduceQty_def resting_qty_level_cong [of "level\<lparr>mTotalQty := _\<rparr>" level])
  qed
qed

end
