(* ===== verification/Book_Theorems.thy ===== *)
theory Book_Theorems
  imports Book_Properties
begin

text \<open>
  The theorems about one order book: refinement of the price-time specification by the three
  public operations, priority, fairness and conservation of trades, memory safety, the
  uncrossed book, and what the cached level totals do and do not promise. Each theorem with a
  hypothesis is applied to a small book built by \<^verbatim>\<open>addOrder\<close> itself.
\<close>

section \<open>A sample book\<close>

text \<open>Two sell orders of traders 7 and 8 at price 100, and a bid of trader 9 at 95.\<close>

definition sample_order :: "OrderId \<Rightarrow> TraderId \<Rightarrow> Side \<Rightarrow> Price \<Rightarrow> Quantity \<Rightarrow> OrderRequest" where
  "sample_order i t s p q =
     OrderRequest_init\<lparr>m_orderId := i, m_traderId := t, m_side := s, m_price := p, m_quantity := q\<rparr>"

fun sample_adds :: "OrderRequest list \<Rightarrow> OrderBook \<Rightarrow> OrderBook" where
  "sample_adds [] b = b"
| "sample_adds (r # rs) b = sample_adds rs (fst (the (addOrder r b [] [])))"

definition sample_book :: OrderBook where
  "sample_book =
     sample_adds [sample_order 1 7 Sell 100 10, sample_order 2 8 Sell 100 20, sample_order 3 9 Buy 95 5] (OrderBook_new 5)"

lemma sample_adds_ok:
  assumes "book_ok b" "distinct (map m_orderId rs)" "\<forall>r\<in>set rs. orderMap b (m_orderId r) = None"
  shows "book_ok (sample_adds rs b)"
  using assms
proof (induction rs arbitrary: b)
  case (Cons r rs)
  have "m_orderId r \<notin> book_ids b" using Cons.prems by (auto simp: book_ids_def)
  from ob.add_total [OF Cons.prems(1) this, of "[]" "[]"] obtain b' cs ms where
    b': "addOrder r b [] [] = Some (b', cs, ms)" "book_ok b'" "book_ids b' \<subseteq> insert (m_orderId r) (book_ids b)"
    by auto
  have "orderMap b' (m_orderId x) = None" if "x \<in> set rs" for x
  proof -
    from that Cons.prems have "m_orderId x \<noteq> m_orderId r" "m_orderId x \<notin> book_ids b"
      by (auto simp: book_ids_def image_iff)
    with b'(3) show ?thesis by (auto simp: book_ids_def)
  qed
  with Cons b' show ?case by simp
qed simp

lemma sample_book_ok: "book_ok sample_book"
  unfolding sample_book_def
  by (rule sample_adds_ok [OF book_ok_new]) (simp_all add: sample_order_def OrderBook_new_def OrderRequest_init_def)

lemma sample_book_ids: "orderMap sample_book 4 = None" "orderMap sample_book 1 = Some 0" "orderMap sample_book 2 = Some 1"
  by code_simp+

section \<open>Refinement\<close>

text \<open>
  C1. Adding an order to a well-formed book under an id the book does not hold always returns
  (no undefined behaviour), appends exactly the confirmations and market data of the abstract
  price-time book, and leaves a well-formed book that represents the abstract result.
\<close>

theorem addOrder_refines:
  assumes "book_ok b" and "orderMap b (m_orderId req) = None"
  shows "\<exists>b' B cs' ms'. spec_add req (abs_book b) = (B, cs', ms')
    \<and> addOrder req b cs ms = Some (b', cs @ cs', ms @ ms') \<and> book_ok b' \<and> abs_book b' = B"
  using addOrder_implements [OF assms(1), of req cs ms] assms(2)
  by (auto simp: implements_def domIff split: prod.splits)

theorem addOrder_refines_witness:
  "book_ok sample_book \<and> (\<exists>b' B cs' ms'. spec_add (sample_order 4 9 Buy 101 15) (abs_book sample_book) = (B, cs', ms')
    \<and> addOrder (sample_order 4 9 Buy 101 15) sample_book [] [] = Some (b', cs', ms') \<and> book_ok b' \<and> abs_book b' = B)"
  using addOrder_refines [of sample_book "sample_order 4 9 Buy 101 15" "[]" "[]"]
  by (simp add: sample_book_ok sample_book_ids sample_order_def)

text \<open>
  C2. Cancelling: on a well-formed book the operation always returns, appends what the abstract
  book reports (a rejection for an unknown id or for an order of another trader, otherwise an
  acknowledgement and one market data update with the resting quantity), and removes exactly
  that order from the represented book.
\<close>

theorem cancelOrder_refines:
  assumes "book_ok b"
  shows "\<exists>b' B cs' ms'. spec_cancel i t (abs_book b) = (B, cs', ms')
    \<and> cancelOrder i t b cs ms = Some (b', cs @ cs', ms @ ms') \<and> book_ok b' \<and> abs_book b' = B"
  using cancelOrder_implements [OF assms, of i t cs ms]
  by (auto simp: implements_def split: prod.splits)

theorem cancelOrder_refines_witness:
  "book_ok sample_book \<and> (\<exists>b' B cs' ms'. spec_cancel 2 8 (abs_book sample_book) = (B, cs', ms')
    \<and> cancelOrder 2 8 sample_book [] [] = Some (b', cs', ms') \<and> book_ok b' \<and> abs_book b' = B)"
  using cancelOrder_refines [of sample_book 2 8 "[]" "[]"] by (simp add: sample_book_ok)

text \<open>
  C3. Modifying: on a well-formed book the operation always returns and implements the
  abstract modification. A smaller quantity than the recorded one at the same price changes
  the order in place; anything else takes it out and places it behind every order of its new
  price; unknown ids and foreign orders are rejected.
\<close>

theorem modifyOrder_refines:
  assumes "book_ok b"
  shows "\<exists>b' B cs' ms'. spec_modify i t p q (abs_book b) = (B, cs', ms')
    \<and> modifyOrder i t p q b cs ms = Some (b', cs @ cs', ms @ ms') \<and> book_ok b' \<and> abs_book b' = B"
  using modifyOrder_implements [OF assms, of i t p q cs ms]
  by (auto simp: implements_def split: prod.splits)

theorem modifyOrder_refines_witness:
  "book_ok sample_book \<and> (\<exists>b' B cs' ms'. spec_modify 1 7 102 10 (abs_book sample_book) = (B, cs', ms')
    \<and> modifyOrder 1 7 102 10 sample_book [] [] = Some (b', cs', ms') \<and> book_ok b' \<and> abs_book b' = B)"
  using modifyOrder_refines [of sample_book 1 7 102 10 "[]" "[]"] by (simp add: sample_book_ok)

section \<open>Priority and trades\<close>

text \<open>
  C4. Price-time priority: the orders an incoming order hits are a prefix of the opposite side
  in price-time order, each consumed completely before the next one is touched, only the last
  one possibly being reduced in place; what these executions fill and the remainder add up to the
  quantity of the incoming order, and the remainder is what then rests under its id; and matching stops
  only when the remainder is 0 or no remaining opposite order is within the limit. The confirmations
  are those of these executions, in that order, after the acknowledgement of the new order.
\<close>

theorem addOrder_priority:
  assumes "book_ok b" and "orderMap b (m_orderId req) = None"
  shows "\<exists>b' ms' evs rem. addOrder req b cs ms = Some (b',
      cs @ OrderConfirm NewAck (m_orderId req) (m_clientOrderId req) (m_traderId req) (symbol b) 0 0 UnknownOrder
        # concat (map (event_confirms (symbol b) req) evs), ms @ ms')
    \<and> prefix_hit (opposite_list req (abs_book b)) (opposite_list req (abs_book b')) rem evs
    \<and> unat (m_quantity req) = unat rem + sum_list (map event_fill evs) \<and> resting_quantity b' (m_orderId req) = unat rem
    \<and> (rem = 0 \<or> (\<forall>r\<in>set (opposite_list req (abs_book b')). \<not> crosses req r))"
proof -
  obtain b' ms' where b': "addOrder req b cs ms = Some (b', cs @ OrderConfirm NewAck (m_orderId req) (m_clientOrderId req) (m_traderId req)
        (symbol b) 0 0 UnknownOrder # concat (map (event_confirms (symbol b) req) (executions req (abs_book b))), ms @ ms')"
    "book_ok b'" "abs_book b' = fst (spec_add req (abs_book b))"
    by (rule addOrder_outcome [OF assms])
  have opp: "opposite_list req (abs_book b') = survivors req (abs_book b)"
    by (rule opposite_after_add [OF b'(3)])
  have "unat (m_quantity req) = unat (unfilled req (abs_book b)) + sum_list (map event_fill (executions req (abs_book b)))"
    by (rule spec_match_quantity [OF spec_match_parts])
  moreover have "resting_quantity b' (m_orderId req) = unat (unfilled req (abs_book b))"
    by (rule add_resting_quantity [OF assms b'(2,3)])
  moreover have "prefix_hit (opposite_list req (abs_book b)) (opposite_list req (abs_book b')) (unfilled req (abs_book b)) (executions req (abs_book b))"
    unfolding opp by (rule spec_match_prefix [OF spec_match_parts])
  moreover have "unfilled req (abs_book b) = 0 \<or> (\<forall>r\<in>set (opposite_list req (abs_book b')). \<not> crosses req r)"
    unfolding opp using survivors_beyond_limit [OF abs_book_spec_ok [OF assms(1)]] by blast
  ultimately show ?thesis using b'(1) by blast
qed

theorem addOrder_priority_witness:
  "\<exists>b' ms' evs rem. addOrder (sample_order 4 9 Buy 101 15) sample_book [] [] = Some (b',
      OrderConfirm NewAck 4 0 9 (symbol sample_book) 0 0 UnknownOrder
        # concat (map (event_confirms (symbol sample_book) (sample_order 4 9 Buy 101 15)) evs), ms')
    \<and> prefix_hit (opposite_list (sample_order 4 9 Buy 101 15) (abs_book sample_book))
        (opposite_list (sample_order 4 9 Buy 101 15) (abs_book b')) rem evs
    \<and> 15 = unat rem + sum_list (map event_fill evs) \<and> resting_quantity b' 4 = unat rem"
  using addOrder_priority [of sample_book "sample_order 4 9 Buy 101 15" "[]" "[]"]
  by (auto simp: sample_book_ok sample_book_ids sample_order_def OrderRequest_init_def)

text \<open>
  C5. Trades come in matched pairs: the trade confirmations of an added order are, fill by
  fill, one for the resting order and one for the incoming order, with the same price and
  quantity; the price is the resting order's and within the incoming limit, the quantity does
  not exceed what rests, and the two traders differ (no self trade).
\<close>

theorem addOrder_trade_pairs:
  assumes "book_ok b" and "orderMap b (m_orderId req) = None"
  shows "\<exists>b' cs' ms' fs. addOrder req b cs ms = Some (b', cs @ cs', ms @ ms')
    \<and> trades cs' = concat (map (trade_pair (symbol b) req) fs)
    \<and> (\<forall>(r, t)\<in>set fs. r \<in> set (opposite_list req (abs_book b)) \<and> crosses req r
          \<and> r_trader r \<noteq> m_traderId req \<and> t \<le> r_qty r)"
proof -
  let ?evs = "executions req (abs_book b)"
  obtain b' ms' where b': "addOrder req b cs ms = Some (b', cs @ OrderConfirm NewAck (m_orderId req) (m_clientOrderId req) (m_traderId req)
        (symbol b) 0 0 UnknownOrder # concat (map (event_confirms (symbol b) req) ?evs), ms @ ms')"
    by (rule addOrder_outcome [OF assms])
  have "r \<in> set (opposite_list req (abs_book b)) \<and> crosses req r \<and> r_trader r \<noteq> m_traderId req \<and> t \<le> r_qty r"
    if "(r, t) \<in> set (fills ?evs)" for r t
    using executions_sound [of "Fill r t" req "abs_book b"] that by (simp add: in_fills)
  with b' show ?thesis
    by (simp, intro exI [of _ "fills ?evs"]) (auto simp: trades_of_events)
qed

theorem addOrder_trade_pairs_witness:
  "\<exists>b' cs' ms' fs. addOrder (sample_order 4 9 Buy 101 15) sample_book [] [] = Some (b', cs', ms')
    \<and> trades cs' = concat (map (trade_pair (symbol sample_book) (sample_order 4 9 Buy 101 15)) fs)"
  using addOrder_trade_pairs [of sample_book "sample_order 4 9 Buy 101 15" "[]" "[]"]
  by (auto simp: sample_book_ok sample_book_ids sample_order_def)

text \<open>
  C7. Matching never leaves the book crossed: if the best bid is below the best ask before an
  order is added or cancelled, it is so afterwards.
\<close>

theorem book_stays_uncrossed:
  assumes "book_ok b" and "orderMap b (m_orderId req) = None" and "book_uncrossed b"
  shows "(\<exists>b' cs' ms'. addOrder req b cs ms = Some (b', cs', ms') \<and> book_uncrossed b')
    \<and> (\<exists>b' cs' ms'. cancelOrder i t b cs ms = Some (b', cs', ms') \<and> book_uncrossed b')"
proof
  obtain b' cs' ms' where "addOrder req b cs ms = Some (b', cs', ms')" "book_ok b'" "abs_book b' = fst (spec_add req (abs_book b))"
    by (rule addOrder_outcome [OF assms(1,2)]) blast
  with spec_add_uncrossed [OF abs_book_spec_ok [OF assms(1)]] assms(3)
  show "\<exists>b' cs' ms'. addOrder req b cs ms = Some (b', cs', ms') \<and> book_uncrossed b'"
    by (auto simp: uncrossed_view assms(1))
  show "\<exists>b' cs' ms'. cancelOrder i t b cs ms = Some (b', cs', ms') \<and> book_uncrossed b'"
    using cancelOrder_implements [OF assms(1), of i t cs ms] spec_cancel_uncrossed [of "abs_book b" i t] assms
    by (auto simp: implements_def uncrossed_view split: prod.splits)
qed

theorem book_stays_uncrossed_witness:
  "(\<exists>b' cs' ms'. addOrder (sample_order 4 9 Buy 100 50) sample_book [] [] = Some (b', cs', ms') \<and> book_uncrossed b')
   \<and> (\<exists>b' cs' ms'. cancelOrder 1 7 sample_book [] [] = Some (b', cs', ms') \<and> book_uncrossed b')"
proof -
  have "book_uncrossed sample_book" by code_simp
  moreover have "orderMap sample_book (m_orderId (sample_order 4 9 Buy 100 50)) = None"
    by (simp add: sample_book_ids sample_order_def)
  ultimately show ?thesis by (intro book_stays_uncrossed sample_book_ok)
qed

text \<open>
  Modifying does not match: moving the bid of the sample book above the best ask leaves a
  crossed book, with no trade confirmation.
\<close>

lemma modifyOrder_can_cross:
  "book_uncrossed sample_book \<and>
   (case modifyOrder 3 9 105 5 sample_book [] [] of
      None \<Rightarrow> False
    | Some (b', cs', ms') \<Rightarrow>
        cs' = [OrderConfirm ModifyAck 3 0 9 5 0 0 UnknownOrder]
        \<and> getBestBidPrice b' = 105 \<and> getBestAskPrice b' = 100 \<and> \<not> book_uncrossed b')"
  by code_simp

text \<open>
  C18. Best prices: \<^verbatim>\<open>getBestBidPrice\<close> is the highest price of a resting bid and
  \<^verbatim>\<open>getBestAskPrice\<close> the lowest price of a resting ask; both are 0 exactly as the source
  says when the side is empty.
\<close>

theorem best_prices_correct:
  assumes "book_ok b"
  shows "getBestBidPrice b = (if s_bids (abs_book b) = [] then 0 else Max (r_price ` set (s_bids (abs_book b))))
    \<and> getBestAskPrice b = (if s_asks (abs_book b) = [] then 0 else Min (r_price ` set (s_asks (abs_book b))))"
  using best_bid_max [OF assms] best_ask_min [OF assms] best_bid_view [OF assms] best_ask_view [OF assms] by auto

theorem best_prices_correct_witness:
  "getBestBidPrice sample_book
     = (if s_bids (abs_book sample_book) = [] then 0 else Max (r_price ` set (s_bids (abs_book sample_book))))"
  using best_prices_correct [OF sample_book_ok] by simp

text \<open>
  C19. Time priority of a new order: what is left of it goes behind every order already resting
  on its side at its price, and the orders there keep their order.
\<close>

theorem addOrder_joins_back:
  assumes "book_ok b" and "orderMap b (m_orderId req) = None"
  shows "\<exists>b' cs' ms'. addOrder req b cs ms = Some (b', cs', ms')
    \<and> filter (\<lambda>x. r_price x = m_price req) (own_list (m_side req) (abs_book b'))
      = filter (\<lambda>x. r_price x = m_price req) (own_list (m_side req) (abs_book b))
        @ (if unfilled req (abs_book b) = 0 then [] else [residual req (abs_book b)])"
  using addOrder_outcome [OF assms] spec_add_behind [OF abs_book_spec_ok [OF assms(1)], of req] by metis

theorem addOrder_joins_back_witness:
  "\<exists>b' cs' ms'. addOrder (sample_order 4 9 Sell 100 1) sample_book [] [] = Some (b', cs', ms')
    \<and> filter (\<lambda>x. r_price x = 100) (s_asks (abs_book b'))
      = filter (\<lambda>x. r_price x = 100) (s_asks (abs_book sample_book))
        @ (if unfilled (sample_order 4 9 Sell 100 1) (abs_book sample_book) = 0 then []
           else [residual (sample_order 4 9 Sell 100 1) (abs_book sample_book)])"
  using addOrder_joins_back [of sample_book "sample_order 4 9 Sell 100 1" "[]" "[]"]
  by (simp add: sample_book_ok sample_book_ids sample_order_def own_list_def)

text \<open>
  C20. Time priority of a modified order of its owner: a reduction below the recorded quantity
  at the same price leaves every order at its position on both sides; every other modification
  puts the order behind all other orders at its new price.
\<close>

theorem modifyOrder_priority:
  assumes "book_ok b" and "spec_find i (abs_book b) = Some r" and "r_trader r = t"
  shows "\<exists>b' cs' ms'. modifyOrder i t p q b cs ms = Some (b', cs', ms')
    \<and> (if r_price r = p \<and> q < r_recorded r
       then map r_id (s_bids (abs_book b')) = map r_id (s_bids (abs_book b))
          \<and> map r_id (s_asks (abs_book b')) = map r_id (s_asks (abs_book b))
       else filter (\<lambda>x. r_price x = p) (own_list (r_side r) (abs_book b'))
          = filter (\<lambda>x. r_price x = p \<and> r_id x \<noteq> i) (own_list (r_side r) (abs_book b))
            @ [r\<lparr>r_price := p, r_qty := q, r_recorded := q\<rparr>])"
  using modifyOrder_implements [OF assms(1), of i t p q cs ms] assms(2,3) shrink_keeps_ids [of i q "abs_book b"]
    move_behind [OF abs_book_spec_ok [OF assms(1)], of "r\<lparr>r_price := p, r_qty := q, r_recorded := q\<rparr>" i]
  by (auto simp: implements_def spec_modify_def)

theorem modifyOrder_priority_witness:
  "\<exists>b' cs' ms'. modifyOrder 1 7 100 12 sample_book [] [] = Some (b', cs', ms')
    \<and> filter (\<lambda>x. r_price x = 100) (own_list Sell (abs_book b'))
      = filter (\<lambda>x. r_price x = 100 \<and> r_id x \<noteq> 1) (own_list Sell (abs_book sample_book))
        @ [\<lparr>r_id = 1, r_trader = 7, r_side = Sell, r_price = 100, r_qty = 12, r_recorded = 12\<rparr>]"
proof -
  let ?r = "\<lparr>r_id = 1, r_trader = 7, r_side = Sell, r_price = 100, r_qty = 10, r_recorded = 10\<rparr>"
  have "spec_find 1 (abs_book sample_book) = Some ?r" by code_simp
  from modifyOrder_priority [OF sample_book_ok this, of 7 100 12 "[]" "[]"] show ?thesis by simp
qed

text \<open>
  C21. Only the owner can cancel or modify: for an id the book does not hold, or an order of
  another trader, both operations leave the book exactly as it is, emit no market data and one
  rejection addressed to the requester. The code reports \<^verbatim>\<open>UnknownOrder\<close> in both cases.
\<close>

theorem foreign_requests_rejected:
  assumes "book_ok b" and "owner b i \<noteq> Some t"
  shows "cancelOrder i t b cs ms = Some (b, cs @ [OrderConfirm Reject i 0 t (symbol b) 0 0 UnknownOrder], ms)
    \<and> modifyOrder i t p q b cs ms = Some (b, cs @ [OrderConfirm Reject i 0 t (symbol b) 0 0 UnknownOrder], ms)"
proof (cases "orderMap b i")
  case (Some a)
  obtain e where "elems b a = Some e" by (rule found_order [OF assms(1) Some])
  with Some assms(2) show ?thesis by (simp add: cancelOrder_def modifyOrder_def owner_def)
qed (simp add: cancelOrder_def modifyOrder_def)

theorem foreign_requests_rejected_witness:
  "cancelOrder 1 8 sample_book [] [] = Some (sample_book, [OrderConfirm Reject 1 0 8 (symbol sample_book) 0 0 UnknownOrder], [])"
proof -
  have "owner sample_book 1 \<noteq> Some 8" by code_simp
  from foreign_requests_rejected [OF sample_book_ok this, of "[]" "[]"] show ?thesis by simp
qed

section \<open>Cached level totals\<close>

text \<open>
  C35. What one matching step does to the cached total of its level: a partial fill and a
  self-trade cancellation change the total exactly as they change the resting quantity, but a
  complete fill removes the order only after its quantity has been set to zero, so the total
  keeps the filled quantity: the difference between the cached and the real total grows by
  exactly the quantity of the filled order (modulo \<open>2^32\<close>).
\<close>

theorem matchStep_total_drift:
  assumes "mOrders level = p # ps" and "distinct (mOrders level)" and "elems (ms_book x) p = Some e"
  shows "\<exists>level' x'. matchStep S req pr level x = Some (level', x') \<and>
    qty_drift (elems (ms_book x')) level' = qty_drift (elems (ms_book x)) level
      + (if el_traderId e \<noteq> m_traderId req \<and> el_quantity e \<le> remainingQty x then el_quantity e else 0)"
proof -
  have "matchStep S req pr level x \<noteq> None"
    using matchStep_self [OF assms(1,3), of req S pr] matchStep_fill [OF assms(1,3), of req S pr]
      matchStep_partial [OF assms(1,3), of req S pr] by fastforce
  with matchStep_drift [OF assms] show ?thesis by fast
qed

theorem matchStep_total_drift_witness:
  "\<exists>level' x'. matchStep Sell (sample_order 4 9 Buy 101 15) 100 \<lparr>mPrice = 100, mTotalQty = 30, mOrders = [0, 1]\<rparr>
      \<lparr>ms_book = sample_book, remainingQty = 15, confirmsOut = [], mdOut = []\<rparr> = Some (level', x')
    \<and> qty_drift (elems (ms_book x')) level' = 10"
proof -
  let ?l = "\<lparr>mPrice = 100, mTotalQty = 30, mOrders = [0, 1]\<rparr>"
  have "elems sample_book 0 = Some \<lparr>el_id = 1, el_traderId = 7, el_quantity = 10\<rparr>"
    "qty_drift (elems sample_book) ?l = 0" by code_simp+
  then show ?thesis
    using matchStep_total_drift [of ?l 0 "[1]" "\<lparr>ms_book = sample_book, remainingQty = 15, confirmsOut = [], mdOut = []\<rparr>"
        "\<lparr>el_id = 1, el_traderId = 7, el_quantity = 10\<rparr>" Sell "sample_order 4 9 Buy 101 15" 100]
    by (simp add: sample_order_def OrderRequest_init_def)
qed

text \<open>
  The overstated best quantity, end to end: in the sample book a buy order of 10 fills the
  first ask completely. Only the 20 units of the second ask still rest at price 100, but
  \<^verbatim>\<open>getBestAskQty\<close> reports 30.
\<close>

lemma best_ask_qty_overstated:
  "case addOrder (sample_order 4 9 Buy 101 10) sample_book [] [] of
     None \<Rightarrow> False
   | Some (b', cs', ms') \<Rightarrow>
       getBestAskQty b' = 30 \<and> map r_qty (s_asks (abs_book b')) = [20] \<and> getBestAskPrice b' = 100"
  by code_simp

text \<open>
  A ``reduction'' that increases an order and keeps its priority: the recorded quantity is
  not updated by fills. After 8 of the 10 units of order 1 are filled, setting its quantity to
  9 counts as a reduction, so the order grows from 2 to 9 units and stays ahead of order 2; the
  cached level total does not change.
\<close>

lemma modify_after_fill_grows_in_place:
  "case addOrder (sample_order 4 9 Buy 100 8) sample_book [] [] of
     None \<Rightarrow> False
   | Some (b1, _, _) \<Rightarrow>
       map (\<lambda>r. (r_id r, r_qty r)) (s_asks (abs_book b1)) = [(1, 2), (2, 20)] \<and>
       (case modifyOrder 1 7 100 9 b1 [] [] of
          None \<Rightarrow> False
        | Some (b2, _, _) \<Rightarrow>
            map (\<lambda>r. (r_id r, r_qty r)) (s_asks (abs_book b2)) = [(1, 9), (2, 20)]
            \<and> getBestAskQty b1 = 22 \<and> getBestAskQty b2 = 22)"
  by code_simp

end
