(* ===== verification/Protocol.thy ===== *)
theory Protocol
  imports Core_Types
begin

unbundle bit_operations_syntax

text \<open>
  \<^verbatim>\<open>net/include/protocol.hpp\<close>: the packed wire messages and the converters between them and
  the internal types. The programs copy these structs to and from byte arrays with
  \<^verbatim>\<open>memcpy\<close>, \<^verbatim>\<open>send\<close> and \<^verbatim>\<open>recv\<close>; with \<^verbatim>\<open>#pragma pack(push, 1)\<close> on a little-endian
  machine that is the field-by-field little-endian layout defined here by the \<open>encode\<close> and
  \<open>decode\<close> functions. A \<open>decode\<close> reads the bytes it needs from the front of its argument.

  The locale \<open>wire_codec\<close> states what a message type promises, \<open>wire_bijection\<close> extends it for
  those without a \<^verbatim>\<open>bool\<close> field; every message type is an interpretation. Messages are
  \<open>valid\<close> when their enumerations are represented canonically (a value that has an enumerator
  is that enumerator).
\<close>

section \<open>Little-endian integers\<close>

fun le_bytes :: "nat \<Rightarrow> 'a::len word \<Rightarrow> u8 list" where
  "le_bytes 0 w = []"
| "le_bytes (Suc n) w = ucast w # le_bytes n (drop_bit 8 w)"

fun le_word :: "u8 list \<Rightarrow> 'a::len word" where
  "le_word [] = 0"
| "le_word (b # bs) = ucast b OR push_bit 8 (le_word bs)"

definition field :: "nat \<Rightarrow> nat \<Rightarrow> u8 list \<Rightarrow> u8 list" where
  "field off n bs = take n (drop off bs)"

lemma length_le_bytes [simp]: "length (le_bytes n w) = n"
  by (induction n arbitrary: w) simp_all

lemma le_word_bytes: "le_word (le_bytes n w) = take_bit (8 * n) w"
proof (induction n arbitrary: w)
  case (Suc n)
  have "ucast (ucast w :: u8) OR push_bit 8 (take_bit (8 * n) (drop_bit 8 w)) = take_bit (8 * Suc n) w"
    by (rule bit_eqI) (auto simp: bit_simps)
  with Suc show ?case by simp
qed simp

lemma le_word_small: "bit (le_word bs :: 'a::len word) i \<Longrightarrow> i < 8 * length bs"
proof (induction bs arbitrary: i)
  case (Cons b bs)
  from Cons.prems have "i < 8 \<or> 8 \<le> i \<and> bit (le_word bs :: 'a word) (i - 8)"
    using bit_imp_le_length [of b i] by (auto simp: bit_simps)
  with Cons.IH [of "i - 8"] show ?case by auto
qed simp

lemma le_bytes_word:
  "8 * length bs \<le> LENGTH('a) \<Longrightarrow> n = length bs \<Longrightarrow> le_bytes n (le_word bs :: 'a::len word) = bs"
proof (induction bs arbitrary: n)
  case (Cons b bs)
  let ?w = "le_word bs :: 'a word"
  have "ucast (ucast b OR push_bit 8 ?w) = b"
    using Cons.prems(1) by (intro bit_eqI) (auto simp: bit_simps)
  moreover have "drop_bit 8 (ucast b OR push_bit 8 ?w) = ?w"
  proof (rule bit_eqI)
    fix i
    have "bit ?w i \<Longrightarrow> 8 + i < LENGTH('a)" using le_word_small [of bs i, where 'a = 'a] Cons.prems(1) by simp
    then show "bit (drop_bit 8 (ucast b OR push_bit 8 ?w)) i \<longleftrightarrow> bit ?w i"
      using bit_imp_le_length [of b "8 + i"] by (auto simp: bit_simps)
  qed
  ultimately show ?case using Cons by simp
qed simp

section \<open>Message types and headers\<close>

datatype MsgType =
    NewOrderRequest | ModifyOrderRequest | CancelOrderRequest | LoginRequest
  | NewOrderConfirm | ModifyOrderConfirm | CancelOrderConfirm | TradeConfirm | MsgReject | LoginResponse
  | MarketUpdate | MsgType_other u8

fun msg_type_byte :: "MsgType \<Rightarrow> u8" where
  "msg_type_byte NewOrderRequest = 1"
| "msg_type_byte ModifyOrderRequest = 2"
| "msg_type_byte CancelOrderRequest = 3"
| "msg_type_byte LoginRequest = 4"
| "msg_type_byte NewOrderConfirm = 10"
| "msg_type_byte ModifyOrderConfirm = 11"
| "msg_type_byte CancelOrderConfirm = 12"
| "msg_type_byte TradeConfirm = 13"
| "msg_type_byte MsgReject = 14"
| "msg_type_byte LoginResponse = 15"
| "msg_type_byte MarketUpdate = 20"
| "msg_type_byte (MsgType_other b) = b"

definition byte_msg_type :: "u8 \<Rightarrow> MsgType" where
  "byte_msg_type b =
     (if b = 1 then NewOrderRequest else if b = 2 then ModifyOrderRequest
      else if b = 3 then CancelOrderRequest else if b = 4 then LoginRequest
      else if b = 10 then NewOrderConfirm else if b = 11 then ModifyOrderConfirm
      else if b = 12 then CancelOrderConfirm else if b = 13 then TradeConfirm
      else if b = 14 then MsgReject else if b = 15 then LoginResponse
      else if b = 20 then MarketUpdate else MsgType_other b)"

record MsgHeader =
  header_length :: u16
  header_type :: MsgType

definition sizeof_MsgHeader :: nat where
  "sizeof_MsgHeader = 3"

definition encode_MsgHeader :: "MsgHeader \<Rightarrow> u8 list" where
  "encode_MsgHeader h = le_bytes 2 (header_length h) @ [msg_type_byte (header_type h)]"

definition decode_MsgHeader :: "u8 list \<Rightarrow> MsgHeader" where
  "decode_MsgHeader bs = \<lparr>header_length = le_word (field 0 2 bs), header_type = byte_msg_type (bs ! 2)\<rparr>"

definition valid_MsgHeader :: "MsgHeader \<Rightarrow> bool" where
  "valid_MsgHeader h \<longleftrightarrow> byte_msg_type (msg_type_byte (header_type h)) = header_type h"

text \<open>\<^verbatim>\<open>bool\<close> occupies one byte; the only values a \<^verbatim>\<open>bool\<close> writes are 0 and 1.\<close>

definition bool_byte :: "bool \<Rightarrow> u8" where
  "bool_byte b = (if b then 1 else 0)"

definition byte_bool :: "u8 \<Rightarrow> bool" where
  "byte_bool b \<longleftrightarrow> b \<noteq> 0"

section \<open>Message structs\<close>

record NewOrderRequestMsg =
  no_header :: MsgHeader
  no_clientOrderId :: OrderId
  no_symbolId :: SymbolId
  no_side :: Side
  no_price :: Price
  no_qty :: Quantity

definition sizeof_NewOrderRequestMsg :: nat where
  "sizeof_NewOrderRequestMsg = 24"

definition encode_NewOrderRequestMsg :: "NewOrderRequestMsg \<Rightarrow> u8 list" where
  "encode_NewOrderRequestMsg m =
     encode_MsgHeader (no_header m) @ le_bytes 8 (no_clientOrderId m) @
     le_bytes 4 (no_symbolId m) @ [side_byte (no_side m)] @ le_bytes 4 (no_price m) @
     le_bytes 4 (no_qty m)"

definition decode_NewOrderRequestMsg :: "u8 list \<Rightarrow> NewOrderRequestMsg" where
  "decode_NewOrderRequestMsg bs =
     \<lparr>no_header = decode_MsgHeader bs, no_clientOrderId = le_word (field 3 8 bs),
     no_symbolId = le_word (field 11 4 bs), no_side = byte_side (bs ! 15),
     no_price = le_word (field 16 4 bs), no_qty = le_word (field 20 4 bs)\<rparr>"

definition valid_NewOrderRequestMsg :: "NewOrderRequestMsg \<Rightarrow> bool" where
  "valid_NewOrderRequestMsg m \<longleftrightarrow> valid_MsgHeader (no_header m) \<and> byte_side (side_byte (no_side m)) = no_side m"

record ModifyOrderRequestMsg =
  mo_header :: MsgHeader
  mo_orderId :: OrderId
  mo_symbolId :: SymbolId
  mo_price :: Price
  mo_qty :: Quantity

definition sizeof_ModifyOrderRequestMsg :: nat where
  "sizeof_ModifyOrderRequestMsg = 23"

definition encode_ModifyOrderRequestMsg :: "ModifyOrderRequestMsg \<Rightarrow> u8 list" where
  "encode_ModifyOrderRequestMsg m =
     encode_MsgHeader (mo_header m) @ le_bytes 8 (mo_orderId m) @
     le_bytes 4 (mo_symbolId m) @ le_bytes 4 (mo_price m) @ le_bytes 4 (mo_qty m)"

definition decode_ModifyOrderRequestMsg :: "u8 list \<Rightarrow> ModifyOrderRequestMsg" where
  "decode_ModifyOrderRequestMsg bs =
     \<lparr>mo_header = decode_MsgHeader bs, mo_orderId = le_word (field 3 8 bs),
     mo_symbolId = le_word (field 11 4 bs), mo_price = le_word (field 15 4 bs),
     mo_qty = le_word (field 19 4 bs)\<rparr>"

definition valid_ModifyOrderRequestMsg :: "ModifyOrderRequestMsg \<Rightarrow> bool" where
  "valid_ModifyOrderRequestMsg m \<longleftrightarrow> valid_MsgHeader (mo_header m)"

record CancelOrderRequestMsg =
  co_header :: MsgHeader
  co_orderId :: OrderId
  co_symbolId :: SymbolId

definition sizeof_CancelOrderRequestMsg :: nat where
  "sizeof_CancelOrderRequestMsg = 15"

definition encode_CancelOrderRequestMsg :: "CancelOrderRequestMsg \<Rightarrow> u8 list" where
  "encode_CancelOrderRequestMsg m =
     encode_MsgHeader (co_header m) @ le_bytes 8 (co_orderId m) @ le_bytes 4 (co_symbolId m)"

definition decode_CancelOrderRequestMsg :: "u8 list \<Rightarrow> CancelOrderRequestMsg" where
  "decode_CancelOrderRequestMsg bs =
     \<lparr>co_header = decode_MsgHeader bs, co_orderId = le_word (field 3 8 bs),
     co_symbolId = le_word (field 11 4 bs)\<rparr>"

definition valid_CancelOrderRequestMsg :: "CancelOrderRequestMsg \<Rightarrow> bool" where
  "valid_CancelOrderRequestMsg m \<longleftrightarrow> valid_MsgHeader (co_header m)"

record LoginRequestMsg =
  lr_header :: MsgHeader
  lr_traderId :: TraderId

definition sizeof_LoginRequestMsg :: nat where
  "sizeof_LoginRequestMsg = 7"

definition encode_LoginRequestMsg :: "LoginRequestMsg \<Rightarrow> u8 list" where
  "encode_LoginRequestMsg m =
     encode_MsgHeader (lr_header m) @ le_bytes 4 (lr_traderId m)"

definition decode_LoginRequestMsg :: "u8 list \<Rightarrow> LoginRequestMsg" where
  "decode_LoginRequestMsg bs =
     \<lparr>lr_header = decode_MsgHeader bs, lr_traderId = le_word (field 3 4 bs)\<rparr>"

definition valid_LoginRequestMsg :: "LoginRequestMsg \<Rightarrow> bool" where
  "valid_LoginRequestMsg m \<longleftrightarrow> valid_MsgHeader (lr_header m)"

record NewOrderConfirmMsg =
  nc_header :: MsgHeader
  nc_clientOrderId :: OrderId
  nc_orderId :: OrderId

definition sizeof_NewOrderConfirmMsg :: nat where
  "sizeof_NewOrderConfirmMsg = 19"

definition encode_NewOrderConfirmMsg :: "NewOrderConfirmMsg \<Rightarrow> u8 list" where
  "encode_NewOrderConfirmMsg m =
     encode_MsgHeader (nc_header m) @ le_bytes 8 (nc_clientOrderId m) @
     le_bytes 8 (nc_orderId m)"

definition decode_NewOrderConfirmMsg :: "u8 list \<Rightarrow> NewOrderConfirmMsg" where
  "decode_NewOrderConfirmMsg bs =
     \<lparr>nc_header = decode_MsgHeader bs, nc_clientOrderId = le_word (field 3 8 bs),
     nc_orderId = le_word (field 11 8 bs)\<rparr>"

definition valid_NewOrderConfirmMsg :: "NewOrderConfirmMsg \<Rightarrow> bool" where
  "valid_NewOrderConfirmMsg m \<longleftrightarrow> valid_MsgHeader (nc_header m)"

record ModifyOrderConfirmMsg =
  mc_header :: MsgHeader
  mc_orderId :: OrderId

definition sizeof_ModifyOrderConfirmMsg :: nat where
  "sizeof_ModifyOrderConfirmMsg = 11"

definition encode_ModifyOrderConfirmMsg :: "ModifyOrderConfirmMsg \<Rightarrow> u8 list" where
  "encode_ModifyOrderConfirmMsg m =
     encode_MsgHeader (mc_header m) @ le_bytes 8 (mc_orderId m)"

definition decode_ModifyOrderConfirmMsg :: "u8 list \<Rightarrow> ModifyOrderConfirmMsg" where
  "decode_ModifyOrderConfirmMsg bs =
     \<lparr>mc_header = decode_MsgHeader bs, mc_orderId = le_word (field 3 8 bs)\<rparr>"

definition valid_ModifyOrderConfirmMsg :: "ModifyOrderConfirmMsg \<Rightarrow> bool" where
  "valid_ModifyOrderConfirmMsg m \<longleftrightarrow> valid_MsgHeader (mc_header m)"

record CancelOrderConfirmMsg =
  cc_header :: MsgHeader
  cc_orderId :: OrderId

definition sizeof_CancelOrderConfirmMsg :: nat where
  "sizeof_CancelOrderConfirmMsg = 11"

definition encode_CancelOrderConfirmMsg :: "CancelOrderConfirmMsg \<Rightarrow> u8 list" where
  "encode_CancelOrderConfirmMsg m =
     encode_MsgHeader (cc_header m) @ le_bytes 8 (cc_orderId m)"

definition decode_CancelOrderConfirmMsg :: "u8 list \<Rightarrow> CancelOrderConfirmMsg" where
  "decode_CancelOrderConfirmMsg bs =
     \<lparr>cc_header = decode_MsgHeader bs, cc_orderId = le_word (field 3 8 bs)\<rparr>"

definition valid_CancelOrderConfirmMsg :: "CancelOrderConfirmMsg \<Rightarrow> bool" where
  "valid_CancelOrderConfirmMsg m \<longleftrightarrow> valid_MsgHeader (cc_header m)"

record TradeConfirmMsg =
  tc_header :: MsgHeader
  tc_orderId :: OrderId
  tc_price :: Price
  tc_qty :: Quantity

definition sizeof_TradeConfirmMsg :: nat where
  "sizeof_TradeConfirmMsg = 19"

definition encode_TradeConfirmMsg :: "TradeConfirmMsg \<Rightarrow> u8 list" where
  "encode_TradeConfirmMsg m =
     encode_MsgHeader (tc_header m) @ le_bytes 8 (tc_orderId m) @ le_bytes 4 (tc_price m) @
     le_bytes 4 (tc_qty m)"

definition decode_TradeConfirmMsg :: "u8 list \<Rightarrow> TradeConfirmMsg" where
  "decode_TradeConfirmMsg bs =
     \<lparr>tc_header = decode_MsgHeader bs, tc_orderId = le_word (field 3 8 bs),
     tc_price = le_word (field 11 4 bs), tc_qty = le_word (field 15 4 bs)\<rparr>"

definition valid_TradeConfirmMsg :: "TradeConfirmMsg \<Rightarrow> bool" where
  "valid_TradeConfirmMsg m \<longleftrightarrow> valid_MsgHeader (tc_header m)"

record RejectMsg =
  rj_header :: MsgHeader
  rj_orderId :: OrderId
  rj_reason :: RejectReason

definition sizeof_RejectMsg :: nat where
  "sizeof_RejectMsg = 12"

definition encode_RejectMsg :: "RejectMsg \<Rightarrow> u8 list" where
  "encode_RejectMsg m =
     encode_MsgHeader (rj_header m) @ le_bytes 8 (rj_orderId m) @ [reason_byte (rj_reason m)]"

definition decode_RejectMsg :: "u8 list \<Rightarrow> RejectMsg" where
  "decode_RejectMsg bs =
     \<lparr>rj_header = decode_MsgHeader bs, rj_orderId = le_word (field 3 8 bs),
     rj_reason = byte_reason (bs ! 11)\<rparr>"

definition valid_RejectMsg :: "RejectMsg \<Rightarrow> bool" where
  "valid_RejectMsg m \<longleftrightarrow> valid_MsgHeader (rj_header m) \<and> byte_reason (reason_byte (rj_reason m)) = rj_reason m"

record LoginResponseMsg =
  lp_header :: MsgHeader
  lp_accepted :: bool

definition sizeof_LoginResponseMsg :: nat where
  "sizeof_LoginResponseMsg = 4"

definition encode_LoginResponseMsg :: "LoginResponseMsg \<Rightarrow> u8 list" where
  "encode_LoginResponseMsg m =
     encode_MsgHeader (lp_header m) @ [bool_byte (lp_accepted m)]"

definition decode_LoginResponseMsg :: "u8 list \<Rightarrow> LoginResponseMsg" where
  "decode_LoginResponseMsg bs =
     \<lparr>lp_header = decode_MsgHeader bs, lp_accepted = byte_bool (bs ! 3)\<rparr>"

definition valid_LoginResponseMsg :: "LoginResponseMsg \<Rightarrow> bool" where
  "valid_LoginResponseMsg m \<longleftrightarrow> valid_MsgHeader (lp_header m)"

record MarketUpdateMsg =
  mu_header :: MsgHeader
  mu_symbolId :: SymbolId
  mu_orderId :: OrderId
  mu_side :: Side
  mu_price :: Price
  mu_qty :: Quantity
  mu_updateType :: MdUpdateType

definition sizeof_MarketUpdateMsg :: nat where
  "sizeof_MarketUpdateMsg = 25"

definition encode_MarketUpdateMsg :: "MarketUpdateMsg \<Rightarrow> u8 list" where
  "encode_MarketUpdateMsg m =
     encode_MsgHeader (mu_header m) @ le_bytes 4 (mu_symbolId m) @
     le_bytes 8 (mu_orderId m) @ [side_byte (mu_side m)] @ le_bytes 4 (mu_price m) @
     le_bytes 4 (mu_qty m) @ [md_type_byte (mu_updateType m)]"

definition decode_MarketUpdateMsg :: "u8 list \<Rightarrow> MarketUpdateMsg" where
  "decode_MarketUpdateMsg bs =
     \<lparr>mu_header = decode_MsgHeader bs, mu_symbolId = le_word (field 3 4 bs),
     mu_orderId = le_word (field 7 8 bs), mu_side = byte_side (bs ! 15),
     mu_price = le_word (field 16 4 bs), mu_qty = le_word (field 20 4 bs),
     mu_updateType = byte_md_type (bs ! 24)\<rparr>"

definition valid_MarketUpdateMsg :: "MarketUpdateMsg \<Rightarrow> bool" where
  "valid_MarketUpdateMsg m \<longleftrightarrow> valid_MsgHeader (mu_header m) \<and> byte_side (side_byte (mu_side m)) = mu_side m \<and> byte_md_type (md_type_byte (mu_updateType m)) = mu_updateType m"

section \<open>Fields of a byte list\<close>

lemmas codec_defs [wire_simps] = encode_MsgHeader_def decode_MsgHeader_def sizeof_MsgHeader_def valid_MsgHeader_def bool_byte_def byte_bool_def
  encode_NewOrderRequestMsg_def decode_NewOrderRequestMsg_def sizeof_NewOrderRequestMsg_def valid_NewOrderRequestMsg_def
  encode_ModifyOrderRequestMsg_def decode_ModifyOrderRequestMsg_def sizeof_ModifyOrderRequestMsg_def valid_ModifyOrderRequestMsg_def
  encode_CancelOrderRequestMsg_def decode_CancelOrderRequestMsg_def sizeof_CancelOrderRequestMsg_def valid_CancelOrderRequestMsg_def
  encode_LoginRequestMsg_def decode_LoginRequestMsg_def sizeof_LoginRequestMsg_def valid_LoginRequestMsg_def
  encode_NewOrderConfirmMsg_def decode_NewOrderConfirmMsg_def sizeof_NewOrderConfirmMsg_def valid_NewOrderConfirmMsg_def
  encode_ModifyOrderConfirmMsg_def decode_ModifyOrderConfirmMsg_def sizeof_ModifyOrderConfirmMsg_def valid_ModifyOrderConfirmMsg_def
  encode_CancelOrderConfirmMsg_def decode_CancelOrderConfirmMsg_def sizeof_CancelOrderConfirmMsg_def valid_CancelOrderConfirmMsg_def
  encode_TradeConfirmMsg_def decode_TradeConfirmMsg_def sizeof_TradeConfirmMsg_def valid_TradeConfirmMsg_def
  encode_RejectMsg_def decode_RejectMsg_def sizeof_RejectMsg_def valid_RejectMsg_def
  encode_LoginResponseMsg_def decode_LoginResponseMsg_def sizeof_LoginResponseMsg_def valid_LoginResponseMsg_def
  encode_MarketUpdateMsg_def decode_MarketUpdateMsg_def sizeof_MarketUpdateMsg_def valid_MarketUpdateMsg_def


text \<open>Reading the fields of a concatenation, and rebuilding a byte list from its fields.\<close>

lemma le_word_whole [simp]: "LENGTH('a) = 8 * n \<Longrightarrow> le_word (le_bytes n w) = (w :: 'a::len word)"
  by (simp add: le_word_bytes take_bit_word_eq_self)

lemma le_bytes_field:
  "8 * n \<le> LENGTH('a) \<Longrightarrow> off + n \<le> length bs \<Longrightarrow> le_bytes n (le_word (field off n bs) :: 'a::len word) = field off n bs"
  by (rule le_bytes_word) (simp_all add: field_def)

lemma field_join: "p = off + n \<Longrightarrow> field off n bs @ field p m bs = field off (n + m) bs"
  by (simp add: field_def take_add add.commute [of off])

lemma field_cons: "p = Suc k \<Longrightarrow> k < length bs \<Longrightarrow> bs ! k # field p m bs = field k (Suc m) bs"
  by (simp add: field_def Cons_nth_drop_Suc [symmetric])

lemma field_single: "k < length bs \<Longrightarrow> [bs ! k] = field k 1 bs"
  by (simp add: field_def take_Suc_conv_app_nth hd_drop_conv_nth take_Suc)

lemma field_all: "length bs = n \<Longrightarrow> field 0 n bs = bs"
  by (simp add: field_def)

lemma msg_type_roundtrip [simp]: "msg_type_byte (byte_msg_type b) = b"
  by (simp add: byte_msg_type_def)

lemmas rebuild = le_bytes_field field_join field_cons field_single field_all

lemma decode_MsgHeader_encode: "valid_MsgHeader h \<Longrightarrow> decode_MsgHeader (encode_MsgHeader h) = h"
  by (simp add: wire_simps field_def nth_append)

lemma decode_MsgHeader_take: "decode_MsgHeader (take 3 bs) = decode_MsgHeader bs"
  by (simp add: decode_MsgHeader_def field_def)

section \<open>Contract of a message type\<close>

locale wire_codec =
  fixes encode :: "'m \<Rightarrow> u8 list" and decode :: "u8 list \<Rightarrow> 'm" and sz :: nat and valid :: "'m \<Rightarrow> bool"
    and header :: "'m \<Rightarrow> MsgHeader"
  assumes encode_length: "length (encode m) = sz"
    and decode_encode: "valid m \<Longrightarrow> decode (encode m @ rest) = m"
    and header_first: "take 3 (encode m @ rest) = encode_MsgHeader (header m)"
    and valid_header: "valid m \<Longrightarrow> valid_MsgHeader (header m)"
begin

lemma encode_inj: "valid m \<Longrightarrow> valid m' \<Longrightarrow> encode m = encode m' \<Longrightarrow> m = m'"
  using decode_encode [of m "[]"] decode_encode [of m' "[]"] by simp

text \<open>The header a receiver reads first is the header of the message.\<close>

lemma decode_header:
  assumes "valid m"
  shows "decode_MsgHeader (encode m @ rest) = header m"
proof -
  have "decode_MsgHeader (encode m @ rest) = decode_MsgHeader (take 3 (encode m @ rest))"
    by (rule decode_MsgHeader_take [symmetric])
  also have "\<dots> = header m"
    using valid_header [OF assms] unfolding header_first by (rule decode_MsgHeader_encode)
  finally show ?thesis .
qed

text \<open>A concatenation of two messages of one type is read back as the two messages.\<close>

lemma decode_next: "valid m' \<Longrightarrow> decode (drop sz (encode m @ encode m' @ rest)) = m'"
  using decode_encode by (simp add: encode_length)

end

locale wire_bijection = wire_codec +
  assumes encode_decode: "length bs = sz \<Longrightarrow> encode (decode bs) = bs"
    and decode_valid: "valid (decode bs)"
begin

lemma encode_onto: "length bs = sz \<Longrightarrow> \<exists>m. valid m \<and> encode m = bs"
  using encode_decode decode_valid by blast

end

interpretation new_order_msg: wire_codec encode_NewOrderRequestMsg decode_NewOrderRequestMsg sizeof_NewOrderRequestMsg valid_NewOrderRequestMsg no_header
  by unfold_locales (simp_all add: wire_simps field_def nth_append)

interpretation new_order_msg: wire_bijection encode_NewOrderRequestMsg decode_NewOrderRequestMsg sizeof_NewOrderRequestMsg valid_NewOrderRequestMsg no_header
  by unfold_locales (simp_all add: wire_simps rebuild)

interpretation modify_order_msg: wire_codec encode_ModifyOrderRequestMsg decode_ModifyOrderRequestMsg sizeof_ModifyOrderRequestMsg valid_ModifyOrderRequestMsg mo_header
  by unfold_locales (simp_all add: wire_simps field_def nth_append)

interpretation modify_order_msg: wire_bijection encode_ModifyOrderRequestMsg decode_ModifyOrderRequestMsg sizeof_ModifyOrderRequestMsg valid_ModifyOrderRequestMsg mo_header
  by unfold_locales (simp_all add: wire_simps rebuild)

interpretation cancel_order_msg: wire_codec encode_CancelOrderRequestMsg decode_CancelOrderRequestMsg sizeof_CancelOrderRequestMsg valid_CancelOrderRequestMsg co_header
  by unfold_locales (simp_all add: wire_simps field_def nth_append)

interpretation cancel_order_msg: wire_bijection encode_CancelOrderRequestMsg decode_CancelOrderRequestMsg sizeof_CancelOrderRequestMsg valid_CancelOrderRequestMsg co_header
  by unfold_locales (simp_all add: wire_simps rebuild)

interpretation login_request_msg: wire_codec encode_LoginRequestMsg decode_LoginRequestMsg sizeof_LoginRequestMsg valid_LoginRequestMsg lr_header
  by unfold_locales (simp_all add: wire_simps field_def nth_append)

interpretation login_request_msg: wire_bijection encode_LoginRequestMsg decode_LoginRequestMsg sizeof_LoginRequestMsg valid_LoginRequestMsg lr_header
  by unfold_locales (simp_all add: wire_simps rebuild)

interpretation new_confirm_msg: wire_codec encode_NewOrderConfirmMsg decode_NewOrderConfirmMsg sizeof_NewOrderConfirmMsg valid_NewOrderConfirmMsg nc_header
  by unfold_locales (simp_all add: wire_simps field_def nth_append)

interpretation new_confirm_msg: wire_bijection encode_NewOrderConfirmMsg decode_NewOrderConfirmMsg sizeof_NewOrderConfirmMsg valid_NewOrderConfirmMsg nc_header
  by unfold_locales (simp_all add: wire_simps rebuild)

interpretation modify_confirm_msg: wire_codec encode_ModifyOrderConfirmMsg decode_ModifyOrderConfirmMsg sizeof_ModifyOrderConfirmMsg valid_ModifyOrderConfirmMsg mc_header
  by unfold_locales (simp_all add: wire_simps field_def nth_append)

interpretation modify_confirm_msg: wire_bijection encode_ModifyOrderConfirmMsg decode_ModifyOrderConfirmMsg sizeof_ModifyOrderConfirmMsg valid_ModifyOrderConfirmMsg mc_header
  by unfold_locales (simp_all add: wire_simps rebuild)

interpretation cancel_confirm_msg: wire_codec encode_CancelOrderConfirmMsg decode_CancelOrderConfirmMsg sizeof_CancelOrderConfirmMsg valid_CancelOrderConfirmMsg cc_header
  by unfold_locales (simp_all add: wire_simps field_def nth_append)

interpretation cancel_confirm_msg: wire_bijection encode_CancelOrderConfirmMsg decode_CancelOrderConfirmMsg sizeof_CancelOrderConfirmMsg valid_CancelOrderConfirmMsg cc_header
  by unfold_locales (simp_all add: wire_simps rebuild)

interpretation trade_confirm_msg: wire_codec encode_TradeConfirmMsg decode_TradeConfirmMsg sizeof_TradeConfirmMsg valid_TradeConfirmMsg tc_header
  by unfold_locales (simp_all add: wire_simps field_def nth_append)

interpretation trade_confirm_msg: wire_bijection encode_TradeConfirmMsg decode_TradeConfirmMsg sizeof_TradeConfirmMsg valid_TradeConfirmMsg tc_header
  by unfold_locales (simp_all add: wire_simps rebuild)

interpretation reject_msg: wire_codec encode_RejectMsg decode_RejectMsg sizeof_RejectMsg valid_RejectMsg rj_header
  by unfold_locales (simp_all add: wire_simps field_def nth_append)

interpretation reject_msg: wire_bijection encode_RejectMsg decode_RejectMsg sizeof_RejectMsg valid_RejectMsg rj_header
  by unfold_locales (simp_all add: wire_simps rebuild)

interpretation login_response_msg: wire_codec encode_LoginResponseMsg decode_LoginResponseMsg sizeof_LoginResponseMsg valid_LoginResponseMsg lp_header
  by unfold_locales (simp_all add: wire_simps field_def nth_append)

interpretation market_update_msg: wire_codec encode_MarketUpdateMsg decode_MarketUpdateMsg sizeof_MarketUpdateMsg valid_MarketUpdateMsg mu_header
  by unfold_locales (simp_all add: wire_simps field_def nth_append)

interpretation market_update_msg: wire_bijection encode_MarketUpdateMsg decode_MarketUpdateMsg sizeof_MarketUpdateMsg valid_MarketUpdateMsg mu_header
  by unfold_locales (simp_all add: wire_simps rebuild)

section \<open>Converters\<close>

text \<open>The three overloads of \<^verbatim>\<open>toOrderRequest\<close>; \<open>now\<close> is the value of the steady clock.\<close>

definition toOrderRequest_new :: "Timestamp \<Rightarrow> NewOrderRequestMsg \<Rightarrow> TraderId \<Rightarrow> OrderRequest" where
  "toOrderRequest_new now msg traderId =
     OrderRequest_init\<lparr>m_clientOrderId := no_clientOrderId msg, m_price := no_price msg, m_timestamp := now,
       m_traderId := traderId, m_symbolId := no_symbolId msg, m_quantity := no_qty msg, m_side := no_side msg,
       m_requestType := New\<rparr>"

definition toOrderRequest_cancel :: "Timestamp \<Rightarrow> CancelOrderRequestMsg \<Rightarrow> TraderId \<Rightarrow> OrderRequest" where
  "toOrderRequest_cancel now msg traderId =
     OrderRequest_init\<lparr>m_orderId := co_orderId msg, m_timestamp := now, m_traderId := traderId,
       m_symbolId := co_symbolId msg, m_requestType := Cancel\<rparr>"

definition toOrderRequest_modify :: "Timestamp \<Rightarrow> ModifyOrderRequestMsg \<Rightarrow> TraderId \<Rightarrow> OrderRequest" where
  "toOrderRequest_modify now msg traderId =
     OrderRequest_init\<lparr>m_orderId := mo_orderId msg, m_timestamp := now, m_traderId := traderId,
       m_symbolId := mo_symbolId msg, m_price := mo_price msg, m_quantity := mo_qty msg, m_requestType := Modify\<rparr>"

definition toNewOrderConfirmMsg :: "OrderConfirm \<Rightarrow> NewOrderConfirmMsg" where
  "toNewOrderConfirmMsg confirm =
     \<lparr>nc_header = \<lparr>header_length = of_nat sizeof_NewOrderConfirmMsg, header_type = NewOrderConfirm\<rparr>,
      nc_clientOrderId = oc_clientOrderId confirm, nc_orderId = oc_orderId confirm\<rparr>"

definition toModifyOrderConfirmMsg :: "OrderConfirm \<Rightarrow> ModifyOrderConfirmMsg" where
  "toModifyOrderConfirmMsg confirm =
     \<lparr>mc_header = \<lparr>header_length = of_nat sizeof_ModifyOrderConfirmMsg, header_type = ModifyOrderConfirm\<rparr>,
      mc_orderId = oc_orderId confirm\<rparr>"

definition toCancelOrderConfirmMsg :: "OrderConfirm \<Rightarrow> CancelOrderConfirmMsg" where
  "toCancelOrderConfirmMsg confirm =
     \<lparr>cc_header = \<lparr>header_length = of_nat sizeof_CancelOrderConfirmMsg, header_type = CancelOrderConfirm\<rparr>,
      cc_orderId = oc_orderId confirm\<rparr>"

definition toTradeConfirmMsg :: "OrderConfirm \<Rightarrow> TradeConfirmMsg" where
  "toTradeConfirmMsg confirm =
     \<lparr>tc_header = \<lparr>header_length = of_nat sizeof_TradeConfirmMsg, header_type = TradeConfirm\<rparr>,
      tc_orderId = oc_orderId confirm, tc_price = oc_price confirm, tc_qty = oc_qty confirm\<rparr>"

definition toRejectMsg :: "OrderConfirm \<Rightarrow> RejectMsg" where
  "toRejectMsg confirm =
     \<lparr>rj_header = \<lparr>header_length = of_nat sizeof_RejectMsg, header_type = MsgReject\<rparr>,
      rj_orderId = oc_orderId confirm, rj_reason = oc_reason confirm\<rparr>"

definition toMarketUpdateMsg :: "MdUpdate \<Rightarrow> MarketUpdateMsg" where
  "toMarketUpdateMsg md =
     \<lparr>mu_header = \<lparr>header_length = of_nat sizeof_MarketUpdateMsg, header_type = MarketUpdate\<rparr>,
      mu_symbolId = md_symbolId md, mu_orderId = md_orderId md, mu_side = md_side md, mu_price = md_price md,
      mu_qty = md_qty md, mu_updateType = md_updateType md\<rparr>"

section \<open>Theorems\<close>

text \<open>
  C25. Requests survive the wire: each of the four request messages is read back from its bytes
  unchanged whatever follows it in the stream, occupies \<^verbatim>\<open>sizeof\<close> bytes, and every byte string
  of that size is the encoding of the message decoded from it.
\<close>

theorem request_codecs_roundtrip:
  assumes "valid_NewOrderRequestMsg n" "valid_ModifyOrderRequestMsg m" "valid_CancelOrderRequestMsg c"
    "valid_LoginRequestMsg l"
  shows "decode_NewOrderRequestMsg (encode_NewOrderRequestMsg n @ rest) = n
    \<and> decode_ModifyOrderRequestMsg (encode_ModifyOrderRequestMsg m @ rest) = m
    \<and> decode_CancelOrderRequestMsg (encode_CancelOrderRequestMsg c @ rest) = c
    \<and> decode_LoginRequestMsg (encode_LoginRequestMsg l @ rest) = l
    \<and> length (encode_NewOrderRequestMsg n) = sizeof_NewOrderRequestMsg
    \<and> length (encode_ModifyOrderRequestMsg m) = sizeof_ModifyOrderRequestMsg
    \<and> length (encode_CancelOrderRequestMsg c) = sizeof_CancelOrderRequestMsg
    \<and> length (encode_LoginRequestMsg l) = sizeof_LoginRequestMsg
    \<and> (length bs = sizeof_NewOrderRequestMsg \<longrightarrow> encode_NewOrderRequestMsg (decode_NewOrderRequestMsg bs) = bs)
    \<and> (length bs = sizeof_ModifyOrderRequestMsg \<longrightarrow> encode_ModifyOrderRequestMsg (decode_ModifyOrderRequestMsg bs) = bs)
    \<and> (length bs = sizeof_CancelOrderRequestMsg \<longrightarrow> encode_CancelOrderRequestMsg (decode_CancelOrderRequestMsg bs) = bs)
    \<and> (length bs = sizeof_LoginRequestMsg \<longrightarrow> encode_LoginRequestMsg (decode_LoginRequestMsg bs) = bs)"
  using assms
  by (simp add: new_order_msg.decode_encode modify_order_msg.decode_encode cancel_order_msg.decode_encode
      login_request_msg.decode_encode new_order_msg.encode_length modify_order_msg.encode_length
      cancel_order_msg.encode_length login_request_msg.encode_length new_order_msg.encode_decode
      modify_order_msg.encode_decode cancel_order_msg.encode_decode login_request_msg.encode_decode)

theorem request_codecs_roundtrip_witness:
  "decode_NewOrderRequestMsg (encode_NewOrderRequestMsg
     \<lparr>no_header = \<lparr>header_length = 24, header_type = NewOrderRequest\<rparr>, no_clientOrderId = 258, no_symbolId = 3,
      no_side = Sell, no_price = 70000, no_qty = 5\<rparr> @ [1, 2])
   = \<lparr>no_header = \<lparr>header_length = 24, header_type = NewOrderRequest\<rparr>, no_clientOrderId = 258, no_symbolId = 3,
      no_side = Sell, no_price = 70000, no_qty = 5\<rparr>"
proof -
  have v: "valid_NewOrderRequestMsg \<lparr>no_header = \<lparr>header_length = 24, header_type = NewOrderRequest\<rparr>, no_clientOrderId = 258,
      no_symbolId = 3, no_side = Sell, no_price = 70000, no_qty = 5\<rparr>" by code_simp
  from request_codecs_roundtrip [OF v modify_order_msg.decode_valid [of "[]"] cancel_order_msg.decode_valid [of "[]"]
      login_request_msg.decode_valid [of "[]"], of "[1, 2]"] show ?thesis by simp
qed

text \<open>
  Replies are framed correctly: for every confirmation and market data update the converter
  produces a message whose first three bytes carry the number of bytes that are sent and the
  message type that belongs to it.
\<close>

lemma reply_headers_correct:
  "decode_MsgHeader (encode_NewOrderConfirmMsg (toNewOrderConfirmMsg c)) =
      \<lparr>header_length = of_nat (length (encode_NewOrderConfirmMsg (toNewOrderConfirmMsg c))), header_type = NewOrderConfirm\<rparr>
   \<and> decode_MsgHeader (encode_ModifyOrderConfirmMsg (toModifyOrderConfirmMsg c)) =
      \<lparr>header_length = of_nat (length (encode_ModifyOrderConfirmMsg (toModifyOrderConfirmMsg c))), header_type = ModifyOrderConfirm\<rparr>
   \<and> decode_MsgHeader (encode_CancelOrderConfirmMsg (toCancelOrderConfirmMsg c)) =
      \<lparr>header_length = of_nat (length (encode_CancelOrderConfirmMsg (toCancelOrderConfirmMsg c))), header_type = CancelOrderConfirm\<rparr>
   \<and> decode_MsgHeader (encode_TradeConfirmMsg (toTradeConfirmMsg c)) =
      \<lparr>header_length = of_nat (length (encode_TradeConfirmMsg (toTradeConfirmMsg c))), header_type = TradeConfirm\<rparr>
   \<and> decode_MsgHeader (encode_RejectMsg (toRejectMsg c)) =
      \<lparr>header_length = of_nat (length (encode_RejectMsg (toRejectMsg c))), header_type = MsgReject\<rparr>
   \<and> decode_MsgHeader (encode_MarketUpdateMsg (toMarketUpdateMsg md)) =
      \<lparr>header_length = of_nat (length (encode_MarketUpdateMsg (toMarketUpdateMsg md))), header_type = MarketUpdate\<rparr>"
  by (simp add: wire_simps field_def nth_append toNewOrderConfirmMsg_def toModifyOrderConfirmMsg_def
      toCancelOrderConfirmMsg_def toTradeConfirmMsg_def toRejectMsg_def toMarketUpdateMsg_def byte_msg_type_def)

end
