(* ===== verification/Session_Manager.thy ===== *)
theory Session_Manager
  imports Core_Types "HOL-Library.AList"
begin

text \<open>
  \<^verbatim>\<open>src/session_manager.hpp\<close>: the registry of logged-in clients, shared by the accept, epoll
  and matching threads. Every method holds the mutex for its whole body, so each is one atomic
  operation on the two maps.

  \<open>sessions\<close> is the list of the nodes of the map, with distinct keys. The iteration order of
  \<^verbatim>\<open>std::unordered_map\<close> is unspecified; the theorems speak of \<open>getAllFds\<close> only through its
  set and its distinctness.

  \<^verbatim>\<open>getSession\<close> returns a pointer to the session object inside a node, which the event loop uses after
  the mutex has been released. The object lives from the insertion of its node to its \<^verbatim>\<open>erase\<close>, and a
  rehash does not move it. Every insertion of a node gets a number of its own (\<open>nextNode\<close>), and a pointer
  is the key and the number of the node it was taken from; \<open>deref\<close> of a pointer whose node has been
  erased is \<open>None\<close>, also when the map has a new node for the same key.
\<close>

section \<open>State and operations\<close>

record ClientSession =
  cs_fd :: int
  cs_traderId :: TraderId
  recvBuffer :: "u8 list"

record SessionManager =
  sessions :: "(int \<times> nat \<times> ClientSession) list"   \<comment> \<open>key, number of the node, object\<close>
  nextNode :: nat
  traderToFd :: "TraderId \<rightharpoonup> int"

datatype SessionPtr = Node (node_key: int) (node_number: nat)

definition SessionManager_new :: SessionManager where
  "SessionManager_new = \<lparr>sessions = [], nextNode = 0, traderToFd = Map.empty\<rparr>"

text \<open>\<^verbatim>\<open>operator[]\<close> inserts a node unless the key has one; the assignment writes the object.\<close>

definition sessions_add :: "int \<Rightarrow> TraderId \<Rightarrow> SessionManager \<Rightarrow> SessionManager" where
  "sessions_add fd traderId s =
     (let (n, next) = (case map_of (sessions s) fd of None \<Rightarrow> (nextNode s, Suc (nextNode s)) | Some (k, c) \<Rightarrow> (k, nextNode s))
      in s\<lparr>sessions := AList.update fd (n, \<lparr>cs_fd = fd, cs_traderId = traderId, recvBuffer = []\<rparr>) (sessions s),
           nextNode := next, traderToFd := (traderToFd s)(traderId \<mapsto> fd)\<rparr>)"

definition sessions_remove :: "int \<Rightarrow> SessionManager \<Rightarrow> SessionManager" where
  "sessions_remove fd s =
     (case map_of (sessions s) fd of
        None \<Rightarrow> s
      | Some (n, c) \<Rightarrow> s\<lparr>traderToFd := (traderToFd s)(cs_traderId c := None), sessions := AList.delete fd (sessions s)\<rparr>)"

text \<open>\<open>None\<close> is \<^verbatim>\<open>nullptr\<close>.\<close>

definition getSession :: "int \<Rightarrow> SessionManager \<Rightarrow> SessionPtr option" where
  "getSession fd s = map_option (\<lambda>(n, c). Node fd n) (map_of (sessions s) fd)"

definition deref :: "SessionPtr \<Rightarrow> SessionManager \<Rightarrow> ClientSession option" where
  "deref p s = (case map_of (sessions s) (node_key p) of
     None \<Rightarrow> None | Some (n, c) \<Rightarrow> if n = node_number p then Some c else None)"

definition getTraderId :: "int \<Rightarrow> SessionManager \<Rightarrow> TraderId" where
  "getTraderId fd s = (case map_of (sessions s) fd of None \<Rightarrow> 0 | Some (n, c) \<Rightarrow> cs_traderId c)"

definition getFd :: "TraderId \<Rightarrow> SessionManager \<Rightarrow> int" where
  "getFd i s = (case traderToFd s i of None \<Rightarrow> - 1 | Some fd \<Rightarrow> fd)"

definition getAllFds :: "SessionManager \<Rightarrow> int list" where
  "getAllFds s = map fst (sessions s)"

text \<open>Writing the receive buffer through a pointer; \<open>None\<close> is a write to a destroyed object.\<close>

definition setRecvBuffer :: "SessionPtr \<Rightarrow> u8 list \<Rightarrow> SessionManager \<Rightarrow> SessionManager option" where
  "setRecvBuffer p bs s = map_option (\<lambda>c.
     s\<lparr>sessions := AList.update (node_key p) (node_number p, c\<lparr>recvBuffer := bs\<rparr>) (sessions s)\<rparr>) (deref p s)"

text \<open>The object registered for a descriptor, and a registry with its buffer replaced.\<close>

definition session_at :: "int \<Rightarrow> SessionManager \<Rightarrow> ClientSession option" where
  "session_at fd s = map_option snd (map_of (sessions s) fd)"

definition with_buffer :: "int \<Rightarrow> u8 list \<Rightarrow> SessionManager \<Rightarrow> SessionManager" where
  "with_buffer fd bs s =
     (case map_of (sessions s) fd of
        None \<Rightarrow> s
      | Some (n, c) \<Rightarrow> s\<lparr>sessions := AList.update fd (n, c\<lparr>recvBuffer := bs\<rparr>) (sessions s)\<rparr>)"

section \<open>Invariant\<close>

text \<open>Keys are distinct, each session is filed under its own descriptor, descriptors are not
  negative, a trader's entry points at a session of that trader, and the numbers of the nodes have been
  handed out.\<close>

definition nodes_ok :: "SessionManager \<Rightarrow> bool" where
  "nodes_ok s \<longleftrightarrow> (\<forall>fd x. map_of (sessions s) fd = Some x \<longrightarrow> fst x < nextNode s)"

definition sessions_ok :: "SessionManager \<Rightarrow> bool" where
  "sessions_ok s \<longleftrightarrow>
     distinct (map fst (sessions s))
   \<and> (\<forall>fd c. session_at fd s = Some c \<longrightarrow> cs_fd c = fd \<and> 0 \<le> fd)
   \<and> (\<forall>t fd. traderToFd s t = Some fd \<longrightarrow> (\<exists>c. session_at fd s = Some c \<and> cs_traderId c = t))
   \<and> nodes_ok s"

text \<open>No trader is logged in twice: then every session is reachable through its trader.\<close>

definition one_session_each :: "SessionManager \<Rightarrow> bool" where
  "one_session_each s \<longleftrightarrow> (\<forall>fd c. session_at fd s = Some c \<longrightarrow> traderToFd s (cs_traderId c) = Some fd)"

section \<open>Lemmas\<close>

lemma nodes_add:
  "map_of (sessions (sessions_add fd t s)) = (map_of (sessions s))(fd \<mapsto>
     (case map_of (sessions s) fd of None \<Rightarrow> nextNode s | Some (k, c) \<Rightarrow> k, \<lparr>cs_fd = fd, cs_traderId = t, recvBuffer = []\<rparr>))"
  "nextNode (sessions_add fd t s) = (case map_of (sessions s) fd of None \<Rightarrow> Suc (nextNode s) | Some (k, c) \<Rightarrow> nextNode s)"
  by (auto simp: sessions_add_def update_conv' split: option.split prod.split)

lemma nodes_remove:
  "map_of (sessions (sessions_remove fd s)) = (map_of (sessions s))(fd := None)" "nextNode (sessions_remove fd s) = nextNode s"
  by (auto simp: sessions_remove_def delete_conv' fun_upd_idem split: option.split)

lemma nodes_buffer:
  "map_of (sessions (with_buffer fd bs s)) = (case map_of (sessions s) fd of None \<Rightarrow> map_of (sessions s)
     | Some (n, c) \<Rightarrow> (map_of (sessions s))(fd \<mapsto> (n, c\<lparr>recvBuffer := bs\<rparr>)))"
  "nextNode (with_buffer fd bs s) = nextNode s"
  by (auto simp: with_buffer_def update_conv' split: option.split)

lemma session_at_add [simp]:
  "session_at fd (sessions_add fd' t s) =
     (if fd = fd' then Some \<lparr>cs_fd = fd', cs_traderId = t, recvBuffer = []\<rparr> else session_at fd s)"
  by (simp add: session_at_def nodes_add)

lemma traderToFd_add [simp]: "traderToFd (sessions_add fd t s) = (traderToFd s)(t \<mapsto> fd)"
  by (simp add: sessions_add_def split: prod.split)

lemma session_at_remove [simp]:
  "session_at fd (sessions_remove fd' s) = (if fd = fd' then None else session_at fd s)"
  by (simp add: session_at_def nodes_remove)

lemma traderToFd_remove:
  "traderToFd (sessions_remove fd s) =
     (case session_at fd s of None \<Rightarrow> traderToFd s | Some c \<Rightarrow> (traderToFd s)(cs_traderId c := None))"
  by (auto simp: sessions_remove_def session_at_def split: option.splits)

lemma getAllFds_iff: "fd \<in> set (getAllFds s) \<longleftrightarrow> session_at fd s \<noteq> None"
  by (simp add: getAllFds_def session_at_def map_of_eq_None_iff)

lemma distinct_sessions:
  "distinct (map fst (sessions s)) \<Longrightarrow> distinct (map fst (sessions (sessions_add fd t s)))"
  "distinct (map fst (sessions s)) \<Longrightarrow> distinct (map fst (sessions (sessions_remove fd s)))"
  "distinct (map fst (sessions s)) \<Longrightarrow> distinct (map fst (sessions (with_buffer fd bs s)))"
  by (auto simp: sessions_add_def sessions_remove_def with_buffer_def distinct_update distinct_delete
      split: option.splits prod.splits)

lemma session_at_with_buffer:
  "session_at fd (with_buffer fd' bs s) =
     (if fd = fd' then map_option (recvBuffer_update (\<lambda>_. bs)) (session_at fd s) else session_at fd s)"
  by (auto simp: nodes_buffer session_at_def split: option.splits)

lemma with_buffer_twice: "with_buffer fd bs (with_buffer fd bs' s) = with_buffer fd bs s"
  by (auto simp: with_buffer_def update_conv' split: option.splits)

lemma traderToFd_with_buffer [simp]: "traderToFd (with_buffer fd bs s) = traderToFd s"
  by (simp add: with_buffer_def split: option.splits)

lemma nodes_ok_steps:
  assumes "nodes_ok s"
  shows "nodes_ok (sessions_add fd t s)" "nodes_ok (sessions_remove fd s)" "nodes_ok (with_buffer fd bs s)"
  using assms by (auto simp: nodes_ok_def nodes_add nodes_remove nodes_buffer less_Suc_eq split: option.splits if_splits)

lemma getTraderId_session: "getTraderId fd s = (case session_at fd s of None \<Rightarrow> 0 | Some c \<Rightarrow> cs_traderId c)"
  by (auto simp: getTraderId_def session_at_def split: option.split)

section \<open>Pointers\<close>

text \<open>A pointer that has just been obtained is valid, and reads and writes the registered object.\<close>

lemma getSession_None: "getSession fd s = None \<longleftrightarrow> session_at fd s = None"
  by (simp add: getSession_def session_at_def)

lemma getSession_Some:
  assumes "getSession fd s = Some p"
  shows "deref p s = session_at fd s" "setRecvBuffer p bs s = Some (with_buffer fd bs s)" "node_key p = fd" "session_at fd s \<noteq> None"
  using assms by (auto simp: getSession_def deref_def setRecvBuffer_def session_at_def with_buffer_def)

lemma getSession_buffer [simp]: "getSession fd (with_buffer fd' bs s) = getSession fd s"
  by (auto simp: getSession_def nodes_buffer split: option.splits)

text \<open>A pointer is only made invalid by the removal of its node, and then for ever: no later insertion
  gets its number.\<close>

definition dangling :: "SessionPtr \<Rightarrow> SessionManager \<Rightarrow> bool" where
  "dangling p s \<longleftrightarrow> deref p s = None \<and> node_number p < nextNode s"

lemma dangling_remove:
  assumes "nodes_ok s" "getSession fd s = Some p"
  shows "dangling p (sessions_remove fd s)"
proof -
  obtain n c where p: "map_of (sessions s) fd = Some (n, c)" "p = Node fd n" using assms(2) by (auto simp: getSession_def)
  have "n < nextNode s" using assms(1) p(1) unfolding nodes_ok_def by fastforce
  then show ?thesis by (simp add: dangling_def deref_def nodes_remove p(2))
qed

lemma dangling_for_ever:
  assumes "dangling p s"
  shows "dangling p (sessions_add fd t s)" "dangling p (sessions_remove fd s)" "dangling p (with_buffer fd bs s)"
  using assms
  by (auto simp: dangling_def deref_def nodes_add nodes_remove nodes_buffer split: option.splits if_splits)

lemma deref_kept:
  assumes "deref p s \<noteq> None"
  shows "fd \<noteq> node_key p \<Longrightarrow> deref p (sessions_remove fd s) \<noteq> None" "deref p (sessions_add fd t s) \<noteq> None"
    "deref p (with_buffer fd bs s) \<noteq> None"
  using assms by (auto simp: deref_def nodes_add nodes_remove nodes_buffer split: option.splits if_splits)

lemma deref_getSession: "deref p s \<noteq> None \<longleftrightarrow> getSession (node_key p) s = Some p"
  by (cases p) (auto simp: deref_def getSession_def split: option.splits if_splits)

lemma sessions_ok_new: "sessions_ok SessionManager_new"
  by (simp add: sessions_ok_def nodes_ok_def SessionManager_new_def session_at_def)

lemma sessions_ok_add:
  assumes "sessions_ok s" "0 \<le> fd" "session_at fd s = None"
  shows "sessions_ok (sessions_add fd t s)"
proof -
  have "\<exists>c. session_at fd' (sessions_add fd t s) = Some c \<and> cs_traderId c = t'"
    if "traderToFd (sessions_add fd t s) t' = Some fd'" for t' fd'
    using assms that unfolding sessions_ok_def by (cases "t' = t") (force split: if_splits)+
  then show ?thesis
    using assms(1,2) unfolding sessions_ok_def by (auto simp: distinct_sessions nodes_ok_steps split: if_splits)
qed

lemma sessions_ok_remove:
  assumes "sessions_ok s"
  shows "sessions_ok (sessions_remove fd s)"
proof -
  have "\<exists>c. session_at fd' (sessions_remove fd s) = Some c \<and> cs_traderId c = t"
    if "traderToFd (sessions_remove fd s) t = Some fd'" for t fd'
  proof -
    from that have t: "traderToFd s t = Some fd'" "\<forall>c. session_at fd s = Some c \<longrightarrow> cs_traderId c \<noteq> t"
      by (auto simp: traderToFd_remove split: option.splits if_splits)
    with assms obtain c where "session_at fd' s = Some c" "cs_traderId c = t" unfolding sessions_ok_def by blast
    with t(2) show ?thesis by auto
  qed
  with assms show ?thesis
    unfolding sessions_ok_def by (auto simp: distinct_sessions nodes_ok_steps split: if_splits)
qed

lemma sessions_ok_with_buffer: "sessions_ok s \<Longrightarrow> sessions_ok (with_buffer fd bs s)"
  by (fastforce simp: sessions_ok_def distinct_sessions session_at_with_buffer nodes_ok_steps split: if_splits)

lemma one_session_add:
  "one_session_each s \<Longrightarrow> traderToFd s t = None \<Longrightarrow> one_session_each (sessions_add fd t s)"
  by (auto simp: one_session_each_def)

lemma one_session_remove:
  assumes "one_session_each s"
  shows "one_session_each (sessions_remove fd s)"
  unfolding one_session_each_def
proof (intro allI impI)
  fix fd' c assume "session_at fd' (sessions_remove fd s) = Some c"
  then have c: "fd' \<noteq> fd" "session_at fd' s = Some c" by (auto split: if_splits)
  have "cs_traderId c0 \<noteq> cs_traderId c" if "session_at fd s = Some c0" for c0
    using assms that c unfolding one_session_each_def by (metis option.inject)
  with assms c show "traderToFd (sessions_remove fd s) (cs_traderId c) = Some fd'"
    by (auto simp: one_session_each_def traderToFd_remove split: option.splits)
qed

section \<open>Contract\<close>

text \<open>What the threads that send to clients rely on: the descriptor returned for a trader is
  the one of a registered session, a registration is visible at once, and removing a descriptor
  unregisters it for every lookup.\<close>

locale session_registry =
  fixes reg :: "int \<Rightarrow> TraderId \<Rightarrow> 's \<Rightarrow> 's" and unreg :: "int \<Rightarrow> 's \<Rightarrow> 's"
    and fd_of :: "TraderId \<Rightarrow> 's \<Rightarrow> int" and fds :: "'s \<Rightarrow> int list" and inv :: "'s \<Rightarrow> bool"
  assumes fds_distinct: "inv s \<Longrightarrow> distinct (fds s)"
    and fd_of_registered: "inv s \<Longrightarrow> 0 \<le> fd_of t s \<Longrightarrow> fd_of t s \<in> set (fds s)"
    and reg_inv: "inv s \<Longrightarrow> 0 \<le> fd \<Longrightarrow> fd \<notin> set (fds s) \<Longrightarrow> inv (reg fd t s)"
    and reg_lookup: "fd_of t (reg fd t s) = fd"
    and reg_fds: "set (fds (reg fd t s)) = insert fd (set (fds s))"
    and unreg_inv: "inv s \<Longrightarrow> inv (unreg fd s)"
    and unreg_fds: "set (fds (unreg fd s)) = set (fds s) - {fd}"
begin

lemma unregistered_never_used:
  assumes "inv s" "0 \<le> fd"
  shows "fd_of t (unreg fd s) \<noteq> fd"
proof
  assume eq: "fd_of t (unreg fd s) = fd"
  with fd_of_registered [OF unreg_inv [OF assms(1), of fd], of t] assms(2) have "fd \<in> set (fds (unreg fd s))" by simp
  then show False by (simp add: unreg_fds)
qed

end

lemma getFd_registered: "sessions_ok s \<Longrightarrow> 0 \<le> getFd t s \<Longrightarrow> getFd t s \<in> set (getAllFds s)"
  unfolding sessions_ok_def getAllFds_iff getFd_def by (cases "traderToFd s t") force+

lemma getAllFds_add: "set (getAllFds (sessions_add fd t s)) = insert fd (set (getAllFds s))"
  by (rule set_eqI) (simp add: getAllFds_iff)

lemma getAllFds_remove: "set (getAllFds (sessions_remove fd s)) = set (getAllFds s) - {fd}"
  by (rule set_eqI) (simp add: getAllFds_iff)

interpretation sm: session_registry sessions_add sessions_remove getFd getAllFds sessions_ok
proof unfold_locales
  show "sessions_ok s \<Longrightarrow> distinct (getAllFds s)" for s by (simp add: sessions_ok_def getAllFds_def)
  show "sessions_ok s \<Longrightarrow> 0 \<le> fd \<Longrightarrow> fd \<notin> set (getAllFds s) \<Longrightarrow> sessions_ok (sessions_add fd t s)" for s fd t
    by (rule sessions_ok_add) (simp_all add: getAllFds_iff)
  show "getFd t (sessions_add fd t s) = fd" for t fd s by (simp add: getFd_def)
qed (simp_all add: getFd_registered getAllFds_add getAllFds_remove sessions_ok_remove)

section \<open>Theorems\<close>

text \<open>A history of logins and disconnects.\<close>

datatype session_event = Login int TraderId | Disconnect int

fun session_run :: "session_event list \<Rightarrow> SessionManager \<Rightarrow> SessionManager" where
  "session_run [] s = s"
| "session_run (Login fd t # es) s = session_run es (sessions_add fd t s)"
| "session_run (Disconnect fd # es) s = session_run es (sessions_remove fd s)"

text \<open>The operating system hands out descriptors that are not negative and not in use; with
  \<open>once\<close>, traders also log in only while they are not logged in.\<close>

fun fair_history :: "bool \<Rightarrow> session_event list \<Rightarrow> SessionManager \<Rightarrow> bool" where
  "fair_history once [] s \<longleftrightarrow> True"
| "fair_history once (Login fd t # es) s \<longleftrightarrow>
     0 \<le> fd \<and> session_at fd s = None \<and> (once \<longrightarrow> traderToFd s t = None)
     \<and> fair_history once es (sessions_add fd t s)"
| "fair_history once (Disconnect fd # es) s \<longleftrightarrow> fair_history once es (sessions_remove fd s)"

lemma session_run_ok: "sessions_ok s \<Longrightarrow> fair_history once es s \<Longrightarrow> sessions_ok (session_run es s)"
  by (induction once es s rule: fair_history.induct) (auto simp: sessions_ok_add sessions_ok_remove)

lemma session_run_one: "one_session_each s \<Longrightarrow> fair_history True es s \<Longrightarrow> one_session_each (session_run es s)"
  by (induction "True" es s rule: fair_history.induct) (auto simp: one_session_add one_session_remove)

text \<open>Every descriptor found for a trader belongs to a session of that trader.\<close>

lemma getFd_owner:
  assumes "sessions_ok s" "0 \<le> getFd t s"
  shows "getTraderId (getFd t s) s = t"
proof -
  from assms(2) obtain fd where fd: "traderToFd s t = Some fd" by (cases "traderToFd s t") (auto simp: getFd_def)
  with assms(1) obtain c where "session_at fd s = Some c" "cs_traderId c = t" unfolding sessions_ok_def by blast
  with fd show ?thesis by (simp add: getFd_def getTraderId_session)
qed

text \<open>
  C26. Confirmations reach the connected clients they are for: after any history of logins on descriptors
  that were free and of disconnects, the descriptor that \<^verbatim>\<open>getFd\<close> returns for a trader is either -1
  or that of a registered session of exactly this trader, and the multicast list has no duplicates;
  and as long as no trader logs in a second time while still logged in, every registered session is
  found again through its trader.
\<close>

theorem getFd_correct:
  assumes "fair_history once es SessionManager_new" and "s = session_run es SessionManager_new"
  shows "(0 \<le> getFd t s \<longrightarrow> getTraderId (getFd t s) s = t \<and> getFd t s \<in> set (getAllFds s)) \<and> distinct (getAllFds s)
    \<and> (once \<longrightarrow> fd \<in> set (getAllFds s) \<longrightarrow> getFd (getTraderId fd s) s = fd)"
proof -
  have ok: "sessions_ok s" unfolding assms(2) by (rule session_run_ok [OF sessions_ok_new assms(1)])
  have "getFd (getTraderId fd s) s = fd" if once "fd \<in> set (getAllFds s)"
  proof -
    have "one_session_each SessionManager_new" by (simp add: one_session_each_def SessionManager_new_def session_at_def)
    then have "one_session_each s" unfolding assms(2) by (rule session_run_one) (use assms(1) that(1) in simp)
    with that(2) show ?thesis by (auto simp: one_session_each_def getAllFds_iff getTraderId_session getFd_def)
  qed
  with getFd_owner [OF ok] sm.fd_of_registered [OF ok] sm.fds_distinct [OF ok] show ?thesis by blast
qed

theorem getFd_correct_witness:
  "getTraderId (getFd 8 (session_run [Login 4 7, Login 5 8, Disconnect 4] SessionManager_new))
     (session_run [Login 4 7, Login 5 8, Disconnect 4] SessionManager_new) = 8
   \<and> getFd (getTraderId 5 (session_run [Login 4 7, Login 5 8, Disconnect 4] SessionManager_new))
     (session_run [Login 4 7, Login 5 8, Disconnect 4] SessionManager_new) = 5"
proof -
  have "fair_history True [Login 4 7, Login 5 8, Disconnect 4] SessionManager_new"
    "0 \<le> getFd 8 (session_run [Login 4 7, Login 5 8, Disconnect 4] SessionManager_new)"
    "5 \<in> set (getAllFds (session_run [Login 4 7, Login 5 8, Disconnect 4] SessionManager_new))" by code_simp+
  with getFd_correct [OF this(1) refl, of 8 5] show ?thesis by simp
qed

text \<open>
  The condition is needed: when trader 7 logs in on descriptor 5 while its session on
  descriptor 4 is still open, the disconnect of descriptor 4 erases the trader's entry, and
  the live session on descriptor 5 can no longer be addressed.
\<close>

lemma second_login_loses_session:
  "fair_history False [Login 4 7, Login 5 7, Disconnect 4] SessionManager_new
   \<and> getAllFds (session_run [Login 4 7, Login 5 7, Disconnect 4] SessionManager_new) = [5]
   \<and> getFd 7 (session_run [Login 4 7, Login 5 7, Disconnect 4] SessionManager_new) = - 1"
  by code_simp

end
