(* ===== verification/Market_State.thy ===== *)
theory Market_State
  imports Core_Types
begin

text \<open>
  \<^verbatim>\<open>src/market_state.hpp\<close>: the table of best prices and trade statistics that the matching
  thread writes and the terminal thread reads. Every method holds the mutex for its whole body.
\<close>

record InstrumentState =
  bestBid :: Price
  bestAsk :: Price
  bidVolume :: Quantity
  askVolume :: Quantity
  lastTradePrice :: Price
  lastTradeQty :: Quantity
  totalTradedVolume :: Quantity

definition InstrumentState_init :: InstrumentState where
  "InstrumentState_init =
     \<lparr>bestBid = 0, bestAsk = 0, bidVolume = 0, askVolume = 0, lastTradePrice = 0, lastTradeQty = 0,
      totalTradedVolume = 0\<rparr>"

type_synonym MarketState = "InstrumentState list"

definition MarketState_new :: MarketState where
  "MarketState_new = replicate MAX_INSTRUMENTS InstrumentState_init"

definition market_update :: "SymbolId \<Rightarrow> InstrumentState \<Rightarrow> MarketState \<Rightarrow> MarketState" where
  "market_update symbolId state m = (if unat symbolId < MAX_INSTRUMENTS then m[unat symbolId := state] else m)"

definition market_get :: "SymbolId \<Rightarrow> MarketState \<Rightarrow> InstrumentState" where
  "market_get symbolId m = (if unat symbolId < MAX_INSTRUMENTS then m ! unat symbolId else InstrumentState_init)"

definition market_snapshot :: "MarketState \<Rightarrow> InstrumentState list" where
  "market_snapshot m = m"

text \<open>The array has its fixed size.\<close>

definition market_ok :: "MarketState \<Rightarrow> bool" where
  "market_ok m \<longleftrightarrow> length m = MAX_INSTRUMENTS"

lemma market_ok_new [simp]: "market_ok MarketState_new"
  by (simp add: market_ok_def MarketState_new_def)

lemma market_ok_update [simp]: "market_ok (market_update s x m) = market_ok m"
  by (simp add: market_ok_def market_update_def)

text \<open>Contract of an indexed table with a fixed range, as the two threads use it.\<close>

locale bounded_table =
  fixes upd :: "'k \<Rightarrow> 'v \<Rightarrow> 't \<Rightarrow> 't" and lkp :: "'k \<Rightarrow> 't \<Rightarrow> 'v" and inv :: "'t \<Rightarrow> bool"
    and inside :: "'k \<Rightarrow> bool" and dflt :: 'v
  assumes upd_inv: "inv t \<Longrightarrow> inv (upd k v t)"
    and lkp_upd_same: "inv t \<Longrightarrow> inside k \<Longrightarrow> lkp k (upd k v t) = v"
    and lkp_upd_other: "inv t \<Longrightarrow> k \<noteq> k' \<Longrightarrow> lkp k (upd k' v t) = lkp k t"
    and upd_outside: "\<not> inside k \<Longrightarrow> upd k v t = t"
    and lkp_outside: "\<not> inside k \<Longrightarrow> lkp k t = dflt"
begin

lemma upd_twice: "inv t \<Longrightarrow> lkp k (upd k v (upd k w t)) = lkp k (upd k v t)"
  by (cases "inside k") (simp_all add: upd_inv lkp_upd_same upd_outside)

lemma upd_commute: "inv t \<Longrightarrow> k \<noteq> k' \<Longrightarrow> lkp j (upd k v (upd k' w t)) = lkp j (upd k' w (upd k v t))"
  by (cases "j = k"; cases "j = k'"; cases "inside j")
    (auto simp: upd_inv lkp_upd_same lkp_upd_other lkp_outside)

end

interpretation market: bounded_table market_update market_get market_ok "\<lambda>s. unat s < MAX_INSTRUMENTS" InstrumentState_init
  by unfold_locales (auto simp: market_update_def market_get_def market_ok_def nth_list_update word_unat_eq_iff)

end
