(* ===== verification/Spsc_Queue.thy ===== *)
theory Spsc_Queue
  imports Exchange_Prelude
begin

unbundle bit_operations_syntax

text \<open>
  \<^verbatim>\<open>containers/include/spsc_queue.hpp\<close>: the single-producer single-consumer ring buffer that
  carries framed messages from the epoll thread to the matching thread. Indices are 64-bit
  words (\<^verbatim>\<open>std::size_t\<close>); the capacity is the template parameter, passed to every operation.
  Accesses outside \<open>q_buffer\<close> give \<open>None\<close>.

  The sequential operations are shown to be a bounded FIFO of \<^verbatim>\<open>Capacity - 1\<close> elements (locale
  \<open>bounded_fifo\<close> and its interpretation). The concurrent use by one producer and one consumer is
  the subject of \<open>Spsc_Release_Acquire\<close>.
\<close>

section \<open>State and operations\<close>

record 'a SPSCQueue =
  q_head :: u64
  q_tail :: u64
  q_buffer :: "'a list"

text \<open>The two \<^verbatim>\<open>static_assert\<close>s.\<close>

definition valid_capacity :: "u64 \<Rightarrow> bool" where
  "valid_capacity Capacity \<longleftrightarrow> Capacity AND (Capacity - 1) = 0 \<and> 2 \<le> Capacity"

definition MASK :: "u64 \<Rightarrow> u64" where
  "MASK Capacity = Capacity - 1"

definition SPSCQueue_new :: "u64 \<Rightarrow> 'a \<Rightarrow> 'a SPSCQueue" where
  "SPSCQueue_new Capacity dflt = \<lparr>q_head = 0, q_tail = 0, q_buffer = replicate (unat Capacity) dflt\<rparr>"

definition try_push :: "u64 \<Rightarrow> 'a \<Rightarrow> 'a SPSCQueue \<Rightarrow> (bool \<times> 'a SPSCQueue) option" where
  "try_push Capacity item q =
     (let head = q_head q;
          next_head = (head + 1) AND MASK Capacity
      in if next_head = q_tail q then Some (False, q)
         else if unat head < length (q_buffer q)
         then Some (True, q\<lparr>q_buffer := (q_buffer q)[unat head := item], q_head := next_head\<rparr>)
         else None)"

definition try_pop :: "u64 \<Rightarrow> 'a SPSCQueue \<Rightarrow> ('a option \<times> 'a SPSCQueue) option" where
  "try_pop Capacity q =
     (let tail = q_tail q
      in if tail = q_head q then Some (None, q)
         else if unat tail < length (q_buffer q)
         then Some (Some (q_buffer q ! unat tail), q\<lparr>q_tail := (tail + 1) AND MASK Capacity\<rparr>)
         else None)"

text \<open>The spinning variants, for a thread that runs alone: \<open>None\<close> is undefined behaviour or
  spinning for ever.\<close>

partial_function (option) push :: "u64 \<Rightarrow> 'a \<Rightarrow> 'a SPSCQueue \<Rightarrow> 'a SPSCQueue option" where
  "push Capacity item q =
     Option.bind (try_push Capacity item q)
       (\<lambda>r. if fst r then Some (snd r) else push Capacity item (snd r))"

partial_function (option) pop :: "u64 \<Rightarrow> 'a SPSCQueue \<Rightarrow> ('a \<times> 'a SPSCQueue) option" where
  "pop Capacity q =
     Option.bind (try_pop Capacity q)
       (\<lambda>r. case fst r of Some x \<Rightarrow> Some (x, snd r) | None \<Rightarrow> pop Capacity (snd r))"

declare push.simps [code] pop.simps [code]

definition queue_empty :: "'a SPSCQueue \<Rightarrow> bool" where
  "queue_empty q \<longleftrightarrow> q_head q = q_tail q"

definition queue_full :: "u64 \<Rightarrow> 'a SPSCQueue \<Rightarrow> bool" where
  "queue_full Capacity q \<longleftrightarrow> (q_head q + 1) AND MASK Capacity = q_tail q"

definition queue_size :: "u64 \<Rightarrow> 'a SPSCQueue \<Rightarrow> u64" where
  "queue_size Capacity q = (q_head q - q_tail q) AND MASK Capacity"

definition queue_capacity :: "u64 \<Rightarrow> u64" where
  "queue_capacity Capacity = Capacity - 1"

section \<open>Invariant and abstraction\<close>

definition queue_ok :: "u64 \<Rightarrow> 'a SPSCQueue \<Rightarrow> bool" where
  "queue_ok Capacity q \<longleftrightarrow> valid_capacity Capacity \<and> q_head q < Capacity \<and> q_tail q < Capacity
     \<and> length (q_buffer q) = unat Capacity"

text \<open>The number of slots from the tail up to the head, going round.\<close>

definition ring_size :: "nat \<Rightarrow> nat \<Rightarrow> nat \<Rightarrow> nat" where
  "ring_size c h t = (if t \<le> h then h - t else h + c - t)"

text \<open>The queued elements, oldest first.\<close>

definition slot :: "u64 \<Rightarrow> 'a SPSCQueue \<Rightarrow> nat \<Rightarrow> nat" where
  "slot Capacity q i = (unat (q_tail q) + i) mod unat Capacity"

definition queue_list :: "u64 \<Rightarrow> 'a SPSCQueue \<Rightarrow> 'a list" where
  "queue_list Capacity q = map (\<lambda>i. q_buffer q ! slot Capacity q i)
     [0..<ring_size (unat Capacity) (unat (q_head q)) (unat (q_tail q))]"

section \<open>Powers of two\<close>

lemma and_pred_double: "(2 * a) AND (2 * b + 1) = 2 * (a AND b)" for a b :: nat
proof (rule bit_eqI)
  fix n
  show "bit ((2 * a) AND (2 * b + 1)) n \<longleftrightarrow> bit (2 * (a AND b)) n"
    unfolding bit_and_iff by (cases n) (simp_all add: bit_Suc bit_0 bit_and_iff)
qed

lemma power_of_two_nat: "0 < m \<Longrightarrow> m AND (m - 1) = 0 \<Longrightarrow> \<exists>k. m = 2 ^ k" for m :: nat
proof (induction m rule: less_induct)
  case (less m)
  show ?case
  proof (cases "even m")
    case True
    then obtain j where j: "m = 2 * j" by blast
    with less.prems have "0 < j" by simp
    then have "m - 1 = 2 * (j - 1) + 1" using j by simp
    with less.prems(2) j have "j AND (j - 1) = 0" using and_pred_double [of j "j - 1"] by simp
    with less.IH [of j] j \<open>0 < j\<close> obtain k where "j = 2 ^ k" by auto
    with j show ?thesis by (intro exI [of _ "Suc k"]) simp
  next
    case False
    then obtain j where j: "m = 2 * j + 1" by (auto elim: oddE)
    with less.prems(2) and_pred_double [of j j] have "2 * j = 0" by (simp add: and.commute)
    with j show ?thesis by (intro exI [of _ 0]) simp
  qed
qed

lemma queue_capacity_nat: "valid_capacity c \<Longrightarrow> unat (c - 1) = unat c - 1"
proof -
  assume "valid_capacity c"
  then have "1 \<le> c" by (auto simp: valid_capacity_def word_le_nat_alt)
  then show ?thesis by (simp add: unat_sub)
qed

lemma valid_capacity_power:
  assumes "valid_capacity c"
  obtains k where "0 < k" "k < 64" "c = 2 ^ k" "unat c = 2 ^ k" "MASK c = mask k"
proof -
  have c: "2 \<le> unat c" using assms by (simp add: valid_capacity_def word_le_nat_alt)
  have "unat c AND (unat c - 1) = 0"
    using assms queue_capacity_nat [OF assms] by (metis valid_capacity_def unat_0 unsigned_and_eq)
  with c power_of_two_nat [of "unat c"] obtain k where k: "unat c = 2 ^ k" by auto
  have "k < 64"
  proof (rule ccontr)
    assume "\<not> k < 64"
    then have "(2::nat) ^ 64 \<le> 2 ^ k" by (intro power_increasing) auto
    moreover have "unat c < 2 ^ 64" using unsigned_less [of c] by (rule order.strict_trans2) simp
    ultimately show False using k by simp
  qed
  moreover have "0 < k" using c k by (cases k) auto
  moreover have ck: "c = 2 ^ k" 
  proof -
    have "c = of_nat (unat c)" by simp
    then show ?thesis by (simp only: k of_nat_power of_nat_numeral)
  qed
  ultimately show ?thesis using k that by (simp add: MASK_def mask_eq_exp_minus_1)
qed

lemma unat_masked: "valid_capacity c \<Longrightarrow> unat (w AND MASK c) = unat w mod unat c"
proof (erule valid_capacity_power)
  fix k assume k: "unat c = 2 ^ k" "MASK c = mask k"
  have "unat (w AND mask k) = take_bit k (unat w)" by (simp flip: take_bit_eq_mask add: unsigned_take_bit_eq)
  with k show ?thesis by (simp add: take_bit_eq_mod)
qed

section \<open>Ring arithmetic\<close>

lemma succ_mod: "h < c \<Longrightarrow> Suc h mod c = (if Suc h = c then 0 else Suc h)" for h c :: nat
  by auto

lemma ring_size_less: "h < c \<Longrightarrow> t < c \<Longrightarrow> ring_size c h t < c"
  by (auto simp: ring_size_def)

lemma ring_size_zero: "h < c \<Longrightarrow> t < c \<Longrightarrow> ring_size c h t = 0 \<longleftrightarrow> t = h"
  by (auto simp: ring_size_def)

lemma ring_size_full: "h < c \<Longrightarrow> t < c \<Longrightarrow> ring_size c h t = c - Suc 0 \<longleftrightarrow> Suc h mod c = t"
  by (auto simp: ring_size_def succ_mod)

lemma ring_size_push:
  "h < c \<Longrightarrow> t < c \<Longrightarrow> Suc h mod c \<noteq> t \<Longrightarrow> ring_size c (Suc h mod c) t = Suc (ring_size c h t)"
  by (auto simp: ring_size_def succ_mod split: if_splits)

lemma ring_size_pop:
  "h < c \<Longrightarrow> t < c \<Longrightarrow> t \<noteq> h \<Longrightarrow> Suc (ring_size c h (Suc t mod c)) = ring_size c h t"
  by (auto simp: ring_size_def succ_mod split: if_splits)

lemma ring_head_slot: "h < c \<Longrightarrow> t < c \<Longrightarrow> (t + ring_size c h t) mod c = h"
  by (auto simp: ring_size_def)

lemma ring_slot_fresh:
  assumes "h < c" "t < c" "i < ring_size c h t"
  shows "(t + i) mod c \<noteq> h"
  using assms by (cases "t + i < c") (auto simp: ring_size_def le_mod_geq split: if_splits)

lemma ring_slot_shift: "(Suc t mod c + i) mod c = (t + Suc i) mod c" for t c i :: nat
  by (simp add: mod_add_left_eq)

text \<open>The words of a well-formed queue follow this arithmetic.\<close>

lemma queue_ok_bounds:
  assumes "queue_ok c q"
  shows "unat (q_head q) < unat c" "unat (q_tail q) < unat c" "length (q_buffer q) = unat c" "1 < unat c"
    "valid_capacity c"
  using assms by (auto simp: queue_ok_def valid_capacity_def word_less_nat_alt word_le_nat_alt)

lemma unat_next:
  assumes "valid_capacity c" "unat w < unat c"
  shows "unat ((w + 1) AND MASK c) = (unat w + 1) mod unat c"
proof -
  obtain k where k: "k < 64" "unat c = 2 ^ k" by (rule valid_capacity_power [OF assms(1)])
  then have "(2 :: nat) ^ k < 2 ^ 64" by (intro power_strict_increasing) auto
  with assms(2) k have "unat (w + 1) = unat w + 1" by (simp add: unat_word_ariths)
  then show ?thesis by (simp add: unat_masked [OF assms(1)])
qed

lemma unat_size:
  assumes "queue_ok c q"
  shows "unat (queue_size c q) = ring_size (unat c) (unat (q_head q)) (unat (q_tail q))"
proof -
  note b = queue_ok_bounds [OF assms]
  let ?h = "unat (q_head q)" and ?t = "unat (q_tail q)" and ?c = "unat c"
  obtain k where k: "k < 64" "?c = 2 ^ k" by (rule valid_capacity_power [OF b(5)])
  have dvd: "?c dvd 2 ^ 64" unfolding k(2) using k(1) by (intro le_imp_power_dvd) auto
  have "unat (q_head q - q_tail q) = (if ?t \<le> ?h then ?h - ?t else ?h + 2 ^ 64 - ?t)"
    by (simp add: unat_sub_if')
  moreover have "(?h + 2 ^ 64 - ?t) mod ?c = ?h + ?c - ?t" if "\<not> ?t \<le> ?h"
  proof -
    from dvd obtain m where m: "2 ^ 64 = ?c * m" by (elim dvdE)
    then have "m \<noteq> 0" by (intro notI) simp
    then obtain m' where "m = Suc m'" by (cases m) auto
    with m b that have "?h + 2 ^ 64 - ?t = ?c * m' + (?h + ?c - ?t)" by simp
    moreover have "?h + ?c - ?t < ?c" using that b by linarith
    ultimately show ?thesis by simp
  qed
  ultimately show ?thesis
    using b by (simp add: queue_size_def unat_masked ring_size_def)
qed

section \<open>The queue is a bounded FIFO\<close>

lemma length_queue_list:
  "length (queue_list c q) = ring_size (unat c) (unat (q_head q)) (unat (q_tail q))"
  by (simp add: queue_list_def)

lemma queue_full_iff:
  assumes "queue_ok c q"
  shows "(q_head q + 1) AND MASK c = q_tail q \<longleftrightarrow> length (queue_list c q) = unat c - 1"
  using queue_ok_bounds [OF assms]
  by (simp add: length_queue_list ring_size_full word_unat_eq_iff unat_next)

lemma queue_empty_iff:
  assumes "queue_ok c q"
  shows "q_tail q = q_head q \<longleftrightarrow> queue_list c q = []"
  using queue_ok_bounds [OF assms] length_queue_list
  by (metis length_0_conv ring_size_zero word_unat_eq_iff)

lemma try_push_full:
  "queue_ok c q \<Longrightarrow> length (queue_list c q) = unat c - 1 \<Longrightarrow> try_push c x q = Some (False, q)"
  by (simp add: try_push_def queue_full_iff)

text \<open>Writing the slot of the head leaves the queued elements alone.\<close>

lemma queue_list_write:
  assumes "queue_ok c q"
  shows "queue_list c (q\<lparr>q_buffer := (q_buffer q)[unat (q_head q) := x]\<rparr>) = queue_list c q"
proof -
  note b = queue_ok_bounds [OF assms]
  let ?q = "q\<lparr>q_buffer := (q_buffer q)[unat (q_head q) := x]\<rparr>"
  have "unat (q_head q) \<noteq> slot c q i" if "i < ring_size (unat c) (unat (q_head q)) (unat (q_tail q))" for i
    using ring_slot_fresh [OF b(1,2), of i] that by (auto simp: slot_def)
  moreover have "slot c ?q i = slot c q i" for i by (simp add: slot_def)
  ultimately show ?thesis by (auto simp: queue_list_def)
qed

lemma queue_ok_publish:
  assumes "queue_ok c q"
  shows "queue_ok c (q\<lparr>q_head := (q_head q + 1) AND MASK c\<rparr>)"
  using assms queue_ok_bounds [OF assms] by (simp add: queue_ok_def word_less_nat_alt unat_next)

text \<open>Advancing the head appends whatever its slot holds.\<close>

lemma queue_list_publish:
  assumes ok: "queue_ok c q" and room: "length (queue_list c q) \<noteq> unat c - 1"
  shows "queue_list c (q\<lparr>q_head := (q_head q + 1) AND MASK c\<rparr>) = queue_list c q @ [q_buffer q ! unat (q_head q)]"
proof -
  note b = queue_ok_bounds [OF ok]
  let ?q = "q\<lparr>q_head := (q_head q + 1) AND MASK c\<rparr>"
  let ?n = "ring_size (unat c) (unat (q_head q)) (unat (q_tail q))"
  have "ring_size (unat c) (unat (q_head ?q)) (unat (q_tail ?q)) = Suc ?n"
    using room b by (simp add: unat_next length_queue_list ring_size_full ring_size_push)
  moreover have "slot c q ?n = unat (q_head q)" using b by (simp add: slot_def ring_head_slot)
  moreover have "slot c ?q i = slot c q i" for i by (simp add: slot_def)
  ultimately show ?thesis by (simp add: queue_list_def)
qed

lemma try_push_room:
  assumes ok: "queue_ok c q" and room: "length (queue_list c q) \<noteq> unat c - 1"
  shows "\<exists>q'. try_push c x q = Some (True, q') \<and> queue_ok c q' \<and> queue_list c q' = queue_list c q @ [x]"
proof -
  note b = queue_ok_bounds [OF ok]
  let ?q = "q\<lparr>q_buffer := (q_buffer q)[unat (q_head q) := x]\<rparr>"
  have q: "queue_ok c ?q" "queue_list c ?q = queue_list c q"
    using ok queue_list_write [OF ok] by (simp_all add: queue_ok_def)
  then show ?thesis
    using queue_ok_publish [OF q(1)] queue_list_publish [OF q(1)] room b
    by (simp add: try_push_def queue_full_iff [OF ok] Let_def)
qed

lemma try_pop_empty: "queue_ok c q \<Longrightarrow> queue_list c q = [] \<Longrightarrow> try_pop c q = Some (None, q)"
  by (simp add: try_pop_def queue_empty_iff)

text \<open>Advancing the tail drops the oldest element, which is the one in the tail's slot.\<close>

lemma queue_release:
  assumes ok: "queue_ok c q" and ne: "queue_list c q \<noteq> []"
  shows "queue_ok c (q\<lparr>q_tail := (q_tail q + 1) AND MASK c\<rparr>)"
    "queue_list c q = q_buffer q ! unat (q_tail q) # queue_list c (q\<lparr>q_tail := (q_tail q + 1) AND MASK c\<rparr>)"
proof -
  note b = queue_ok_bounds [OF ok]
  let ?q = "q\<lparr>q_tail := (q_tail q + 1) AND MASK c\<rparr>"
  show ok': "queue_ok c ?q"
    using ok b by (simp add: queue_ok_def word_less_nat_alt unat_next)
  have size: "ring_size (unat c) (unat (q_head q)) (unat (q_tail q)) = Suc (ring_size (unat c) (unat (q_head ?q)) (unat (q_tail ?q)))"
    using ne b queue_empty_iff [OF ok] by (simp add: unat_next ring_size_pop word_unat_eq_iff)
  have "slot c q 0 = unat (q_tail q)" "slot c q (Suc i) = slot c ?q i" for i
    using b ring_slot_shift [of "unat (q_tail q)" "unat c" i] by (simp_all add: slot_def unat_next)
  then show "queue_list c q = q_buffer q ! unat (q_tail q) # queue_list c ?q"
    unfolding queue_list_def size upt_conv_Cons [OF zero_less_Suc] list.map map_Suc_upt [symmetric]
    by simp
qed

lemma try_pop_item:
  assumes "queue_ok c q" "queue_list c q = x # xs"
  shows "\<exists>q'. try_pop c q = Some (Some x, q') \<and> queue_ok c q' \<and> queue_list c q' = xs"
  using queue_release [OF assms(1)] queue_ok_bounds [OF assms(1)] queue_empty_iff [OF assms(1)] assms(2)
  by (simp add: try_pop_def Let_def)

section \<open>Contract\<close>

text \<open>A sequence of attempts to push and pop, with the accepted and the popped elements.\<close>

datatype 'a queue_op = Push 'a | Pop

fun queue_run ::
  "('a \<Rightarrow> 'q \<Rightarrow> (bool \<times> 'q) option) \<Rightarrow> ('q \<Rightarrow> ('a option \<times> 'q) option) \<Rightarrow> 'a queue_op list \<Rightarrow> 'q
    \<Rightarrow> ('a list \<times> 'a list \<times> 'q) option" where
  "queue_run psh pp [] q = Some ([], [], q)"
| "queue_run psh pp (Push x # ops) q = do {
     (ok, q1) \<leftarrow> psh x q;
     (ins, outs, q2) \<leftarrow> queue_run psh pp ops q1;
     Some (if ok then x # ins else ins, outs, q2)
   }"
| "queue_run psh pp (Pop # ops) q = do {
     (r, q1) \<leftarrow> pp q;
     (ins, outs, q2) \<leftarrow> queue_run psh pp ops q1;
     Some (ins, (case r of None \<Rightarrow> outs | Some x \<Rightarrow> x # outs), q2)
   }"

locale bounded_fifo =
  fixes psh :: "'a \<Rightarrow> 'q \<Rightarrow> (bool \<times> 'q) option" and pp :: "'q \<Rightarrow> ('a option \<times> 'q) option"
    and contents :: "'q \<Rightarrow> 'a list" and inv :: "'q \<Rightarrow> bool" and bound :: nat
  assumes bounded: "inv q \<Longrightarrow> length (contents q) \<le> bound"
    and push_full: "inv q \<Longrightarrow> length (contents q) = bound \<Longrightarrow> psh x q = Some (False, q)"
    and push_room: "inv q \<Longrightarrow> length (contents q) \<noteq> bound \<Longrightarrow>
      \<exists>q'. psh x q = Some (True, q') \<and> inv q' \<and> contents q' = contents q @ [x]"
    and pop_empty: "inv q \<Longrightarrow> contents q = [] \<Longrightarrow> pp q = Some (None, q)"
    and pop_item: "inv q \<Longrightarrow> contents q = x # xs \<Longrightarrow> \<exists>q'. pp q = Some (Some x, q') \<and> inv q' \<and> contents q' = xs"
begin

lemma push_total:
  assumes "inv q"
  obtains ok q' where "psh x q = Some (ok, q')" "inv q'" "contents q' = contents q @ (if ok then [x] else [])"
    "ok \<longleftrightarrow> length (contents q) \<noteq> bound"
  using push_full [OF assms, of x] push_room [OF assms, of x] assms
  by (cases "length (contents q) = bound") auto

lemma pop_total:
  assumes "inv q"
  obtains r q' where "pp q = Some (r, q')" "inv q'" "contents q = (case r of None \<Rightarrow> [] | Some x \<Rightarrow> [x]) @ contents q'"
  using pop_empty [OF assms] pop_item [OF assms] assms by (cases "contents q") auto

lemma run_fifo:
  "inv q \<Longrightarrow> \<exists>ins outs q'. queue_run psh pp ops q = Some (ins, outs, q') \<and> inv q' \<and> contents q @ ins = outs @ contents q'"
proof (induction ops arbitrary: q)
  case (Cons op ops)
  show ?case
  proof (cases op)
    case (Push x)
    obtain ok q1 where q1: "psh x q = Some (ok, q1)" "inv q1" "contents q1 = contents q @ (if ok then [x] else [])"
      by (rule push_total [OF Cons.prems])
    from Cons.IH [OF q1(2)] q1 Push show ?thesis by auto
  next
    case Pop
    obtain r q1 where q1: "pp q = Some (r, q1)" "inv q1" "contents q = (case r of None \<Rightarrow> [] | Some x \<Rightarrow> [x]) @ contents q1"
      by (rule pop_total [OF Cons.prems])
    from Cons.IH [OF q1(2)] q1 Pop show ?thesis by (auto split: option.splits)
  qed
qed simp

end

lemma queue_list_bound: "queue_ok c q \<Longrightarrow> length (queue_list c q) \<le> unat c - 1"
  using queue_ok_bounds [of c q] ring_size_less by (fastforce simp: length_queue_list)

interpretation spsc: bounded_fifo "try_push c" "try_pop c" "queue_list c" "queue_ok c" "unat c - 1" for c :: u64
  by unfold_locales (simp_all add: queue_list_bound [simplified] try_push_full try_push_room try_pop_empty try_pop_item)

lemma queue_new:
  assumes "valid_capacity c"
  shows "queue_ok c (SPSCQueue_new c d)" "queue_list c (SPSCQueue_new c d) = []"
proof -
  have "0 < c" using assms by (auto simp: valid_capacity_def word_le_nat_alt word_less_nat_alt)
  with assms show "queue_ok c (SPSCQueue_new c d)" by (simp add: queue_ok_def SPSCQueue_new_def)
  then show "queue_list c (SPSCQueue_new c d) = []"
    by (simp add: SPSCQueue_new_def flip: queue_empty_iff)
qed

lemma push_room:
  assumes "queue_ok c q" "length (queue_list c q) < unat c - 1"
  shows "\<exists>q'. push c x q = Some q' \<and> queue_ok c q' \<and> queue_list c q' = queue_list c q @ [x]"
  using spsc.push_room [OF assms(1), of x] assms(2) by (subst push.simps) fastforce

lemma pop_available:
  assumes "queue_ok c q" "queue_list c q = x # xs"
  shows "\<exists>q'. pop c q = Some (x, q') \<and> queue_ok c q' \<and> queue_list c q' = xs"
  using spsc.pop_item [OF assms] by (subst pop.simps) fastforce

section \<open>Sequential theorems\<close>

text \<open>
  C22. FIFO: whatever sequence of \<^verbatim>\<open>try_push\<close> and \<^verbatim>\<open>try_pop\<close> runs on a new queue of any
  admissible capacity, it never accesses memory outside the buffer, and the accepted elements
  are exactly the popped ones followed by those still queued, in order. At most
  \<^verbatim>\<open>Capacity - 1\<close> elements are queued.
\<close>

theorem queue_runs_are_fifo:
  assumes "valid_capacity c"
  shows "\<exists>ins outs q'. queue_run (try_push c) (try_pop c) ops (SPSCQueue_new c d) = Some (ins, outs, q')
    \<and> ins = outs @ queue_list c q' \<and> length (queue_list c q') \<le> unat (queue_capacity c)"
proof -
  have "unat (queue_capacity c) = unat c - 1"
    using assms by (metis (no_types) queue_capacity_def queue_capacity_nat)
  with spsc.run_fifo [OF queue_new(1) [OF assms], of ops d] queue_new(2) [OF assms, of d] show ?thesis
    using spsc.bounded by (auto simp del: One_nat_def)
qed

theorem queue_runs_are_fifo_witness:
  "\<exists>ins outs q'. queue_run (try_push 4) (try_pop 4) [Push 1, Push 2, Push 3, Push 4, Pop, Push 5] (SPSCQueue_new 4 (0 :: nat))
      = Some (ins, outs, q') \<and> ins = outs @ queue_list 4 q'"
proof -
  have "valid_capacity 4" by code_simp
  from queue_runs_are_fifo [OF this, of "[Push 1, Push 2, Push 3, Push 4, Pop, Push 5]" 0] show ?thesis by blast
qed

text \<open>
  C23. The observers tell the truth about what has gone through the queue: after any sequence of \<^verbatim>\<open>try_push\<close>
  and \<^verbatim>\<open>try_pop\<close> on a new queue, \<^verbatim>\<open>size()\<close> is the number of accepted elements that have not been popped,
  although it subtracts unsigned indices that may have wrapped; \<^verbatim>\<open>empty()\<close> holds exactly if all accepted
  elements have been popped and \<^verbatim>\<open>full()\<close> exactly if \<^verbatim>\<open>capacity()\<close>, that is \<^verbatim>\<open>Capacity - 1\<close>, elements have not;
  \<^verbatim>\<open>try_push\<close> fails exactly when full and \<^verbatim>\<open>try_pop\<close> exactly when empty, and then nothing changes;
  otherwise \<^verbatim>\<open>try_pop\<close> returns the oldest element not popped yet.
\<close>

theorem queue_observers_correct:
  assumes "valid_capacity c" and "queue_run (try_push c) (try_pop c) ops (SPSCQueue_new c d) = Some (ins, outs, q)"
  shows "length outs \<le> length ins \<and> unat (queue_size c q) = length ins - length outs
    \<and> (queue_empty q \<longleftrightarrow> length ins = length outs)
    \<and> (queue_full c q \<longleftrightarrow> length ins = length outs + unat (queue_capacity c)) \<and> unat (queue_capacity c) = unat c - 1
    \<and> (if queue_full c q then try_push c x q = Some (False, q) else \<exists>q'. try_push c x q = Some (True, q'))
    \<and> (if queue_empty q then try_pop c q = Some (None, q) else \<exists>q'. try_pop c q = Some (Some (ins ! length outs), q'))"
proof -
  have cap: "unat (queue_capacity c) = unat c - 1" using queue_capacity_nat [OF assms(1)] by (simp add: queue_capacity_def)
  have ok: "queue_ok c q" and ins: "ins = outs @ queue_list c q"
    using spsc.run_fifo [OF queue_new(1) [OF assms(1)], of ops d] queue_new(2) [OF assms(1), of d] assms(2) by auto
  have push: "if queue_full c q then try_push c x q = Some (False, q) else \<exists>q'. try_push c x q = Some (True, q')"
    using spsc.push_full [OF ok, of x] spsc.push_room [OF ok, of x] queue_full_iff [OF ok] by (auto simp: queue_full_def)
  have pop: "if queue_empty q then try_pop c q = Some (None, q) else \<exists>q'. try_pop c q = Some (Some (ins ! length outs), q')"
  proof (cases "queue_list c q")
    case Nil
    with spsc.pop_empty [OF ok] queue_empty_iff [OF ok] show ?thesis by (auto simp: queue_empty_def)
  next
    case (Cons y ys)
    with spsc.pop_item [OF ok Cons] queue_empty_iff [OF ok] ins show ?thesis by (auto simp: queue_empty_def)
  qed
  have "unat (queue_size c q) = length (queue_list c q)" by (simp add: unat_size [OF ok] length_queue_list)
  moreover have "queue_empty q \<longleftrightarrow> length (queue_list c q) = 0" using queue_empty_iff [OF ok] by (auto simp: queue_empty_def)
  moreover have "queue_full c q \<longleftrightarrow> length (queue_list c q) = unat c - 1" unfolding queue_full_def by (rule queue_full_iff [OF ok])
  moreover have "length ins = length outs + length (queue_list c q)" using ins by simp
  ultimately show ?thesis using push pop cap by (intro conjI) linarith+
qed

text \<open>Three elements fill a queue of capacity 4, the fourth is refused; two are popped and one is pushed, which
  wraps the head.\<close>

theorem queue_observers_correct_witness:
  "\<exists>q. queue_run (try_push 4) (try_pop 4) [Push 1, Push 2, Push 3, Push 4, Pop, Pop, Push 5] (SPSCQueue_new 4 (0 :: nat))
      = Some ([1, 2, 3, 5], [1, 2], q) \<and> q_head q = 0 \<and> q_tail q = 2
    \<and> unat (queue_size 4 q) = 2 \<and> \<not> queue_empty q \<and> \<not> queue_full 4 q
    \<and> (\<exists>q'. try_pop 4 q = Some (Some 3, q'))"
proof -
  let ?q = "\<lparr>q_head = 0, q_tail = 2, q_buffer = [1, 2, 3, 5]\<rparr> :: nat SPSCQueue"
  have v: "valid_capacity 4" by code_simp
  have run: "queue_run (try_push 4) (try_pop 4) [Push 1, Push 2, Push 3, Push 4, Pop, Pop, Push 5] (SPSCQueue_new 4 (0 :: nat))
      = Some ([1, 2, 3, 5], [1, 2], ?q)" by code_simp
  have len: "length [1, 2, 3, 5 :: nat] = 4" "length [1, 2 :: nat] = 2" "unat (4 :: u64) - 1 = 3" "[1, 2, 3, 5 :: nat] ! 2 = 3" by simp_all
  note correct = queue_observers_correct [OF v run, of 0, unfolded len]
  have "unat (queue_size 4 ?q) = 2" using correct by linarith
  moreover have "\<not> queue_empty ?q" using correct by linarith
  moreover have "\<not> queue_full 4 ?q" using correct by linarith
  moreover have "\<exists>q'. try_pop 4 ?q = Some (Some 3, q')" using correct \<open>\<not> queue_empty ?q\<close> by presburger
  moreover have "q_head ?q = 0" "q_tail ?q = 2" by simp_all
  ultimately show ?thesis using run by blast
qed

end
