(* ===== verification/Matching_Thread.thy ===== *)
theory Matching_Thread
  imports Book_Properties Protocol Session_Manager Market_State Spsc_Queue
begin

text \<open>
  \<^verbatim>\<open>src/thread_matching.cpp\<close>: the body of the matching thread. One iteration pops a raw
  message, parses it, calls the engine, sends the confirmations to their traders, multicasts
  the market data and updates the table for the terminal. What is written to sockets is
  recorded as a list of \<open>Send\<close> actions in order; the kernel's result of \<^verbatim>\<open>send\<close> is ignored
  by the source and absent here. The session registry is read through its methods and does
  not change during an iteration of the model; the clock value is a parameter.
\<close>

section \<open>Parsing\<close>

definition parseRequest :: "Timestamp \<Rightarrow> RawMessage \<Rightarrow> OrderRequest option" where
  "parseRequest now raw =
     (if unat (rm_length raw) < sizeof_MsgHeader then None
      else
        case header_type (decode_MsgHeader (rm_data raw)) of
          NewOrderRequest \<Rightarrow>
            if unat (rm_length raw) < sizeof_NewOrderRequestMsg then None
            else Some (toOrderRequest_new now (decode_NewOrderRequestMsg (rm_data raw)) (rm_traderId raw))
        | CancelOrderRequest \<Rightarrow>
            if unat (rm_length raw) < sizeof_CancelOrderRequestMsg then None
            else Some (toOrderRequest_cancel now (decode_CancelOrderRequestMsg (rm_data raw)) (rm_traderId raw))
        | ModifyOrderRequest \<Rightarrow>
            if unat (rm_length raw) < sizeof_ModifyOrderRequestMsg then None
            else Some (toOrderRequest_modify now (decode_ModifyOrderRequestMsg (rm_data raw)) (rm_traderId raw))
        | _ \<Rightarrow> None)"

section \<open>Dispatch to the engine\<close>

definition dispatch :: "OrderRequest \<Rightarrow> MatchingEngine \<Rightarrow> engine_result" where
  "dispatch req engine =
     (case m_requestType req of
        New \<Rightarrow> onOrder req engine [] []
      | Cancel \<Rightarrow> onCancel (m_orderId req) (m_symbolId req) (m_traderId req) engine [] []
      | Modify \<Rightarrow>
          onModify (m_orderId req) (m_symbolId req) (m_traderId req) (m_price req) (m_quantity req) engine [] [])"

section \<open>Replies\<close>

datatype action = Send (send_fd: int) (send_bytes: "u8 list")

fun confirm_bytes :: "OrderConfirm \<Rightarrow> u8 list" where
  "confirm_bytes confirm =
     (case oc_type confirm of
        NewAck \<Rightarrow> encode_NewOrderConfirmMsg (toNewOrderConfirmMsg confirm)
      | ModifyAck \<Rightarrow> encode_ModifyOrderConfirmMsg (toModifyOrderConfirmMsg confirm)
      | CancelAck \<Rightarrow> encode_CancelOrderConfirmMsg (toCancelOrderConfirmMsg confirm)
      | Trade \<Rightarrow> encode_TradeConfirmMsg (toTradeConfirmMsg confirm)
      | Reject \<Rightarrow> encode_RejectMsg (toRejectMsg confirm))"

fun sendConfirms :: "SessionManager \<Rightarrow> OrderConfirm list \<Rightarrow> action list" where
  "sendConfirms s [] = []"
| "sendConfirms s (confirm # confirms) =
     (let fd = getFd (oc_traderId confirm) s
      in if fd < 0 then sendConfirms s confirms
         else Send fd (confirm_bytes confirm) # sendConfirms s confirms)"

definition update_bytes :: "MdUpdate \<Rightarrow> u8 list" where
  "update_bytes md = encode_MarketUpdateMsg (toMarketUpdateMsg md)"

fun multicast :: "SessionManager \<Rightarrow> MdUpdate list \<Rightarrow> action list" where
  "multicast s [] = []"
| "multicast s (md # mdUpdates) = map (\<lambda>fd. Send fd (update_bytes md)) (getAllFds s) @ multicast s mdUpdates"

section \<open>Market state\<close>

fun applyTrades :: "OrderConfirm list \<Rightarrow> InstrumentState \<Rightarrow> InstrumentState" where
  "applyTrades [] state = state"
| "applyTrades (confirm # confirms) state =
     applyTrades confirms
       (if oc_type confirm = Trade
        then state\<lparr>lastTradePrice := oc_price confirm, lastTradeQty := oc_qty confirm,
                   totalTradedVolume := totalTradedVolume state + oc_qty confirm\<rparr>
        else state)"

definition updateMarket :: "SymbolId \<Rightarrow> OrderConfirm list \<Rightarrow> MatchingEngine \<Rightarrow> MarketState \<Rightarrow> MarketState" where
  "updateMarket symbolId confirms engine m =
     market_update symbolId
       ((applyTrades confirms (market_get symbolId m))
          \<lparr>bestBid := engine_getBestBidPrice symbolId engine, bidVolume := engine_getBestBidQty symbolId engine,
           bestAsk := engine_getBestAskPrice symbolId engine, askVolume := engine_getBestAskQty symbolId engine\<rparr>) m"

section \<open>The loop\<close>

record MatchingThread =
  engine :: MatchingEngine
  market :: MarketState

definition MatchingThread_init :: MatchingThread where
  "MatchingThread_init =
     \<lparr>engine = engine_initialize [0, 1, 2, 3, 4] MatchingEngine_new, market = MarketState_new\<rparr>"

text \<open>The loop body after a message has been popped.\<close>

definition handleRaw ::
  "Timestamp \<Rightarrow> SessionManager \<Rightarrow> RawMessage \<Rightarrow> MatchingThread \<Rightarrow> (MatchingThread \<times> action list) option" where
  "handleRaw now s raw th =
     (case parseRequest now raw of
        None \<Rightarrow> Some (th, [])
      | Some req \<Rightarrow> do {
          (engine', confirms, mdUpdates) \<leftarrow> dispatch req (engine th);
          Some (\<lparr>engine = engine', market = updateMarket (m_symbolId req) confirms engine' (market th)\<rparr>,
                sendConfirms s confirms @ multicast s mdUpdates)
        })"

definition RAW_CAPACITY :: u64 where
  "RAW_CAPACITY = 65536"

text \<open>One iteration of \<^verbatim>\<open>while (gRunning)\<close>.\<close>

definition matchingIteration ::
  "Timestamp \<Rightarrow> SessionManager \<Rightarrow> RawMessage SPSCQueue \<Rightarrow> MatchingThread
    \<Rightarrow> (RawMessage SPSCQueue \<times> MatchingThread \<times> action list) option" where
  "matchingIteration now s q th = do {
     (r, q') \<leftarrow> try_pop RAW_CAPACITY q;
     case r of
       None \<Rightarrow> Some (q', th, [])
     | Some raw \<Rightarrow> do {
         (th', acts) \<leftarrow> handleRaw now s raw th;
         Some (q', th', acts)
       }
   }"

text \<open>A run over the messages popped one after the other, each with the clock and the
  registry at that time.\<close>

fun matchingRun ::
  "(Timestamp \<times> SessionManager \<times> RawMessage) list \<Rightarrow> MatchingThread \<Rightarrow> (MatchingThread \<times> action list) option" where
  "matchingRun [] th = Some (th, [])"
| "matchingRun ((now, s, raw) # msgs) th = do {
     (th1, acts1) \<leftarrow> handleRaw now s raw th;
     (th2, acts2) \<leftarrow> matchingRun msgs th1;
     Some (th2, acts1 @ acts2)
   }"

section \<open>Safety of the thread\<close>

definition thread_ok :: "MatchingThread \<Rightarrow> bool" where
  "thread_ok th \<longleftrightarrow> engine_ok (engine th) \<and> market_ok (market th)"

lemma thread_ok_init: "thread_ok MatchingThread_init" "nextOrderId (engine MatchingThread_init) = 1"
  by (simp_all only: thread_ok_def MatchingThread_init_def engine_ok_new MatchingThread.simps market_ok_new)
    (simp_all add: MatchingEngine_new_def)

lemma dispatch_ok:
  assumes "engine_ok g" "nextOrderId g \<noteq> - 1"
  obtains g' cs ms where "dispatch req g = Some (g', cs, ms)" "engine_ok g'" "dom (books g') = dom (books g)"
    "nextOrderId g' = nextOrderId g + (if m_requestType req = New then 1 else 0)"
  using onOrder_ok [OF assms, of req "[]" "[]"]
    onCancel_ok [OF assms(1), of "m_orderId req" "m_symbolId req" "m_traderId req" "[]" "[]"]
    onModify_ok [OF assms(1), of "m_orderId req" "m_symbolId req" "m_traderId req" "m_price req" "m_quantity req" "[]" "[]"]
  by (cases "m_requestType req") (auto simp: dispatch_def)

lemma market_ok_updateMarket [simp]: "market_ok (updateMarket sy cs g m) = market_ok m"
  by (simp add: updateMarket_def)

lemma handleRaw_ok:
  assumes "thread_ok th" "nextOrderId (engine th) \<noteq> - 1"
  shows "\<exists>th' acts. handleRaw now s raw th = Some (th', acts) \<and> thread_ok th'
    \<and> dom (books (engine th')) = dom (books (engine th))
    \<and> nextOrderId (engine th') \<in> {nextOrderId (engine th), nextOrderId (engine th) + 1}"
proof (cases "parseRequest now raw")
  case (Some req)
  from assms have ok: "engine_ok (engine th)" by (simp add: thread_ok_def)
  obtain g' cs ms where "dispatch req (engine th) = Some (g', cs, ms)" "engine_ok g'" "dom (books g') = dom (books (engine th))"
    "nextOrderId g' = nextOrderId (engine th) + (if m_requestType req = New then 1 else 0)"
    by (rule dispatch_ok [OF ok assms(2)])
  with Some assms(1) show ?thesis by (auto simp: handleRaw_def thread_ok_def)
qed (use assms in \<open>simp add: handleRaw_def\<close>)

text \<open>One message, with ids left for \<open>n\<close> more.\<close>

lemma handleRaw_room:
  assumes "thread_ok th" "unat (nextOrderId (engine th)) + Suc n < 2 ^ 64"
  obtains th1 acts1 where "handleRaw now s raw th = Some (th1, acts1)" "thread_ok th1"
    "dom (books (engine th1)) = dom (books (engine th))" "unat (nextOrderId (engine th1)) + n < 2 ^ 64"
proof -
  have "unat (- 1 :: OrderId) = 2 ^ 64 - 1" by (simp add: unsigned_minus_1_eq_mask mask_eq_exp_minus_1)
  with assms(2) have room: "nextOrderId (engine th) \<noteq> - 1" by auto
  from handleRaw_ok [OF assms(1) room, of now s raw] obtain th1 acts1 where
    th1: "handleRaw now s raw th = Some (th1, acts1)" "thread_ok th1" "dom (books (engine th1)) = dom (books (engine th))"
    "nextOrderId (engine th1) \<in> {nextOrderId (engine th), nextOrderId (engine th) + 1}" by blast
  have "unat (nextOrderId (engine th) + 1) \<le> unat (nextOrderId (engine th)) + 1"
    by (simp add: unat_word_ariths)
  with th1(4) assms(2) have "unat (nextOrderId (engine th1)) + n < 2 ^ 64" by auto
  with that th1 show ?thesis by blast
qed

lemma matchingRun_ok:
  "thread_ok th \<Longrightarrow> unat (nextOrderId (engine th)) + length msgs < 2 ^ 64 \<Longrightarrow>
   \<exists>th' acts. matchingRun msgs th = Some (th', acts) \<and> thread_ok th' \<and> dom (books (engine th')) = dom (books (engine th))"
proof (induction msgs arbitrary: th)
  case (Cons x msgs)
  obtain now s raw where x: "x = (now, s, raw)" by (cases x)
  obtain th1 acts1 where th1: "handleRaw now s raw th = Some (th1, acts1)" "thread_ok th1"
    "dom (books (engine th1)) = dom (books (engine th))" "unat (nextOrderId (engine th1)) + length msgs < 2 ^ 64"
    by (rule handleRaw_room [OF Cons.prems(1)]) (use Cons.prems(2) in simp)
  from Cons.IH [OF th1(2,4)] th1 show ?case by (auto simp: x)
qed simp

section \<open>Delivery\<close>

lemma sendConfirms_to:
  assumes "0 \<le> fd"
  shows "filter (\<lambda>a. send_fd a = fd) (sendConfirms s cs)
       = map (\<lambda>c. Send fd (confirm_bytes c)) (filter (\<lambda>c. getFd (oc_traderId c) s = fd) cs)"
  using assms by (induction cs) (auto simp: Let_def simp del: confirm_bytes.simps)

lemma filter_distinct: "distinct xs \<Longrightarrow> x \<in> set xs \<Longrightarrow> filter (\<lambda>y. y = x) xs = [x]"
  by (induction xs) (auto simp: filter_empty_conv)

lemma multicast_to:
  assumes "distinct (getAllFds s)" "fd \<in> set (getAllFds s)"
  shows "filter (\<lambda>a. send_fd a = fd) (multicast s mds) = map (\<lambda>md. Send fd (update_bytes md)) mds"
proof (induction mds)
  case (Cons md mds)
  have "filter (\<lambda>a. send_fd a = fd) (map (\<lambda>fd. Send fd (update_bytes md)) (getAllFds s)) = [Send fd (update_bytes md)]"
    using filter_distinct [OF assms] by (simp add: filter_map comp_def)
  with Cons show ?case by simp
qed simp

lemma send_targets:
  assumes "sessions_ok s" "a \<in> set (sendConfirms s cs @ multicast s mds)"
  shows "send_fd a \<in> set (getAllFds s)"
proof -
  have "a \<in> set (sendConfirms s cs) \<Longrightarrow> send_fd a \<in> set (getAllFds s)"
    by (induction cs) (auto simp: Let_def not_less sm.fd_of_registered [OF assms(1)] simp del: confirm_bytes.simps split: if_splits)
  moreover have "a \<in> set (multicast s mds) \<Longrightarrow> send_fd a \<in> set (getAllFds s)"
    by (induction mds) auto
  ultimately show ?thesis using assms(2) by auto
qed

section \<open>Market table\<close>

lemma applyTrades_volume:
  "totalTradedVolume (applyTrades cs st) = totalTradedVolume st + of_nat (traded_quantity cs)"
  by (induction cs st rule: applyTrades.induct) (auto simp: algebra_simps)

lemma updateMarket_fields:
  assumes "market_ok m" "unat sy < MAX_INSTRUMENTS"
  shows "bestBid (market_get sy (updateMarket sy cs g m)) = engine_getBestBidPrice sy g"
    "bestAsk (market_get sy (updateMarket sy cs g m)) = engine_getBestAskPrice sy g"
    "bidVolume (market_get sy (updateMarket sy cs g m)) = engine_getBestBidQty sy g"
    "askVolume (market_get sy (updateMarket sy cs g m)) = engine_getBestAskQty sy g"
    "totalTradedVolume (market_get sy (updateMarket sy cs g m)) = totalTradedVolume (market_get sy m) + of_nat (traded_quantity cs)"
  using assms by (simp_all add: updateMarket_def market.lkp_upd_same applyTrades_volume)

lemma updateMarket_other:
  "market_ok m \<Longrightarrow> sy \<noteq> sy' \<Longrightarrow> market_get sy (updateMarket sy' cs g m) = market_get sy m"
  by (simp add: updateMarket_def market.lkp_upd_other)

section \<open>Theorems\<close>

text \<open>
  C27. The matching thread is safe: from its initial state it processes any sequence of fewer
  than \<open>2^64 - 1\<close> raw messages, whatever their bytes, without undefined behaviour; afterwards
  every book is well formed, filed under its symbol, and holds only ids already handed out; the
  five instruments are still the ones it started with.
\<close>

theorem matching_thread_safe:
  assumes "length msgs < 2 ^ 64 - 1"
  shows "\<exists>th' acts. matchingRun msgs MatchingThread_init = Some (th', acts) \<and> engine_ok (engine th')
    \<and> market_ok (market th') \<and> dom (books (engine th')) = {0, 1, 2, 3, 4}"
proof -
  have "dom (books (engine MatchingThread_init)) = {0, 1, 2, 3, 4}"
    by (auto simp: MatchingThread_init_def MatchingEngine_new_def split: if_splits)
  with matchingRun_ok [OF thread_ok_init(1), of msgs] thread_ok_init(2) assms show ?thesis
    by (auto simp: thread_ok_def)
qed

theorem matching_thread_safe_witness:
  "\<exists>th' acts. matchingRun [(0, SessionManager_new, RawMessage_init)] MatchingThread_init = Some (th', acts)
    \<and> engine_ok (engine th')"
  using matching_thread_safe [of "[(0, SessionManager_new, RawMessage_init)]"] by auto

text \<open>
  Requests are understood: a raw message that carries the bytes of a valid request with a
  length that covers it, whatever follows in the buffer, is parsed into the request the client
  wrote, attributed to the trader of the session and not to anything in the message.
\<close>

lemma parse_encoded_requests:
  assumes "valid_NewOrderRequestMsg n" "header_type (no_header n) = NewOrderRequest" "rm_data raw = encode_NewOrderRequestMsg n @ pad"
    "sizeof_NewOrderRequestMsg \<le> unat (rm_length raw)"
    and "valid_CancelOrderRequestMsg c" "header_type (co_header c) = CancelOrderRequest" "rm_data raw' = encode_CancelOrderRequestMsg c @ pad"
    "sizeof_CancelOrderRequestMsg \<le> unat (rm_length raw')"
    and "valid_ModifyOrderRequestMsg m" "header_type (mo_header m) = ModifyOrderRequest" "rm_data raw'' = encode_ModifyOrderRequestMsg m @ pad"
    "sizeof_ModifyOrderRequestMsg \<le> unat (rm_length raw'')"
  shows "parseRequest now raw = Some (toOrderRequest_new now n (rm_traderId raw))
    \<and> parseRequest now raw' = Some (toOrderRequest_cancel now c (rm_traderId raw'))
    \<and> parseRequest now raw'' = Some (toOrderRequest_modify now m (rm_traderId raw''))"
proof (intro conjI)
  show "parseRequest now raw = Some (toOrderRequest_new now n (rm_traderId raw))"
    using assms(1-4) by (simp add: parseRequest_def new_order_msg.decode_header new_order_msg.decode_encode
        sizeof_MsgHeader_def sizeof_NewOrderRequestMsg_def)
  show "parseRequest now raw' = Some (toOrderRequest_cancel now c (rm_traderId raw'))"
    using assms(5-8) by (simp add: parseRequest_def cancel_order_msg.decode_header cancel_order_msg.decode_encode
        sizeof_MsgHeader_def sizeof_CancelOrderRequestMsg_def)
  show "parseRequest now raw'' = Some (toOrderRequest_modify now m (rm_traderId raw''))"
    using assms(9-12) by (simp add: parseRequest_def modify_order_msg.decode_header modify_order_msg.decode_encode
        sizeof_MsgHeader_def sizeof_ModifyOrderRequestMsg_def)
qed

text \<open>Sample requests of trader 9: buy 10 of symbol 1 at price 50, cancel order 1.\<close>

definition sample_new :: NewOrderRequestMsg where
  "sample_new = \<lparr>no_header = \<lparr>header_length = 24, header_type = NewOrderRequest\<rparr>, no_clientOrderId = 77,
     no_symbolId = 1, no_side = Buy, no_price = 50, no_qty = 10\<rparr>"

definition sample_cancel :: CancelOrderRequestMsg where
  "sample_cancel = \<lparr>co_header = \<lparr>header_length = 15, header_type = CancelOrderRequest\<rparr>, co_orderId = 1, co_symbolId = 1\<rparr>"

definition sample_raw :: "u16 \<Rightarrow> u8 list \<Rightarrow> RawMessage" where
  "sample_raw n bs = \<lparr>rm_traderId = 9, rm_length = n, rm_data = bs @ [0, 0]\<rparr>"

text \<open>
  C29. Delivery: while a request is handled, a connected client receives exactly the
  confirmations addressed to the trader whose current descriptor it is, followed by all market
  data updates, each once and in the order the engine produced them; nothing is sent to a
  descriptor that is not registered.
\<close>

theorem delivery_correct:
  assumes "sessions_ok s" and "fd \<in> set (getAllFds s)" and "parseRequest now raw = Some req"
    and "dispatch req (engine th) = Some (engine', confirms, mdUpdates)"
  shows "\<exists>th' acts. handleRaw now s raw th = Some (th', acts)
    \<and> filter (\<lambda>a. send_fd a = fd) acts
      = map (\<lambda>c. Send fd (confirm_bytes c)) (filter (\<lambda>c. getFd (oc_traderId c) s = fd) confirms)
        @ map (\<lambda>md. Send fd (update_bytes md)) mdUpdates
    \<and> send_fd ` set acts \<subseteq> set (getAllFds s)"
proof -
  let ?acts = "sendConfirms s confirms @ multicast s mdUpdates"
  have "0 \<le> fd" using assms(1,2) by (auto simp: sessions_ok_def getAllFds_iff)
  then have "filter (\<lambda>a. send_fd a = fd) ?acts
      = map (\<lambda>c. Send fd (confirm_bytes c)) (filter (\<lambda>c. getFd (oc_traderId c) s = fd) confirms)
        @ map (\<lambda>md. Send fd (update_bytes md)) mdUpdates"
    by (simp add: sendConfirms_to multicast_to [OF sm.fds_distinct [OF assms(1)] assms(2)])
  moreover have "send_fd ` set ?acts \<subseteq> set (getAllFds s)"
    using send_targets [OF assms(1)] by blast
  ultimately show ?thesis
    using assms(3,4) by (simp add: handleRaw_def)
qed

theorem delivery_correct_witness:
  "\<exists>th' acts. handleRaw 5 (sessions_add 4 9 SessionManager_new) (sample_raw 15 (encode_CancelOrderRequestMsg sample_cancel))
      MatchingThread_init = Some (th', acts)
    \<and> filter (\<lambda>a. send_fd a = 4) acts = [Send 4 (confirm_bytes (OrderConfirm Reject 1 0 9 1 0 0 UnknownOrder))]"
proof -
  let ?s = "sessions_add 4 9 SessionManager_new" and ?raw = "sample_raw 15 (encode_CancelOrderRequestMsg sample_cancel)"
  let ?req = "toOrderRequest_cancel 5 sample_cancel 9" and ?cs = "[OrderConfirm Reject 1 0 9 1 0 0 UnknownOrder]"
  have ok: "sessions_ok ?s" by (rule sessions_ok_add [OF sessions_ok_new]) (simp_all add: SessionManager_new_def session_at_def)
  have "4 \<in> set (getAllFds ?s)" "getFd 9 ?s = 4" "parseRequest 5 ?raw = Some ?req" by code_simp+
  moreover have "\<exists>g. dispatch ?req (engine MatchingThread_init) = Some (g, ?cs, [])"
    by (simp add: dispatch_def toOrderRequest_cancel_def sample_cancel_def OrderRequest_init_def onCancel_def cancelOrder_def
        MatchingThread_init_def MatchingEngine_new_def OrderBook_new_def)
  ultimately show ?thesis
    using delivery_correct [OF ok, of 4 5 ?raw ?req MatchingThread_init _ ?cs "[]"] by fastforce
qed

text \<open>What handling a new order for a known instrument does to that instrument's book.\<close>

lemma handleRaw_new:
  assumes ok: "thread_ok th" and req: "parseRequest now raw = Some req" "m_requestType req = New"
    and b: "books (engine th) (m_symbolId req) = Some b"
  obtains th' acts b' cs' ms' where "handleRaw now s raw th = Some (th', acts)"
    "books (engine th') = (books (engine th))(m_symbolId req \<mapsto> b')"
    "market th' = updateMarket (m_symbolId req) cs' (engine th') (market th)"
    "2 * unat (m_quantity req) = traded_quantity cs' + 2 * resting_quantity b' (nextOrderId (engine th))"
proof -
  let ?req = "req\<lparr>m_orderId := nextOrderId (engine th)\<rparr>"
  have b_ok: "book_ok b" "\<forall>i\<in>dom (orderMap b). i < nextOrderId (engine th)"
    using ok b by (auto simp: thread_ok_def engine_ok_def books_inv_def book_ids_def)
  then have "orderMap b (m_orderId ?req) = None" by (cases "orderMap b (nextOrderId (engine th))") auto
  then obtain b' cs' ms' where add: "addOrder ?req b [] [] = Some (b', [] @ cs', [] @ ms')"
    "2 * unat (m_quantity ?req) = traded_quantity cs' + 2 * resting_quantity b' (m_orderId ?req)"
    by (rule addOrder_quantity [OF b_ok(1)])
  let ?g = "(engine th)\<lparr>nextOrderId := nextOrderId (engine th) + 1, books := (books (engine th))(m_symbolId req \<mapsto> b')\<rparr>"
  let ?th = "\<lparr>engine = ?g, market = updateMarket (m_symbolId req) cs' ?g (market th)\<rparr>"
  have "handleRaw now s raw th = Some (?th, sendConfirms s cs' @ multicast s ms')"
    using req b add(1) by (simp add: handleRaw_def dispatch_def onOrder_def Let_def)
  with add(2) show ?thesis by (intro that [of ?th _ b' cs']) simp_all
qed

text \<open>
  C34. The market table after a new order for a known instrument shows that instrument's book:
  best prices and the cached quantities are those of the book afterwards, and the entries of all
  other instruments are unchanged. The traded volume, however, grows by \<^emph>\<open>twice\<close> the executed
  quantity (modulo \<open>2^32\<close>), because both confirmations of a trade are added.
\<close>

theorem market_after_new_order:
  assumes "thread_ok th" and "parseRequest now raw = Some req" and "m_requestType req = New"
    and "books (engine th) (m_symbolId req) = Some b" and "unat (m_symbolId req) < MAX_INSTRUMENTS"
  shows "\<exists>th' acts b'. handleRaw now s raw th = Some (th', acts)
    \<and> books (engine th') (m_symbolId req) = Some b'
    \<and> bestBid (market_get (m_symbolId req) (market th')) = getBestBidPrice b'
    \<and> bestAsk (market_get (m_symbolId req) (market th')) = getBestAskPrice b'
    \<and> bidVolume (market_get (m_symbolId req) (market th')) = getBestBidQty b'
    \<and> askVolume (market_get (m_symbolId req) (market th')) = getBestAskQty b'
    \<and> totalTradedVolume (market_get (m_symbolId req) (market th'))
        = totalTradedVolume (market_get (m_symbolId req) (market th))
          + 2 * (m_quantity req - of_nat (resting_quantity b' (nextOrderId (engine th))))
    \<and> (\<forall>sy. sy \<noteq> m_symbolId req \<longrightarrow> market_get sy (market th') = market_get sy (market th))"
proof -
  obtain th' acts b' cs' where r: "handleRaw now s raw th = Some (th', acts)"
    "books (engine th') = (books (engine th))(m_symbolId req \<mapsto> b')"
    "market th' = updateMarket (m_symbolId req) cs' (engine th') (market th)"
    "2 * unat (m_quantity req) = traded_quantity cs' + 2 * resting_quantity b' (nextOrderId (engine th))"
    by (rule handleRaw_new [OF assms(1-4)])
  have m: "market_ok (market th)" using assms(1) by (simp add: thread_ok_def)
  have "of_nat (2 * unat (m_quantity req)) = (of_nat (traded_quantity cs' + 2 * resting_quantity b' (nextOrderId (engine th))) :: Quantity)"
    by (simp only: r(4))
  then have "(of_nat (traded_quantity cs') :: Quantity) = 2 * (m_quantity req - of_nat (resting_quantity b' (nextOrderId (engine th))))"
    by (simp add: algebra_simps)
  with r m assms(5) show ?thesis
    by (simp add: updateMarket_fields updateMarket_other engine_getBestBidPrice_def engine_getBestAskPrice_def
        engine_getBestBidQty_def engine_getBestAskQty_def)
qed

theorem market_after_new_order_witness:
  "\<exists>th' acts b'. handleRaw 5 SessionManager_new (sample_raw 24 (encode_NewOrderRequestMsg sample_new)) MatchingThread_init = Some (th', acts)
    \<and> books (engine th') 1 = Some b' \<and> bestBid (market_get 1 (market th')) = getBestBidPrice b'"
proof -
  let ?raw = "sample_raw 24 (encode_NewOrderRequestMsg sample_new)" and ?req = "toOrderRequest_new 5 sample_new 9"
  have "parseRequest 5 ?raw = Some ?req" "m_requestType ?req = New" "m_symbolId ?req = 1" by code_simp+
  moreover have "books (engine MatchingThread_init) 1 = Some (OrderBook_new 1)"
    by (simp add: MatchingThread_init_def MatchingEngine_new_def)
  ultimately show ?thesis
    using market_after_new_order [OF thread_ok_init(1), of 5 ?raw ?req "OrderBook_new 1" SessionManager_new]
    by (fastforce simp: MAX_INSTRUMENTS_def)
qed

text \<open>
  C39. A request for an instrument the engine does not have is dropped silently: no confirmation,
  no rejection and no market data is sent to anybody, no book changes, and a new order still
  consumes an order id.
\<close>

theorem unknown_symbol_dropped:
  assumes "parseRequest now raw = Some req" and "books (engine th) (m_symbolId req) = None"
  shows "\<exists>th'. handleRaw now s raw th = Some (th', []) \<and> books (engine th') = books (engine th)
    \<and> nextOrderId (engine th') = nextOrderId (engine th) + (if m_requestType req = New then 1 else 0)"
  using assms
  by (cases "m_requestType req") (simp_all add: handleRaw_def dispatch_def onOrder_def onCancel_def onModify_def Let_def)

theorem unknown_symbol_dropped_witness:
  "\<exists>th'. handleRaw 5 SessionManager_new (sample_raw 24 (encode_NewOrderRequestMsg (sample_new\<lparr>no_symbolId := 9\<rparr>))) MatchingThread_init
      = Some (th', []) \<and> nextOrderId (engine th') = 2"
proof -
  let ?m = "sample_new\<lparr>no_symbolId := 9\<rparr>"
  have "parseRequest 5 (sample_raw 24 (encode_NewOrderRequestMsg ?m)) = Some (toOrderRequest_new 5 ?m 9)"
    "m_symbolId (toOrderRequest_new 5 ?m 9) = 9" "m_requestType (toOrderRequest_new 5 ?m 9) = New" by code_simp+
  moreover have "books (engine MatchingThread_init) 9 = None" by (simp add: MatchingThread_init_def MatchingEngine_new_def)
  ultimately show ?thesis
    using unknown_symbol_dropped [of 5 _ "toOrderRequest_new 5 ?m 9" MatchingThread_init SessionManager_new] thread_ok_init(2)
    by fastforce
qed

end
