(* ===== verification/Fill_Ledger.thy ===== *)
theory Fill_Ledger
  imports Matching_Thread Book_Properties
begin

text \<open>
  The account of one order over a whole run of the engine: from the acknowledgement that sets its
  quantity on, what is traded and what rests add up to that quantity, until the order is modified or
  cancelled. The account is kept on the abstract book and carried to the engine by the refinement.
\<close>

section \<open>Accounts\<close>

text \<open>What the confirmations say about an order: the quantity traded, whether its quantity was set,
  whether it was cancelled by its trader or to prevent a self trade.\<close>

definition filled :: "OrderId \<Rightarrow> OrderConfirm list \<Rightarrow> nat" where
  "filled i cs = sum_list (map (\<lambda>c. if oc_type c = Trade \<and> oc_orderId c = i then unat (oc_qty c) else 0) cs)"

definition acked :: "OrderId \<Rightarrow> OrderConfirm list \<Rightarrow> bool" where
  "acked i cs \<longleftrightarrow> (\<exists>c\<in>set cs. oc_orderId c = i \<and> (oc_type c = NewAck \<or> oc_type c = ModifyAck))"

definition cancelled :: "OrderId \<Rightarrow> OrderConfirm list \<Rightarrow> bool" where
  "cancelled i cs \<longleftrightarrow> (\<exists>c\<in>set cs. oc_orderId c = i \<and> oc_type c = CancelAck)"

text \<open>The quantity resting under an id.\<close>

definition held_in :: "OrderId \<Rightarrow> Resting list \<Rightarrow> nat" where
  "held_in i rs = sum_list (map (\<lambda>r. if r_id r = i then unat (r_qty r) else 0) rs)"

definition held :: "OrderId \<Rightarrow> SpecBook \<Rightarrow> nat" where
  "held i B = held_in i (s_bids B) + held_in i (s_asks B)"

text \<open>From quantity \<open>a\<close> on, the confirmations \<open>cs\<close> leave \<open>b\<close>.\<close>

definition balance :: "OrderId \<Rightarrow> OrderConfirm list \<Rightarrow> nat \<Rightarrow> nat \<Rightarrow> bool" where
  "balance i cs a b \<longleftrightarrow> filled i cs + b \<le> a \<and> (\<not> cancelled i cs \<longrightarrow> filled i cs + b = a)"

lemma account_simps [simp]:
  "filled i [] = 0" "filled i (c # cs) = (if oc_type c = Trade \<and> oc_orderId c = i then unat (oc_qty c) else 0) + filled i cs"
  "filled i (cs @ ds) = filled i cs + filled i ds"
  "\<not> acked i []" "acked i (c # cs) \<longleftrightarrow> oc_orderId c = i \<and> (oc_type c = NewAck \<or> oc_type c = ModifyAck) \<or> acked i cs"
  "acked i (cs @ ds) \<longleftrightarrow> acked i cs \<or> acked i ds"
  "\<not> cancelled i []" "cancelled i (c # cs) \<longleftrightarrow> oc_orderId c = i \<and> oc_type c = CancelAck \<or> cancelled i cs"
  "cancelled i (cs @ ds) \<longleftrightarrow> cancelled i cs \<or> cancelled i ds"
  by (auto simp: filled_def acked_def cancelled_def)

lemma held_in_simps [simp]:
  "held_in i [] = 0" "held_in i (r # rs) = (if r_id r = i then unat (r_qty r) else 0) + held_in i rs"
  by (simp_all add: held_in_def)

lemma balance_trans: "balance i cs a b \<Longrightarrow> balance i ds b c \<Longrightarrow> balance i (cs @ ds) a c"
  by (auto simp: balance_def)

lemma balance_refl: "balance i [] a a"
  by (simp add: balance_def)

section \<open>Operations of the abstract book\<close>

text \<open>The part of the account of \<open>i\<close> in the events of a match in which \<open>i\<close> rests.\<close>

fun event_filled :: "OrderId \<Rightarrow> match_event \<Rightarrow> nat" where
  "event_filled i (Fill r t) = (if r_id r = i then unat t else 0)"
| "event_filled i (SelfCancel r) = 0"

fun event_cancels :: "OrderId \<Rightarrow> match_event \<Rightarrow> bool" where
  "event_cancels i (Fill r t) \<longleftrightarrow> False"
| "event_cancels i (SelfCancel r) \<longleftrightarrow> r_id r = i"

lemma match_balance:
  "spec_match req rem rs = (rs', rem', evs) \<Longrightarrow>
     sum_list (map (event_filled i) evs) + held_in i rs' \<le> held_in i rs
   \<and> (\<not> list_ex (event_cancels i) evs \<longrightarrow> sum_list (map (event_filled i) evs) + held_in i rs' = held_in i rs)"
proof (induction req rem rs arbitrary: rs' rem' evs rule: spec_match.induct)
  case (2 req rem r rs)
  have "unat rem \<le> unat (r_qty r) \<and> unat (r_qty r - rem) = unat (r_qty r) - unat rem" if "\<not> r_qty r \<le> rem"
    using that by (auto simp: unat_sub word_le_nat_alt)
  with 2 show ?case by (auto split: if_splits prod.splits)
qed simp

lemma event_account:
  "filled i (concat (map (event_confirms s req) evs))
     = sum_list (map (event_filled i) evs) + (if m_orderId req = i then sum_list (map event_fill evs) else 0)
   \<and> (cancelled i (concat (map (event_confirms s req) evs)) \<longleftrightarrow> list_ex (event_cancels i) evs)
   \<and> \<not> acked i (concat (map (event_confirms s req) evs))"
proof (induction evs)
  case (Cons ev evs)
  then show ?case by (cases ev) auto
qed simp

lemma held_in_insert [simp]: "held_in i (spec_insert lt r rs) = held_in i (r # rs)"
  by (induction rs) auto

lemma held_place: "held i (spec_place r B) = held i B + (if r_id r = i then unat (r_qty r) else 0)"
  by (simp add: held_def spec_place_def)

lemma held_in_filter: "held_in i (filter (\<lambda>r. r_id r \<noteq> j) rs) = (if i = j then 0 else held_in i rs)"
  by (induction rs) auto

lemma held_remove: "held i (spec_remove j B) = (if i = j then 0 else held i B)"
  by (simp add: held_def spec_remove_def held_in_filter)

lemma held_in_absent: "i \<notin> r_id ` set rs \<Longrightarrow> held_in i rs = 0"
  by (induction rs) auto

lemma held_absent: "i \<notin> r_id ` set (spec_orders B) \<Longrightarrow> held i B = 0"
  by (auto simp: held_def spec_orders_def held_in_absent image_Un)

lemma held_orders: "held i B = held_in i (spec_orders B)"
  by (simp add: held_def spec_orders_def held_in_def)

lemma held_in_set_qty:
  "distinct (map r_id rs) \<Longrightarrow> held_in i (map (set_qty j q) rs)
     = (if i = j then if i \<in> r_id ` set rs then unat q else 0 else held_in i rs)"
proof (induction rs)
  case (Cons r rs)
  then show ?case by (auto simp: set_qty_def held_in_absent)
qed simp

lemma held_shrink:
  assumes "distinct (map r_id (spec_orders B))" "j \<in> r_id ` set (spec_orders B)"
  shows "held i (spec_shrink j q B) = (if i = j then unat q else held i B)"
proof -
  have "spec_orders (spec_shrink j q B) = map (set_qty j q) (spec_orders B)" by (simp add: spec_orders_def spec_shrink_def)
  with held_in_set_qty [OF assms(1), of i j q] assms(2) show ?thesis by (simp add: held_orders)
qed

lemma held_in_find:
  "distinct (map r_id rs) \<Longrightarrow> held_in i rs = (case List.find (\<lambda>r. r_id r = i) rs of None \<Rightarrow> 0 | Some r \<Rightarrow> unat (r_qty r))"
  by (induction rs) (auto simp: held_in_absent)

lemma add_balance:
  assumes "spec_add req B = (B', cs, ms)"
  shows "balance i cs (held i B + (if m_orderId req = i then unat (m_quantity req) else 0)) (held i B')
    \<and> (acked i cs \<longleftrightarrow> m_orderId req = i)"
proof -
  let ?evs = "executions req B"
  have B': "B' = (if unfilled req B = 0 then with_survivors req B else spec_place (residual req B) (with_survivors req B))"
    and cs: "cs = OrderConfirm NewAck (m_orderId req) (m_clientOrderId req) (m_traderId req) (s_symbol B) 0 0 UnknownOrder
       # concat (map (event_confirms (s_symbol B) req) ?evs)"
    using assms spec_add_book [of req B] spec_add_confirms [of req B] by simp_all
  have q: "unat (m_quantity req) = unat (unfilled req B) + sum_list (map event_fill ?evs)"
    by (rule spec_match_quantity [OF spec_match_parts])
  have "held i B' = held i (with_survivors req B) + (if m_orderId req = i then unat (unfilled req B) else 0)"
    by (simp add: B' held_place residual_def)
  moreover have "held i (with_survivors req B) + held_in i (opposite_list req B) = held i B + held_in i (survivors req B)"
    by (simp add: held_def with_survivors_def opposite_list_def)
  ultimately show ?thesis
    using match_balance [OF spec_match_parts [of req B], of i] event_account [of i "s_symbol B" req ?evs] q
    by (auto simp: balance_def cs)
qed

lemma cancel_balance:
  assumes "spec_cancel j t B = (B', cs, ms)"
  shows "balance i cs (held i B) (held i B') \<and> \<not> acked i cs"
  using assms by (auto simp: spec_cancel_def spec_reject_def balance_def held_remove split: option.splits if_splits)

lemma modify_balance:
  assumes "spec_modify j t p q B = (B', cs, ms)" "distinct (map r_id (spec_orders B))"
  shows "balance i cs (if acked i cs then unat q else held i B) (held i B')"
proof (cases "spec_find j B")
  case (Some r)
  then have "r_id r = j" "j \<in> r_id ` set (spec_orders B)" using spec_find_id by fastforce+
  with Some assms(1) held_shrink [OF assms(2) this(2), of i q] show ?thesis
    by (auto simp: spec_modify_def spec_reject_def balance_def held_place held_remove split: if_splits)
qed (use assms in \<open>auto simp: spec_modify_def spec_reject_def balance_def\<close>)

section \<open>The engine\<close>

text \<open>The quantity resting under an id in the book of an instrument.\<close>

definition engine_resting :: "SymbolId \<Rightarrow> OrderId \<Rightarrow> MatchingEngine \<Rightarrow> nat" where
  "engine_resting s i g = (case books g s of None \<Rightarrow> 0 | Some b \<Rightarrow> resting_quantity b i)"

lemma resting_held: "book_ok b \<Longrightarrow> resting_quantity b i = held i (abs_book b)"
  using abs_book_spec_ok [of b] held_in_find [of "spec_orders (abs_book b)" i]
  by (simp add: resting_quantity_view held_orders spec_find_def spec_ok_def)

lemma implements_outcome:
  assumes "implements out [] [] R" "out = Some (b', cs, ms)"
  shows "R = (abs_book b', cs, ms) \<and> book_ok b'"
  using assms by (auto simp: implements_def split: prod.splits)

text \<open>An operation of one book in terms of the account of an order in it.\<close>

lemma add_account:
  assumes "book_ok b" "orderMap b (m_orderId req) = None" "addOrder req b [] [] = Some (b', cs, ms)"
  shows "balance i cs (if acked i cs then unat (m_quantity req) else resting_quantity b i) (resting_quantity b' i)"
proof -
  have "m_orderId req \<notin> dom (orderMap b)" using assms(2) by blast
  from implements_outcome [OF addOrder_implements [OF assms(1) this] assms(3)]
  have R: "spec_add req (abs_book b) = (abs_book b', cs, ms)" "book_ok b'" by auto
  have "held (m_orderId req) (abs_book b) = 0"
    using orderMap_dom [OF assms(1)] assms(2) by (intro held_absent) blast
  then show ?thesis
    using add_balance [OF R(1), of i] by (auto simp: resting_held [OF assms(1)] resting_held [OF R(2)] split: if_splits)
qed

lemma cancel_account:
  assumes "book_ok b" "cancelOrder j t b [] [] = Some (b', cs, ms)"
  shows "balance i cs (resting_quantity b i) (resting_quantity b' i) \<and> \<not> acked i cs"
proof -
  from implements_outcome [OF cancelOrder_implements [OF assms(1)] assms(2)]
  have R: "spec_cancel j t (abs_book b) = (abs_book b', cs, ms)" "book_ok b'" by auto
  then show ?thesis using cancel_balance [OF R(1), of i] by (simp add: resting_held [OF assms(1)] resting_held [OF R(2)])
qed

lemma modify_account:
  assumes "book_ok b" "modifyOrder j t p q b [] [] = Some (b', cs, ms)"
  shows "balance i cs (if acked i cs then unat q else resting_quantity b i) (resting_quantity b' i)"
proof -
  from implements_outcome [OF modifyOrder_implements [OF assms(1)] assms(2)]
  have R: "spec_modify j t p q (abs_book b) = (abs_book b', cs, ms)" "book_ok b'" by auto
  then show ?thesis
    using modify_balance [OF R(1), of i] abs_book_spec_ok [OF assms(1)]
    by (auto simp: resting_held [OF assms(1)] resting_held [OF R(2)] spec_ok_def split: if_splits)
qed

text \<open>One request: the account of every order of its instrument, and that no other instrument is
  touched.\<close>

lemma dispatch_account:
  assumes "engine_ok g" "dispatch req g = Some (g', cs, ms)"
  shows "balance i cs (if acked i cs then unat (m_quantity req) else engine_resting (m_symbolId req) i g)
      (engine_resting (m_symbolId req) i g')"
    "s \<noteq> m_symbolId req \<Longrightarrow> engine_resting s i g' = engine_resting s i g"
proof -
  have "balance i cs (if acked i cs then unat (m_quantity req) else engine_resting (m_symbolId req) i g)
      (engine_resting (m_symbolId req) i g') \<and> (s \<noteq> m_symbolId req \<longrightarrow> engine_resting s i g' = engine_resting s i g)" for s
  proof (cases "books g (m_symbolId req)")
    case None
    with assms(2) show ?thesis
      by (cases "m_requestType req")
        (auto simp: dispatch_def onOrder_def onCancel_def onModify_def engine_resting_def balance_refl)
  next
    case (Some b)
    have b: "book_ok b" "orderMap b (nextOrderId g) = None"
      using assms(1) Some by (auto simp: engine_ok_def books_inv_def book_ids_def)
    let ?req = "req\<lparr>m_orderId := nextOrderId g\<rparr>"
    show ?thesis
    proof (cases "m_requestType req")
      case New
      with assms(2) Some obtain b' where "addOrder ?req b [] [] = Some (b', cs, ms)"
        "books g' = (books g)(m_symbolId req \<mapsto> b')"
        by (auto simp: dispatch_def onOrder_def Let_def split: Option.bind_splits)
      with add_account [OF b(1), of ?req b' cs ms i] b(2) Some show ?thesis
        by (auto simp: engine_resting_def split: if_splits)
    next
      case Cancel
      with assms(2) Some obtain b' where "cancelOrder (m_orderId req) (m_traderId req) b [] [] = Some (b', cs, ms)"
        "books g' = (books g)(m_symbolId req \<mapsto> b')"
        by (auto simp: dispatch_def onCancel_def split: Option.bind_splits)
      with cancel_account [OF b(1)] Some show ?thesis by (simp add: engine_resting_def)
    next
      case Modify
      with assms(2) Some obtain b' where "modifyOrder (m_orderId req) (m_traderId req) (m_price req) (m_quantity req) b [] [] = Some (b', cs, ms)"
        "books g' = (books g)(m_symbolId req \<mapsto> b')"
        by (auto simp: dispatch_def onModify_def split: Option.bind_splits)
      with modify_account [OF b(1), of _ _ _ _ b' cs ms i] Some show ?thesis
        by (auto simp: engine_resting_def split: if_splits)
    qed
  qed
  then show "balance i cs (if acked i cs then unat (m_quantity req) else engine_resting (m_symbolId req) i g)
      (engine_resting (m_symbolId req) i g')"
    "s \<noteq> m_symbolId req \<Longrightarrow> engine_resting s i g' = engine_resting s i g" by blast+
qed

section \<open>Runs\<close>

text \<open>The requests the matching thread dispatches one after the other, each with its confirmations.\<close>

fun engineRun ::
  "OrderRequest list \<Rightarrow> MatchingEngine \<Rightarrow> (MatchingEngine \<times> (OrderRequest \<times> OrderConfirm list) list) option" where
  "engineRun [] g = Some (g, [])"
| "engineRun (req # reqs) g = do {
     (g1, cs, ms) \<leftarrow> dispatch req g;
     (g2, log) \<leftarrow> engineRun reqs g1;
     Some (g2, (req, cs) # log)
   }"

text \<open>The confirmations of the requests for one instrument.\<close>

definition confirms_at :: "SymbolId \<Rightarrow> (OrderRequest \<times> OrderConfirm list) list \<Rightarrow> OrderConfirm list" where
  "confirms_at s log = concat (map snd (filter (\<lambda>(req, cs). m_symbolId req = s) log))"

lemma confirms_at_simps [simp]:
  "confirms_at s [] = []"
  "confirms_at s ((req, cs) # log) = (if m_symbolId req = s then cs else []) @ confirms_at s log"
  by (simp_all add: confirms_at_def)

lemma dispatch_room:
  assumes "engine_ok g" "unat (nextOrderId g) + Suc n < 2 ^ 64"
  obtains g' cs ms where "dispatch req g = Some (g', cs, ms)" "engine_ok g'" "unat (nextOrderId g') + n < 2 ^ 64"
proof -
  have "unat (- 1 :: OrderId) = 2 ^ 64 - 1" by (simp add: unsigned_minus_1_eq_mask mask_eq_exp_minus_1)
  with assms(2) have room: "nextOrderId g \<noteq> - 1" by auto
  obtain g' cs ms where g': "dispatch req g = Some (g', cs, ms)" "engine_ok g'"
    "nextOrderId g' = nextOrderId g + (if m_requestType req = New then 1 else 0)"
    by (rule dispatch_ok [OF assms(1) room])
  moreover have "unat (nextOrderId g + 1) \<le> unat (nextOrderId g) + 1" by (simp add: unat_word_ariths)
  ultimately have "unat (nextOrderId g') + n < 2 ^ 64" using assms(2) by (auto split: if_splits)
  with that g' show ?thesis by blast
qed

lemma engineRun_total:
  "engine_ok g \<Longrightarrow> unat (nextOrderId g) + length reqs < 2 ^ 64 \<Longrightarrow>
     \<exists>g' log. engineRun reqs g = Some (g', log) \<and> map fst log = reqs \<and> engine_ok g'"
proof (induction reqs arbitrary: g)
  case (Cons req reqs)
  obtain g1 cs ms where "dispatch req g = Some (g1, cs, ms)" "engine_ok g1" "unat (nextOrderId g1) + length reqs < 2 ^ 64"
    by (rule dispatch_room [OF Cons.prems(1)]) (use Cons.prems(2) in simp)
  with Cons.IH [of g1] show ?case by auto
qed simp

text \<open>While no acknowledgement sets the quantity of an order, its account balances.\<close>

lemma engineRun_account:
  assumes "engineRun reqs g = Some (g', log)" "engine_ok g" "unat (nextOrderId g) + length reqs < 2 ^ 64"
    "\<not> acked i (confirms_at s log)"
  shows "balance i (confirms_at s log) (engine_resting s i g) (engine_resting s i g')"
  using assms
proof (induction reqs arbitrary: g log)
  case (Cons req reqs)
  obtain g1 cs ms where g1: "dispatch req g = Some (g1, cs, ms)" "engine_ok g1" "unat (nextOrderId g1) + length reqs < 2 ^ 64"
    by (rule dispatch_room [OF Cons.prems(2)]) (use Cons.prems(3) in simp)
  with Cons.prems(1) obtain log1 where log1: "engineRun reqs g1 = Some (g', log1)" "log = (req, cs) # log1"
    by (auto split: Option.bind_splits)
  have "balance i (confirms_at s log1) (engine_resting s i g1) (engine_resting s i g')"
    using Cons.IH [OF log1(1) g1(2,3)] Cons.prems(4) log1(2) by (auto split: if_splits)
  with dispatch_account [OF Cons.prems(2) g1(1), where i = i] Cons.prems(4) log1(2) show ?case
    by (cases "m_symbolId req = s") (auto intro: balance_trans)
qed (simp add: balance_refl)

text \<open>From any acknowledgement on.\<close>

lemma engineRun_acked:
  assumes "engineRun reqs g = Some (g', pre @ (req, cs) # post)" "engine_ok g" "unat (nextOrderId g) + length reqs < 2 ^ 64"
    "acked i cs" "\<not> acked i (confirms_at (m_symbolId req) post)"
  shows "balance i (cs @ confirms_at (m_symbolId req) post) (unat (m_quantity req)) (engine_resting (m_symbolId req) i g')"
  using assms
proof (induction pre arbitrary: reqs g)
  case (Cons x pre)
  then obtain r rs where reqs: "reqs = r # rs" by (cases reqs) auto
  obtain g1 cs1 ms where g1: "dispatch r g = Some (g1, cs1, ms)" "engine_ok g1" "unat (nextOrderId g1) + length rs < 2 ^ 64"
    by (rule dispatch_room [OF Cons.prems(2)]) (use Cons.prems(3) in \<open>simp add: reqs\<close>)
  with Cons.prems(1) have "engineRun rs g1 = Some (g', pre @ (req, cs) # post)"
    by (auto simp: reqs split: Option.bind_splits)
  from Cons.IH [OF this g1(2,3) Cons.prems(4,5)] show ?case .
next
  case Nil
  then obtain rs where reqs: "reqs = req # rs" by (cases reqs) (auto split: Option.bind_splits)
  obtain g1 cs1 ms where g1: "dispatch req g = Some (g1, cs1, ms)" "engine_ok g1" "unat (nextOrderId g1) + length rs < 2 ^ 64"
    by (rule dispatch_room [OF Nil.prems(2)]) (use Nil.prems(3) in \<open>simp add: reqs\<close>)
  with Nil.prems(1) have run: "engineRun rs g1 = Some (g', post)" "cs1 = cs"
    by (auto simp: reqs split: Option.bind_splits)
  from dispatch_account(1) [OF Nil.prems(2) g1(1), of i] run(2) Nil.prems(4)
  have "balance i cs (unat (m_quantity req)) (engine_resting (m_symbolId req) i g1)" by simp
  then show ?case by (rule balance_trans [OF _ engineRun_account [OF run(1) g1(2,3) Nil.prems(5)]])
qed

lemma room_new: "length reqs < 2 ^ 64 - 1 \<Longrightarrow> unat (nextOrderId (engine_initialize symbols MatchingEngine_new)) + length reqs < 2 ^ 64"
proof -
  assume "length reqs < 2 ^ 64 - 1"
  moreover have "nextOrderId (engine_initialize symbols h) = nextOrderId h" for h
    by (induction symbols arbitrary: h) simp_all
  ultimately show ?thesis by (simp add: MatchingEngine_new_def)
qed

section \<open>Theorems\<close>

text \<open>
  C6. Every order is accounted for over its whole life: in any run of the engine from its initial state
  (fewer than \<open>2^64 - 1\<close> requests), take any request that is acknowledged with a quantity for order
  \<open>i\<close>, as a new order or a modification, and after which no other acknowledgement sets the quantity
  of \<open>i\<close> in that instrument. Then what is traded of \<open>i\<close> from there on and what still rests of it
  never exceed that quantity, and are exactly that quantity unless \<open>i\<close> has been cancelled.
\<close>

theorem fills_accounted:
  assumes "length reqs < 2 ^ 64 - 1"
  shows "\<exists>g log. engineRun reqs (engine_initialize symbols MatchingEngine_new) = Some (g, log) \<and> map fst log = reqs
    \<and> (\<forall>pre req cs post i. log = pre @ (req, cs) # post \<longrightarrow> acked i cs \<longrightarrow> \<not> acked i (confirms_at (m_symbolId req) post) \<longrightarrow>
         filled i (cs @ confirms_at (m_symbolId req) post) + engine_resting (m_symbolId req) i g \<le> unat (m_quantity req)
       \<and> (\<not> cancelled i (cs @ confirms_at (m_symbolId req) post) \<longrightarrow>
           filled i (cs @ confirms_at (m_symbolId req) post) + engine_resting (m_symbolId req) i g = unat (m_quantity req)))"
proof -
  let ?g = "engine_initialize symbols MatchingEngine_new"
  note room = room_new [OF assms, of symbols]
  obtain g log where run: "engineRun reqs ?g = Some (g, log)" "map fst log = reqs"
    using engineRun_total [OF engine_ok_new room] by blast
  moreover have "balance i (cs @ confirms_at (m_symbolId req) post) (unat (m_quantity req)) (engine_resting (m_symbolId req) i g)"
    if "log = pre @ (req, cs) # post" "acked i cs" "\<not> acked i (confirms_at (m_symbolId req) post)" for pre req cs post i
    using engineRun_acked [OF _ engine_ok_new room that(2,3)] run(1) that(1) by blast
  ultimately show ?thesis unfolding balance_def by blast
qed

text \<open>A sell order of 10 is bought from twice, by 4 and by 3.\<close>

definition order_of :: "TraderId \<Rightarrow> Side \<Rightarrow> Quantity \<Rightarrow> OrderRequest" where
  "order_of t sd q = OrderRequest_init\<lparr>m_traderId := t, m_symbolId := 1, m_side := sd, m_price := 50, m_quantity := q,
     m_requestType := New\<rparr>"

definition account_log :: "(OrderRequest \<times> OrderConfirm list) list" where
  "account_log =
     (case engineRun [order_of 7 Sell 10, order_of 8 Buy 4, order_of 9 Buy 3] (engine_initialize [1] MatchingEngine_new) of
        None \<Rightarrow> [] | Some (g, log) \<Rightarrow> log)"

theorem fills_accounted_witness:
  "\<exists>g. engineRun [order_of 7 Sell 10, order_of 8 Buy 4, order_of 9 Buy 3] (engine_initialize [1] MatchingEngine_new)
      = Some (g, account_log)
    \<and> filled 1 (confirms_at 1 account_log) + engine_resting 1 1 g = 10 \<and> filled 1 (confirms_at 1 account_log) = 7"
proof -
  let ?reqs = "[order_of 7 Sell 10, order_of 8 Buy 4, order_of 9 Buy 3]"
  have "length ?reqs < 2 ^ 64 - 1" by simp
  from fills_accounted [OF this, of "[1]"] obtain g log where g:
    "engineRun ?reqs (engine_initialize [1] MatchingEngine_new) = Some (g, log)"
    "\<And>pre req cs post i. log = pre @ (req, cs) # post \<Longrightarrow> acked i cs \<Longrightarrow> \<not> acked i (confirms_at (m_symbolId req) post) \<Longrightarrow>
       \<not> cancelled i (cs @ confirms_at (m_symbolId req) post) \<Longrightarrow>
       filled i (cs @ confirms_at (m_symbolId req) post) + engine_resting (m_symbolId req) i g = unat (m_quantity req)"
    by blast
  have log: "log = account_log" unfolding account_log_def g(1) by simp
  have parts: "account_log = (order_of 7 Sell 10, snd (hd account_log)) # tl account_log" "acked 1 (snd (hd account_log))"
    "\<not> acked 1 (confirms_at 1 (tl account_log))" "\<not> cancelled 1 (snd (hd account_log) @ confirms_at 1 (tl account_log))"
    "filled 1 (confirms_at 1 account_log) = 7" "m_symbolId (order_of 7 Sell 10) = 1" "unat (m_quantity (order_of 7 Sell 10)) = 10"
    "snd (hd account_log) @ confirms_at 1 (tl account_log) = confirms_at 1 account_log"
    by code_simp+
  from g(2) [of "[]" "order_of 7 Sell 10" "snd (hd account_log)" "tl account_log" 1] parts log g(1) show ?thesis by auto
qed

text \<open>
  C17. Memory safety of the books over whole runs: whatever requests the engine executes from its initial
  state (fewer than \<open>2^64 - 1\<close>; new orders that match, cancels and modifications with any ids), it makes no
  undefined access, and afterwards in every book no element is queued twice, the queued elements are
  exactly the allocated ones (each \<^verbatim>\<open>new\<close> has been matched by a \<^verbatim>\<open>delete\<close> or the element is still queued;
  nothing leaks and nothing queued dangles), and the lookup map points at exactly these.
\<close>

theorem engine_owns_elements:
  assumes "length reqs < 2 ^ 64 - 1"
  shows "\<exists>g log. engineRun reqs (engine_initialize symbols MatchingEngine_new) = Some (g, log)
    \<and> (\<forall>sy b. books g sy = Some b \<longrightarrow>
         distinct (all_pointers b) \<and> set (all_pointers b) = dom (elems b) \<and> ran (orderMap b) = dom (elems b))"
proof -
  obtain g log where run: "engineRun reqs (engine_initialize symbols MatchingEngine_new) = Some (g, log)" "engine_ok g"
    using engineRun_total [OF engine_ok_new room_new [OF assms]] by blast
  then have "book_ok b" if "books g sy = Some b" for sy b using that by (auto simp: engine_ok_def books_inv_def)
  with run(1) pointers_distinct pointers_set ran_orderMap show ?thesis by blast
qed

text \<open>The sell order is bought out by the second buyer, whose remainder is modified, sold to and cancelled; a last
  order stays.\<close>

definition lifecycle :: "OrderRequest list" where
  "lifecycle = [order_of 7 Sell 5, order_of 8 Buy 4, order_of 9 Buy 3, (order_of 9 Buy 6)\<lparr>m_requestType := Modify, m_orderId := 3\<rparr>,
     order_of 7 Sell 1, (order_of 9 Buy 0)\<lparr>m_requestType := Cancel, m_orderId := 3\<rparr>, order_of 8 Buy 2]"

theorem engine_owns_elements_witness:
  "\<exists>g log b p. engineRun lifecycle (engine_initialize [1] MatchingEngine_new) = Some (g, log) \<and> books g 1 = Some b
    \<and> all_pointers b = [p] \<and> dom (elems b) = {p} \<and> ran (orderMap b) = {p}"
proof -
  have "length lifecycle < 2 ^ 64 - 1" by (simp add: lifecycle_def)
  from engine_owns_elements [OF this, of "[1]"] obtain g log where g:
    "engineRun lifecycle (engine_initialize [1] MatchingEngine_new) = Some (g, log)"
    "\<And>sy b. books g sy = Some b \<Longrightarrow> set (all_pointers b) = dom (elems b) \<and> ran (orderMap b) = dom (elems b)" by blast
  have "(case engineRun lifecycle (engine_initialize [1] MatchingEngine_new) of None \<Rightarrow> None
      | Some (g, log) \<Rightarrow> map_option (\<lambda>b. length (all_pointers b)) (books g 1)) = Some 1" by code_simp
  then obtain b where b: "books g 1 = Some b" "length (all_pointers b) = 1" using g(1) by auto
  then obtain p where "all_pointers b = [p]" by (auto simp: length_Suc_conv)
  with g(1) g(2) [OF b(1)] b(1) show ?thesis by auto
qed

end
