(* ===== verification/Spsc_Release_Acquire.thy ===== *)
theory Spsc_Release_Acquire
  imports Spsc_Queue
begin

unbundle bit_operations_syntax

text \<open>
  Concurrent use of the ring buffer by one producer running \<^verbatim>\<open>try_push\<close> and one consumer running
  \<^verbatim>\<open>try_pop\<close>, each any number of times, under the memory orders the source asks for. A step is one load,
  one store or one buffer access of either thread, in any interleaving. \<^verbatim>\<open>head_\<close> is stored only by the
  producer and \<^verbatim>\<open>tail_\<close> only by the consumer, so the modification order of each is the list of its
  stores. The relaxed load of a thread's own index reads its own last store; the acquire load of the
  other thread's index may read any store that is not older than the one it read before, however
  stale. \<^verbatim>\<open>buffer_\<close> is not atomic: two accesses to a slot by different threads of which one writes
  are undefined behaviour unless one happens before the other.

  Happens-before is tracked by clocks: a thread's clock counts its accesses to \<^verbatim>\<open>buffer_\<close>, a release
  store carries the clock of its thread, and an acquire load that reads it brings the reader's
  knowledge of the other thread up to that clock. An access to a slot is a race when the last access
  of the other thread to it is newer than what the accessing thread knows.
\<close>

section \<open>State machine\<close>

text \<open>Where the producer is inside \<^verbatim>\<open>try_push(item)\<close>, with its local variable \<^verbatim>\<open>head\<close>.\<close>

datatype 'a producer =
    P_idle
  | P_loaded 'a u64   \<comment> \<open>after \<^verbatim>\<open>head_.load\<close>\<close>
  | P_checked 'a u64  \<comment> \<open>after the test against \<^verbatim>\<open>tail_.load\<close> found room\<close>
  | P_written 'a u64  \<comment> \<open>after the buffer write, before \<^verbatim>\<open>head_.store\<close>\<close>

text \<open>Where the consumer is inside \<^verbatim>\<open>try_pop\<close>, with its local variable \<^verbatim>\<open>tail\<close>.\<close>

datatype 'a consumer =
    C_idle
  | C_loaded u64
  | C_checked u64
  | C_read 'a u64     \<comment> \<open>after the buffer read, before \<^verbatim>\<open>tail_.store\<close>\<close>

record 'a ra_state =
  heads :: "(u64 \<times> nat) list"      \<comment> \<open>stores to \<^verbatim>\<open>head_\<close>, each with the producer's clock\<close>
  tails :: "(u64 \<times> nat) list"      \<comment> \<open>stores to \<^verbatim>\<open>tail_\<close>, each with the consumer's clock\<close>
  cells :: "'a list"
  p_touched :: "nat \<Rightarrow> nat"         \<comment> \<open>per slot, the producer's clock at its last write; 0 for none\<close>
  c_touched :: "nat \<Rightarrow> nat"         \<comment> \<open>per slot, the consumer's clock at its last read\<close>
  p_pc :: "'a producer"
  c_pc :: "'a consumer"
  p_clock :: nat
  c_clock :: nat
  p_seen :: nat                     \<comment> \<open>position in \<open>tails\<close> of the store the producer read last\<close>
  c_seen :: nat
  p_knows :: nat                    \<comment> \<open>consumer accesses that happen before the producer's next step\<close>
  c_knows :: nat
  p_done :: "'a list"               \<comment> \<open>elements pushed, popped\<close>
  c_done :: "'a list"
  undefined_access :: bool          \<comment> \<open>a race or an access outside the buffer has occurred\<close>

definition ra_init :: "u64 \<Rightarrow> 'a \<Rightarrow> 'a ra_state" where
  "ra_init c d =
     \<lparr>heads = [(0, 0)], tails = [(0, 0)], cells = replicate (unat c) d, p_touched = (\<lambda>_. 0), c_touched = (\<lambda>_. 0),
      p_pc = P_idle, c_pc = C_idle, p_clock = 0, c_clock = 0, p_seen = 0, c_seen = 0, p_knows = 0, c_knows = 0,
      p_done = [], c_done = [], undefined_access = False\<rparr>"

inductive ra_step :: "u64 \<Rightarrow> 'a ra_state \<Rightarrow> 'a ra_state \<Rightarrow> bool" for c where
  ra_push_load: "p_pc s = P_idle \<Longrightarrow>
    ra_step c s (s\<lparr>p_pc := P_loaded x (fst (last (heads s)))\<rparr>)"
| ra_push_acquire: "p_pc s = P_loaded x h \<Longrightarrow> p_seen s \<le> j \<Longrightarrow> j < length (tails s) \<Longrightarrow>
    ra_step c s (s\<lparr>p_pc := (if (h + 1) AND MASK c = fst (tails s ! j) then P_idle else P_checked x h),
      p_seen := j, p_knows := max (p_knows s) (snd (tails s ! j))\<rparr>)"
| ra_push_write: "p_pc s = P_checked x h \<Longrightarrow>
    ra_step c s (s\<lparr>p_pc := P_written x h, cells := (cells s)[unat h := x], p_clock := Suc (p_clock s),
      p_touched := (p_touched s)(unat h := Suc (p_clock s)),
      undefined_access := undefined_access s \<or> length (cells s) \<le> unat h \<or> p_knows s < c_touched s (unat h)\<rparr>)"
| ra_push_release: "p_pc s = P_written x h \<Longrightarrow>
    ra_step c s (s\<lparr>p_pc := P_idle, heads := heads s @ [((h + 1) AND MASK c, p_clock s)], p_done := p_done s @ [x]\<rparr>)"
| ra_pop_load: "c_pc s = C_idle \<Longrightarrow>
    ra_step c s (s\<lparr>c_pc := C_loaded (fst (last (tails s)))\<rparr>)"
| ra_pop_acquire: "c_pc s = C_loaded t \<Longrightarrow> c_seen s \<le> j \<Longrightarrow> j < length (heads s) \<Longrightarrow>
    ra_step c s (s\<lparr>c_pc := (if t = fst (heads s ! j) then C_idle else C_checked t),
      c_seen := j, c_knows := max (c_knows s) (snd (heads s ! j))\<rparr>)"
| ra_pop_read: "c_pc s = C_checked t \<Longrightarrow>
    ra_step c s (s\<lparr>c_pc := C_read (cells s ! unat t) t, c_clock := Suc (c_clock s),
      c_touched := (c_touched s)(unat t := Suc (c_clock s)),
      undefined_access := undefined_access s \<or> length (cells s) \<le> unat t \<or> c_knows s < p_touched s (unat t)\<rparr>)"
| ra_pop_release: "c_pc s = C_read x t \<Longrightarrow>
    ra_step c s (s\<lparr>c_pc := C_idle, tails := tails s @ [((t + 1) AND MASK c, c_clock s)], c_done := c_done s @ [x]\<rparr>)"

inductive_cases ra_stepE: "ra_step c s s'"

abbreviation ra_reach :: "u64 \<Rightarrow> 'a \<Rightarrow> nat \<Rightarrow> 'a ra_state \<Rightarrow> bool" where
  "ra_reach c d \<equiv> reach_in (ra_step c) (ra_init c d)"

section \<open>Positions and slots\<close>

text \<open>The index of the element at position \<open>k\<close> of the whole history of the queue.\<close>

definition index :: "u64 \<Rightarrow> nat \<Rightarrow> u64" where
  "index c k = of_nat (k mod unat c)"

lemma unat_index: "valid_capacity c \<Longrightarrow> unat (index c k) = k mod unat c"
proof -
  assume "valid_capacity c"
  then have "k mod unat c < unat c" by (auto simp: valid_capacity_def word_le_nat_alt)
  also have "unat c < 2 ^ 64" using unsigned_less [of c] by simp
  finally show ?thesis by (simp add: index_def unsigned_of_nat take_bit_nat_eq_self)
qed

lemma index_next: "valid_capacity c \<Longrightarrow> (index c k + 1) AND MASK c = index c (Suc k)"
proof (rule word_unat_eq_iff [THEN iffD2])
  assume c: "valid_capacity c"
  then have "k mod unat c < unat c" by (auto simp: valid_capacity_def word_le_nat_alt)
  with unat_next [OF c, of "index c k"] show "unat ((index c k + 1) AND MASK c) = unat (index c (Suc k))"
    by (simp add: unat_index [OF c] mod_Suc_eq)
qed

lemma mod_window: "a \<le> b \<Longrightarrow> b < a + n \<Longrightarrow> a mod n = b mod n \<Longrightarrow> a = b" for a b n :: nat
proof -
  assume "a \<le> b" "b < a + n" "a mod n = b mod n"
  then have "n dvd b - a" "b - a < n" using mod_eq_dvd_iff_nat [of a b n] by auto
  then have "b - a = 0" by (meson dvd_imp_le not_gr_zero not_le)
  with \<open>a \<le> b\<close> show ?thesis by simp
qed

text \<open>Two positions less than a capacity apart have the same index only if they are the same.\<close>

lemma index_eq_iff: "valid_capacity c \<Longrightarrow> a \<le> b \<Longrightarrow> b < a + unat c \<Longrightarrow> index c a = index c b \<longleftrightarrow> a = b"
  using mod_window [of a b "unat c"] by (auto simp: word_unat_eq_iff unat_index)

section \<open>Invariant\<close>

text \<open>The stores to an index: one per completed call, carrying the position and the clock.\<close>

definition stores :: "u64 \<Rightarrow> nat \<Rightarrow> (u64 \<times> nat) list" where
  "stores c n = map (\<lambda>k. (index c k, k)) [0..<Suc n]"

text \<open>Clocks recorded for slots are clocks of accesses to these slots.\<close>

definition touched_ok :: "u64 \<Rightarrow> nat \<Rightarrow> (nat \<Rightarrow> nat) \<Rightarrow> bool" where
  "touched_ok c clock touched \<longleftrightarrow> (\<forall>i. touched i = 0 \<or> (\<exists>k<clock. touched i = Suc k \<and> k mod unat c = i))"

fun p_ok :: "u64 \<Rightarrow> 'a ra_state \<Rightarrow> 'a producer \<Rightarrow> bool" where
  "p_ok c s P_idle \<longleftrightarrow> p_clock s = length (p_done s)"
| "p_ok c s (P_loaded x h) \<longleftrightarrow> p_clock s = length (p_done s) \<and> h = index c (length (p_done s))"
| "p_ok c s (P_checked x h) \<longleftrightarrow> p_clock s = length (p_done s) \<and> h = index c (length (p_done s))
     \<and> Suc (length (p_done s)) < p_seen s + unat c"
| "p_ok c s (P_written x h) \<longleftrightarrow> p_clock s = Suc (length (p_done s)) \<and> h = index c (length (p_done s))
     \<and> Suc (length (p_done s)) < p_seen s + unat c \<and> cells s ! unat h = x"

fun c_ok :: "u64 \<Rightarrow> 'a ra_state \<Rightarrow> 'a consumer \<Rightarrow> bool" where
  "c_ok c s C_idle \<longleftrightarrow> c_clock s = length (c_done s)"
| "c_ok c s (C_loaded t) \<longleftrightarrow> c_clock s = length (c_done s) \<and> t = index c (length (c_done s))"
| "c_ok c s (C_checked t) \<longleftrightarrow> c_clock s = length (c_done s) \<and> t = index c (length (c_done s)) \<and> length (c_done s) < c_seen s"
| "c_ok c s (C_read x t) \<longleftrightarrow> c_clock s = Suc (length (c_done s)) \<and> t = index c (length (c_done s))
     \<and> length (c_done s) < c_seen s \<and> x = p_done s ! length (c_done s)"

text \<open>What each thread has seen lies between what the other has done and what it needs.\<close>

definition ra_window :: "u64 \<Rightarrow> 'a ra_state \<Rightarrow> bool" where
  "ra_window c s \<longleftrightarrow> p_seen s \<le> length (c_done s) \<and> length (c_done s) \<le> c_seen s \<and> c_seen s \<le> length (p_done s)
     \<and> length (p_done s) < p_seen s + unat c \<and> p_knows s = p_seen s \<and> c_knows s = c_seen s"

definition ra_content :: "u64 \<Rightarrow> 'a ra_state \<Rightarrow> bool" where
  "ra_content c s \<longleftrightarrow> length (cells s) = unat c \<and> c_done s = take (length (c_done s)) (p_done s)
     \<and> (\<forall>k. length (c_done s) \<le> k \<longrightarrow> k < length (p_done s) \<longrightarrow> cells s ! (k mod unat c) = p_done s ! k)"

definition ra_inv :: "u64 \<Rightarrow> 'a ra_state \<Rightarrow> bool" where
  "ra_inv c s \<longleftrightarrow> heads s = stores c (length (p_done s)) \<and> tails s = stores c (length (c_done s))
     \<and> ra_window c s \<and> ra_content c s \<and> touched_ok c (p_clock s) (p_touched s) \<and> touched_ok c (c_clock s) (c_touched s)
     \<and> p_ok c s (p_pc s) \<and> c_ok c s (c_pc s) \<and> \<not> undefined_access s"

lemma stores_simps:
  "length (stores c n) = Suc n" "last (stores c n) = (index c n, n)"
  "stores c (Suc n) = stores c n @ [(index c (Suc n), Suc n)]"
  by (simp_all add: stores_def)

lemma stores_nth: "j < Suc n \<Longrightarrow> stores c n ! j = (index c j, j)"
  using nth_map [of j "[0..<Suc n]" "\<lambda>k. (index c k, k)"] nth_upt [of 0 j "Suc n"]
  by (simp only: stores_def length_upt add_0 diff_zero)

lemma stores_zero: "stores c 0 = [(0, 0)]"
  by (simp add: stores_def index_def)

lemma touchedD: "touched_ok c clock f \<Longrightarrow> f i \<noteq> 0 \<Longrightarrow> \<exists>k<clock. f i = Suc k \<and> k mod unat c = i"
  unfolding touched_ok_def by (erule allE [of _ i]) simp

lemma touched_update: "touched_ok c n f \<Longrightarrow> i = n mod unat c \<Longrightarrow> touched_ok c (Suc n) (f(i := Suc n))"
  by (auto simp: touched_ok_def less_Suc_eq)

text \<open>The last access to the slot of position \<open>a\<close> by a thread whose clock has not reached the next
  position of that slot.\<close>

lemma touched_bound:
  assumes "touched_ok c clock f" "clock \<le> a + unat c"
  shows "f (a mod unat c) \<le> Suc a"
proof (cases "f (a mod unat c)")
  case (Suc m)
  then obtain k where k: "k < clock" "f (a mod unat c) = Suc k" "k mod unat c = a mod unat c"
    using touchedD [OF assms(1), of "a mod unat c"] by auto
  have "\<not> a < k" using mod_window [of a k "unat c"] k assms(2) by auto
  with k show ?thesis by simp
qed simp

lemma ra_inv_init: "valid_capacity c \<Longrightarrow> ra_inv c (ra_init c d)"
  by (simp add: ra_inv_def ra_init_def stores_zero ra_window_def ra_content_def touched_ok_def valid_capacity_def word_le_nat_alt)

section \<open>Steps keep the invariant\<close>

text \<open>Neither thread's condition depends on what only the other one changes.\<close>

lemma c_ok_frame [simp]:
  "c_ok c (s\<lparr>p_pc := a\<rparr>) k = c_ok c s k" "c_ok c (s\<lparr>cells := b\<rparr>) k = c_ok c s k" "c_ok c (s\<lparr>p_clock := n\<rparr>) k = c_ok c s k"
  "c_ok c (s\<lparr>p_touched := f\<rparr>) k = c_ok c s k" "c_ok c (s\<lparr>p_seen := n\<rparr>) k = c_ok c s k" "c_ok c (s\<lparr>p_knows := n\<rparr>) k = c_ok c s k"
  "c_ok c (s\<lparr>heads := l\<rparr>) k = c_ok c s k" "c_ok c (s\<lparr>undefined_access := u\<rparr>) k = c_ok c s k"
  by (cases k; simp)+

lemma p_ok_frame [simp]:
  "p_ok c (s\<lparr>c_pc := a\<rparr>) k = p_ok c s k" "p_ok c (s\<lparr>c_clock := n\<rparr>) k = p_ok c s k" "p_ok c (s\<lparr>c_touched := f\<rparr>) k = p_ok c s k"
  "p_ok c (s\<lparr>c_seen := n\<rparr>) k = p_ok c s k" "p_ok c (s\<lparr>c_knows := n\<rparr>) k = p_ok c s k" "p_ok c (s\<lparr>c_done := l\<rparr>) k = p_ok c s k"
  "p_ok c (s\<lparr>tails := m\<rparr>) k = p_ok c s k" "p_ok c (s\<lparr>undefined_access := u\<rparr>) k = p_ok c s k"
  by (cases k; simp)+

lemma capacity_pos: "valid_capacity c \<Longrightarrow> 0 < unat c"
  by (auto simp: valid_capacity_def word_le_nat_alt)

lemma ra_inv_push_acquire:
  assumes c: "valid_capacity c" and inv: "ra_inv c s" and p: "p_pc s = P_loaded x h" and j: "p_seen s \<le> j" "j < length (tails s)"
  shows "ra_inv c (s\<lparr>p_pc := (if (h + 1) AND MASK c = fst (tails s ! j) then P_idle else P_checked x h),
      p_seen := j, p_knows := max (p_knows s) (snd (tails s ! j))\<rparr>)"
proof -
  let ?P = "length (p_done s)"
  have w: "ra_window c s" "tails s = stores c (length (c_done s))" "h = index c ?P" "p_clock s = ?P"
    using inv p by (auto simp: ra_inv_def)
  then have t: "tails s ! j = (index c j, j)" "j \<le> length (c_done s)" using j by (simp_all add: stores_simps stores_nth)
  have "index c (Suc ?P) \<noteq> index c j \<Longrightarrow> Suc ?P < j + unat c"
    using w j t(2) by (cases "Suc ?P = j + unat c") (auto simp: ra_window_def index_def)
  with inv p j t w show ?thesis
    by (simp add: ra_inv_def ra_window_def ra_content_def index_next [OF c])
qed

text \<open>The slot the producer writes was last read by the consumer before the pop that made room.\<close>

lemma c_touched_known:
  assumes "touched_ok c clock f" "clock \<le> p" "Suc p < seen + unat c"
  shows "f (p mod unat c) \<le> seen"
proof (cases "p < unat c")
  case True
  have "f p = 0"
  proof (rule ccontr)
    assume "f p \<noteq> 0"
    then obtain m where "m < clock" "m mod unat c = p" using touchedD [OF assms(1)] by blast
    with True assms(2) show False by simp
  qed
  with True show ?thesis by simp
next
  case False
  then have "(p - unat c) mod unat c = p mod unat c" by (simp add: le_mod_geq)
  with touched_bound [OF assms(1), of "p - unat c"] assms(2,3) False show ?thesis by simp
qed

lemma ra_inv_push_write:
  assumes c: "valid_capacity c" and inv: "ra_inv c s" and p: "p_pc s = P_checked x h"
  shows "ra_inv c (s\<lparr>p_pc := P_written x h, cells := (cells s)[unat h := x], p_clock := Suc (p_clock s),
      p_touched := (p_touched s)(unat h := Suc (p_clock s)),
      undefined_access := undefined_access s \<or> length (cells s) \<le> unat h \<or> p_knows s < c_touched s (unat h)\<rparr>)"
proof -
  let ?P = "length (p_done s)"
  have w: "ra_window c s" "ra_content c s" "touched_ok c (p_clock s) (p_touched s)" "touched_ok c (c_clock s) (c_touched s)"
    and h: "h = index c ?P" "p_clock s = ?P" "Suc ?P < p_seen s + unat c" and k: "c_ok c s (c_pc s)"
    using inv p by (auto simp: ra_inv_def)
  have uh: "unat h = ?P mod unat c" "unat h < unat c" using capacity_pos [OF c] by (simp_all add: h(1) unat_index [OF c])
  have "c_clock s \<le> ?P" using k w(1) by (cases "c_pc s") (auto simp: ra_window_def)
  from c_touched_known [OF w(4) this h(3)] have "\<not> p_knows s < c_touched s (unat h)"
    using w(1) by (simp add: uh ra_window_def)
  moreover have "m mod unat c \<noteq> unat h" if "length (c_done s) \<le> m" "m < ?P" for m
    using mod_window [of m ?P "unat c"] that h(3) w(1) uh(1) by (auto simp: ra_window_def)
  then have "ra_content c (s\<lparr>cells := (cells s)[unat h := x]\<rparr>)"
    using w(2) by (simp add: ra_content_def) (metis nth_list_update_neq)
  ultimately show ?thesis
    using inv w h uh(2) touched_update [OF w(3), of "unat h"] uh(1) capacity_pos [OF c]
    by (simp add: ra_inv_def ra_window_def ra_content_def not_le)
qed

lemma ra_inv_push_release:
  assumes c: "valid_capacity c" and inv: "ra_inv c s" and p: "p_pc s = P_written x h"
  shows "ra_inv c (s\<lparr>p_pc := P_idle, heads := heads s @ [((h + 1) AND MASK c, p_clock s)], p_done := p_done s @ [x]\<rparr>)"
proof -
  let ?P = "length (p_done s)"
  have w: "ra_window c s" "ra_content c s" "c_ok c s (c_pc s)"
    and h: "h = index c ?P" "p_clock s = Suc ?P" "Suc ?P < p_seen s + unat c" "cells s ! unat h = x"
    using inv p by (auto simp: ra_inv_def)
  have "cells s ! (?P mod unat c) = x" using h(1,4) by (simp add: unat_index [OF c])
  then have "ra_content c (s\<lparr>p_done := p_done s @ [x]\<rparr>)"
    using w(1,2) by (auto simp: ra_content_def ra_window_def nth_append less_Suc_eq)
  moreover have "c_ok c (s\<lparr>p_pc := P_idle, heads := l, p_done := p_done s @ [x]\<rparr>) (c_pc s)" for l
    using w(1,3) by (cases "c_pc s") (auto simp: nth_append ra_window_def)
  ultimately show ?thesis
    using inv w(1) h by (simp add: ra_inv_def ra_window_def ra_content_def stores_simps index_next [OF c])
qed

lemma ra_inv_pop_acquire:
  assumes c: "valid_capacity c" and inv: "ra_inv c s" and p: "c_pc s = C_loaded t" and j: "c_seen s \<le> j" "j < length (heads s)"
  shows "ra_inv c (s\<lparr>c_pc := (if t = fst (heads s ! j) then C_idle else C_checked t),
      c_seen := j, c_knows := max (c_knows s) (snd (heads s ! j))\<rparr>)"
proof -
  let ?C = "length (c_done s)"
  have w: "ra_window c s" "heads s = stores c (length (p_done s))" "t = index c ?C" "c_clock s = ?C"
    using inv p by (auto simp: ra_inv_def)
  then have t: "heads s ! j = (index c j, j)" "j \<le> length (p_done s)" using j by (simp_all add: stores_simps stores_nth)
  have "index c ?C \<noteq> index c j \<Longrightarrow> ?C < j" using w(1) j(1) by (cases "?C = j") (auto simp: ra_window_def)
  with inv p j t w show ?thesis by (simp add: ra_inv_def ra_window_def ra_content_def)
qed

lemma ra_inv_pop_read:
  assumes c: "valid_capacity c" and inv: "ra_inv c s" and p: "c_pc s = C_checked t"
  shows "ra_inv c (s\<lparr>c_pc := C_read (cells s ! unat t) t, c_clock := Suc (c_clock s),
      c_touched := (c_touched s)(unat t := Suc (c_clock s)),
      undefined_access := undefined_access s \<or> length (cells s) \<le> unat t \<or> c_knows s < p_touched s (unat t)\<rparr>)"
proof -
  let ?C = "length (c_done s)"
  have w: "ra_window c s" "ra_content c s" "touched_ok c (p_clock s) (p_touched s)" "touched_ok c (c_clock s) (c_touched s)"
    and h: "t = index c ?C" "c_clock s = ?C" "?C < c_seen s" and k: "p_ok c s (p_pc s)"
    using inv p by (auto simp: ra_inv_def)
  have ut: "unat t = ?C mod unat c" "unat t < unat c" using capacity_pos [OF c] by (simp_all add: h(1) unat_index [OF c])
  have "p_clock s \<le> ?C + unat c" using k w(1) by (cases "p_pc s") (auto simp: ra_window_def)
  from touched_bound [OF w(3) this] have "\<not> c_knows s < p_touched s (unat t)"
    using w(1) h(3) by (simp add: ut ra_window_def)
  moreover have "cells s ! unat t = p_done s ! ?C" using w(1,2) h(3) by (simp add: ut ra_content_def ra_window_def)
  ultimately show ?thesis
    using inv w h ut(2) touched_update [OF w(4), of "unat t"] ut(1) capacity_pos [OF c]
    by (simp add: ra_inv_def ra_window_def ra_content_def not_le)
qed

lemma ra_inv_pop_release:
  assumes c: "valid_capacity c" and inv: "ra_inv c s" and p: "c_pc s = C_read x t"
  shows "ra_inv c (s\<lparr>c_pc := C_idle, tails := tails s @ [((t + 1) AND MASK c, c_clock s)], c_done := c_done s @ [x]\<rparr>)"
proof -
  let ?C = "length (c_done s)"
  have w: "ra_window c s" "ra_content c s"
    and h: "t = index c ?C" "c_clock s = Suc ?C" "?C < c_seen s" "x = p_done s ! ?C"
    using inv p by (auto simp: ra_inv_def)
  have "?C < length (p_done s)" using w(1) h(3) by (simp add: ra_window_def)
  with w(2) h(4) have "c_done s @ [x] = take (Suc ?C) (p_done s)"
    by (metis ra_content_def take_Suc_conv_app_nth)
  with inv w h show ?thesis by (simp add: ra_inv_def ra_window_def ra_content_def stores_simps index_next [OF c])
qed

lemma ra_inv_step:
  assumes "ra_step c s s'" "valid_capacity c" "ra_inv c s"
  shows "ra_inv c s'"
  using assms(1)
proof (cases rule: ra_step.cases)
  case (ra_push_load x)
  with assms(3) show ?thesis by (auto simp: ra_inv_def ra_window_def ra_content_def stores_simps)
next
  case ra_pop_load
  with assms(3) show ?thesis by (auto simp: ra_inv_def ra_window_def ra_content_def stores_simps)
qed (use assms(2,3) in \<open>simp_all add: ra_inv_push_acquire ra_inv_push_write ra_inv_push_release
        ra_inv_pop_acquire ra_inv_pop_read ra_inv_pop_release\<close>)

interpretation ra: counted_invariant "ra_step c" "ra_init c d" "\<lambda>_ s. valid_capacity c \<longrightarrow> ra_inv c s" n for c d n
  by unfold_locales (auto intro: ra_inv_init ra_inv_step)

section \<open>Progress\<close>

text \<open>How far the consumer is in its current call of \<^verbatim>\<open>try_pop\<close>; a successful call takes four steps.\<close>

fun phase :: "'a consumer \<Rightarrow> nat" where
  "phase C_idle = 0" | "phase (C_loaded t) = 1" | "phase (C_checked t) = 2" | "phase (C_read x t) = 3"

definition progress :: "'a ra_state \<Rightarrow> nat" where
  "progress s = 4 * length (c_done s) + phase (c_pc s)"

text \<open>A step in which \<^verbatim>\<open>try_pop\<close> reports an empty queue although an element has been pushed.\<close>

definition spurious :: "'a ra_state \<Rightarrow> 'a ra_state \<Rightarrow> bool" where
  "spurious s s' \<longleftrightarrow> phase (c_pc s) = 1 \<and> c_pc s' = C_idle \<and> length (c_done s) < length (p_done s)"

text \<open>A run, with the number of steps of the consumer in it (the steps that move its program counter) and
  the number of spurious failures among them.\<close>

inductive ra_run :: "u64 \<Rightarrow> 'a ra_state \<Rightarrow> nat \<Rightarrow> nat \<Rightarrow> 'a ra_state \<Rightarrow> bool" for c s where
  run_none: "ra_run c s 0 0 s"
| run_step: "ra_run c s n e s1 \<Longrightarrow> ra_step c s1 s2 \<Longrightarrow>
    ra_run c s (n + of_bool (c_pc s1 \<noteq> c_pc s2)) (e + of_bool (spurious s1 s2)) s2"

text \<open>While something is queued every step of the consumer brings it nearer to the next element, but for
  the spurious failures, which undo one step.\<close>

lemma progress_step:
  assumes "ra_step c s s'" "ra_inv c s" "length (c_done s) < length (p_done s)"
  shows "progress s' + 2 * of_bool (spurious s s') = progress s + of_bool (c_pc s \<noteq> c_pc s')"
  using assms by (cases rule: ra_step.cases) (auto simp: progress_def spurious_def)

text \<open>A spurious failure is always due to a stale load: it read the store made before the element was pushed.\<close>

lemma spurious_stale:
  assumes "ra_step c s s'" "valid_capacity c" "ra_inv c s" "spurious s s'"
  shows "c_seen s' = length (c_done s)"
  using assms(1)
proof (cases rule: ra_step.cases)
  case (ra_pop_acquire t j)
  let ?C = "length (c_done s)"
  have w: "ra_window c s" "heads s = stores c (length (p_done s))" "t = index c ?C" using assms(3) ra_pop_acquire(2) by (auto simp: ra_inv_def)
  then have t: "heads s ! j = (index c j, j)" "j \<le> length (p_done s)" using ra_pop_acquire(4) by (simp_all add: stores_simps stores_nth)
  moreover have "index c ?C = index c j" using assms(4) ra_pop_acquire(1) w t by (auto simp: spurious_def split: if_splits)
  ultimately have "?C = j" using index_eq_iff [OF assms(2), of ?C j] w(1) ra_pop_acquire(3) by (simp add: ra_window_def)
  with ra_pop_acquire(1) show ?thesis by simp
qed (use assms(4) in \<open>auto simp: spurious_def\<close>)

lemma done_step:
  assumes "ra_step c s s'"
  shows "\<exists>xs. p_done s' = p_done s @ xs" "length (c_done s) \<le> length (c_done s')"
  using assms by (cases rule: ra_step.cases; auto)+

lemma ra_run_inv: "ra_run c s n e s' \<Longrightarrow> valid_capacity c \<Longrightarrow> ra_inv c s \<Longrightarrow> ra_inv c s'"
  by (induction rule: ra_run.induct) (auto intro: ra_inv_step)

lemma ra_run_done: "ra_run c s n e s' \<Longrightarrow> \<exists>xs. p_done s' = p_done s @ xs"
  by (induction rule: ra_run.induct) (use done_step(1) in \<open>fastforce+\<close>)

lemma progress_run:
  assumes "ra_run c s n e s'" "valid_capacity c" "ra_inv c s"
  shows "length (p_done s) \<le> length (c_done s') \<or> progress s' + 2 * e = progress s + n"
  using assms(1)
proof (induction rule: ra_run.induct)
  case (run_step n e s1 s2)
  show ?case
  proof (cases "length (p_done s) \<le> length (c_done s1)")
    case True
    with done_step(2) [OF run_step.hyps(2)] show ?thesis by simp
  next
    case False
    have inv: "ra_inv c s1" by (rule ra_run_inv [OF run_step.hyps(1) assms(2,3)])
    have "length (c_done s1) < length (p_done s1)" using ra_run_done [OF run_step.hyps(1)] False by auto
    from progress_step [OF run_step.hyps(2) inv this] run_step.IH False show ?thesis by simp
  qed
qed simp

lemma window_nonempty: "ra_inv c s \<Longrightarrow> p_seen s < length (tails s) \<and> c_seen s < length (heads s)"
  by (simp add: ra_inv_def ra_window_def stores_simps)

lemma producer_enabled:
  assumes "ra_inv c s"
  shows "\<exists>s'. ra_step c s s' \<and> p_pc s' \<noteq> p_pc s"
proof (cases "p_pc s")
  case P_idle
  then show ?thesis using ra_push_load [of s c] by fastforce
next
  case (P_loaded x h)
  from ra_push_acquire [OF this order_refl, of c] window_nonempty [OF assms] P_loaded show ?thesis by (intro exI conjI) (auto split: if_splits)
next
  case (P_checked x h)
  then show ?thesis using ra_push_write [OF P_checked, of c] by fastforce
next
  case (P_written x h)
  then show ?thesis using ra_push_release [OF P_written, of c] by fastforce
qed

lemma consumer_enabled:
  assumes "ra_inv c s"
  shows "\<exists>s'. ra_step c s s' \<and> c_pc s' \<noteq> c_pc s"
proof (cases "c_pc s")
  case C_idle
  then show ?thesis using ra_pop_load [of s c] by fastforce
next
  case (C_loaded t)
  from ra_pop_acquire [OF this order_refl, of c] window_nonempty [OF assms] C_loaded show ?thesis by (intro exI conjI) (auto split: if_splits)
next
  case (C_checked t)
  then show ?thesis using ra_pop_read [OF C_checked, of c] by fastforce
next
  case (C_read x t)
  then show ?thesis using ra_pop_release [OF C_read, of c] by fastforce
qed

section \<open>Theorems\<close>

text \<open>
  C9. The ring buffer is correct under the memory orders of the source, in every interleaving of
  one producer and one consumer and whatever stale values the acquire loads return: no two accesses
  to a slot race and none leaves the buffer, what has been popped is a prefix of what has been
  pushed, in order, and at most \<^verbatim>\<open>Capacity - 1\<close> elements are under way.
\<close>

theorem release_acquire_safe:
  assumes "valid_capacity c" and "ra_reach c d n s"
  shows "\<not> undefined_access s \<and> (\<exists>rest. p_done s = c_done s @ rest \<and> length rest \<le> unat c - 1)"
proof -
  have inv: "ra_inv c s" using ra.reach_inv [OF assms(2) order_refl] assms(1) by simp
  then have "p_done s = c_done s @ drop (length (c_done s)) (p_done s)"
    by (metis append_take_drop_id ra_content_def ra_inv_def)
  moreover have "length (drop (length (c_done s)) (p_done s)) \<le> unat c - 1"
    using inv by (auto simp: ra_inv_def ra_window_def)
  ultimately show ?thesis using inv by (auto simp: ra_inv_def)
qed

text \<open>Two elements have been pushed; the consumer has read the first one after its acquire load
  returned the older of the two stores.\<close>

definition stale_state :: "nat ra_state" where
  "stale_state =
     \<lparr>heads = [(0, 0), (1, 1), (2, 2)], tails = [(0, 0)], cells = [7, 8, 0, 0],
      p_touched = (\<lambda>_. 0)(0 := 1, 1 := 2), c_touched = (\<lambda>_. 0)(0 := 1), p_pc = P_idle, c_pc = C_read 7 0,
      p_clock = 2, c_clock = 1, p_seen = 0, c_seen = 1, p_knows = 0, c_knows = 1,
      p_done = [7, 8], c_done = [], undefined_access = False\<rparr>"

lemma stale_state_reachable: "ra_reach 4 0 11 stale_state"
proof -
  let ?s = "\<lambda>hs b pt p k pc d. \<lparr>heads = hs, tails = [(0, 0)], cells = b, p_touched = pt, c_touched = (\<lambda>_. 0), p_pc = p,
      c_pc = k, p_clock = pc, c_clock = 0, p_seen = 0, c_seen = 0, p_knows = 0, c_knows = 0, p_done = d, c_done = [],
      undefined_access = False\<rparr> :: nat ra_state"
  let ?f = "\<lambda>_ :: nat. 0 :: nat" and ?h1 = "[(0 :: u64, 0), (1, 1)]" and ?h2 = "[(0 :: u64, 0), (1, 1), (2, 2 :: nat)]"
  have m: "((0 :: u64) + 1) AND MASK 4 = 1" "((1 :: u64) + 1) AND MASK 4 = 2" by code_simp+
  have "replicate (unat (4 :: u64)) (0 :: nat) = [0, 0, 0, 0]" by code_simp
  then have "ra_init 4 (0 :: nat) = ?s [(0, 0)] [0, 0, 0, 0] ?f P_idle C_idle 0 []" by (simp add: ra_init_def)
  then have "ra_reach 4 0 0 (?s [(0, 0)] [0, 0, 0, 0] ?f P_idle C_idle 0 [])" using reach_start by metis
  from reach_next [OF this ra_push_load [of _ _ 7]]
  have "ra_reach 4 0 (Suc 0) (?s [(0, 0)] [0, 0, 0, 0] ?f (P_loaded 7 0) C_idle 0 [])" by simp
  from reach_next [OF this ra_push_acquire [where j = 0]] m
  have "ra_reach 4 0 (Suc (Suc 0)) (?s [(0, 0)] [0, 0, 0, 0] ?f (P_checked 7 0) C_idle 0 [])" by simp
  from reach_next [OF this ra_push_write]
  have "ra_reach 4 0 (Suc (Suc (Suc 0))) (?s [(0, 0)] [7, 0, 0, 0] (?f(0 := 1)) (P_written 7 0) C_idle 1 [])" by simp
  from reach_next [OF this ra_push_release] m
  have "ra_reach 4 0 4 (?s ?h1 [7, 0, 0, 0] (?f(0 := 1)) P_idle C_idle 1 [7])" by (simp add: eval_nat_numeral)
  from reach_next [OF this ra_push_load [of _ _ 8]]
  have "ra_reach 4 0 5 (?s ?h1 [7, 0, 0, 0] (?f(0 := 1)) (P_loaded 8 1) C_idle 1 [7])" by simp
  from reach_next [OF this ra_push_acquire [where j = 0]] m
  have "ra_reach 4 0 6 (?s ?h1 [7, 0, 0, 0] (?f(0 := 1)) (P_checked 8 1) C_idle 1 [7])" by simp
  from reach_next [OF this ra_push_write]
  have "ra_reach 4 0 7 (?s ?h1 [7, 8, 0, 0] (?f(0 := 1, 1 := 2)) (P_written 8 1) C_idle 2 [7])"
    by (simp add: numeral_2_eq_2)
  from reach_next [OF this ra_push_release] m
  have "ra_reach 4 0 8 (?s ?h2 [7, 8, 0, 0] (?f(0 := 1, 1 := 2)) P_idle C_idle 2 [7, 8])" by simp
  from reach_next [OF this ra_pop_load]
  have "ra_reach 4 0 9 (?s ?h2 [7, 8, 0, 0] (?f(0 := 1, 1 := 2)) P_idle (C_loaded 0) 2 [7, 8])" by simp
  from reach_next [OF reach_next [OF this ra_pop_acquire [where j = 1]] ra_pop_read] show ?thesis
    by (simp add: stale_state_def)
qed

theorem release_acquire_safe_witness:
  "\<not> undefined_access stale_state \<and> (\<exists>rest. p_done stale_state = c_done stale_state @ rest \<and> length rest \<le> unat (4 :: u64) - 1)"
proof -
  have "valid_capacity 4" by code_simp
  from release_acquire_safe [OF this stale_state_reachable] show ?thesis .
qed

text \<open>
  C24. Wait-freedom under the memory orders of the source: in every reachable state both threads can take
  their next step, whatever the other one does and whatever stale values the acquire loads return. Whatever
  the interleaving, once the consumer has taken four steps for each element now in the ring buffer and two
  more for each spurious failure (a \<^verbatim>\<open>try_pop\<close> that reports an empty queue although there is an element),
  everything pushed up to now has been popped, in order. And a spurious failure always comes from a load that
  read the old store to \<^verbatim>\<open>head_\<close>, made before the element was pushed: with loads that read the last store
  there is none.
\<close>

theorem pushed_is_popped:
  assumes "valid_capacity c" and "ra_reach c d k s" and "ra_run c s n e s'"
    and "4 * (length (p_done s) - length (c_done s)) + 2 * e \<le> n"
  shows "(\<exists>later. c_done s' = p_done s @ later)
    \<and> (\<exists>s1. ra_step c s' s1 \<and> p_pc s1 \<noteq> p_pc s') \<and> (\<exists>s2. ra_step c s' s2 \<and> c_pc s2 \<noteq> c_pc s')
    \<and> (\<forall>s1. ra_step c s' s1 \<longrightarrow> spurious s' s1 \<longrightarrow> c_seen s1 = length (c_done s') \<and> c_seen s1 < length (p_done s'))"
proof -
  have inv: "ra_inv c s" using ra.reach_inv [OF assms(2) order_refl] assms(1) by simp
  then have inv': "ra_inv c s'" by (rule ra_run_inv [OF assms(3,1)])
  have "phase (c_pc s') \<le> 3" by (cases "c_pc s'") simp_all
  then have len: "length (p_done s) \<le> length (c_done s')"
    using progress_run [OF assms(3,1) inv] assms(4) by (auto simp: progress_def)
  obtain xs where "p_done s' = p_done s @ xs" using ra_run_done [OF assms(3)] by blast
  with len inv' have "\<exists>later. c_done s' = p_done s @ later" by (metis ra_content_def ra_inv_def take_all_iff take_append)
  moreover have "c_seen s1 = length (c_done s') \<and> c_seen s1 < length (p_done s')" if "ra_step c s' s1" "spurious s' s1" for s1
    using spurious_stale [OF that(1) assms(1) inv' that(2)] that(2) by (simp add: spurious_def)
  ultimately show ?thesis using producer_enabled [OF inv'] consumer_enabled [OF inv'] by blast
qed

text \<open>From the state above the consumer completes its call; its next load again reads the store it has seen, and
  the call fails although the second element is there; the third call pops it, the fourth finds the
  buffer empty.\<close>

definition drained_state :: "nat ra_state" where
  "drained_state =
     \<lparr>heads = [(0, 0), (1, 1), (2, 2)], tails = [(0, 0), (1, 1), (2, 2)], cells = [7, 8, 0, 0],
      p_touched = (\<lambda>_. 0)(0 := 1, 1 := 2), c_touched = (\<lambda>_. 0)(0 := 1, 1 := 2), p_pc = P_idle, c_pc = C_loaded 2,
      p_clock = 2, c_clock = 2, p_seen = 0, c_seen = 2, p_knows = 0, c_knows = 2,
      p_done = [7, 8], c_done = [7, 8], undefined_access = False\<rparr>"

lemma drained_run: "ra_run 4 stale_state 10 1 drained_state"
proof -
  let ?s = "\<lambda>ts ct k cc sn dn. \<lparr>heads = [(0, 0), (1, 1), (2, 2)], tails = ts, cells = [7, 8, 0, 0], p_touched = (\<lambda>_. 0)(0 := 1, 1 := 2),
      c_touched = ct, p_pc = P_idle, c_pc = k, p_clock = 2, c_clock = cc, p_seen = 0, c_seen = sn, p_knows = 0, c_knows = sn,
      p_done = [7, 8], c_done = dn, undefined_access = False\<rparr> :: nat ra_state"
  let ?t1 = "[(0 :: u64, 0), (1, 1)]" and ?t2 = "[(0 :: u64, 0), (1, 1), (2, 2 :: nat)]" and ?f = "(\<lambda>_ :: nat. 0 :: nat)(0 := 1)"
  note sp = spurious_def
  have m: "((0 :: u64) + 1) AND MASK 4 = 1" "((1 :: u64) + 1) AND MASK 4 = 2" by code_simp+
  have "ra_run 4 stale_state 0 0 (?s [(0, 0)] ?f (C_read 7 0) 1 1 [])" using run_none [of 4 stale_state] by (simp add: stale_state_def)
  from run_step [OF this ra_pop_release] m have "ra_run 4 stale_state 1 0 (?s ?t1 ?f C_idle 1 1 [7])" by (simp add: sp)
  from run_step [OF this ra_pop_load] have "ra_run 4 stale_state 2 0 (?s ?t1 ?f (C_loaded 1) 1 1 [7])" by (simp add: sp numeral_2_eq_2)
  from run_step [OF this ra_pop_acquire [where j = 1]] have "ra_run 4 stale_state 3 1 (?s ?t1 ?f C_idle 1 1 [7])" by (simp add: sp)
  from run_step [OF this ra_pop_load] have "ra_run 4 stale_state 4 1 (?s ?t1 ?f (C_loaded 1) 1 1 [7])" by (simp add: sp)
  from run_step [OF this ra_pop_acquire [where j = 2]] have "ra_run 4 stale_state 5 1 (?s ?t1 ?f (C_checked 1) 1 2 [7])" by (simp add: sp numeral_2_eq_2)
  from run_step [OF this ra_pop_read] have "ra_run 4 stale_state 6 1 (?s ?t1 (?f(1 := 2)) (C_read 8 1) 2 2 [7])"
    by (simp add: sp numeral_2_eq_2)
  from run_step [OF this ra_pop_release] m have "ra_run 4 stale_state 7 1 (?s ?t2 (?f(1 := 2)) C_idle 2 2 [7, 8])" by (simp add: sp)
  from run_step [OF this ra_pop_load] have "ra_run 4 stale_state 8 1 (?s ?t2 (?f(1 := 2)) (C_loaded 2) 2 2 [7, 8])" by (simp add: sp)
  from run_step [OF this ra_pop_acquire [where j = 2]] have "ra_run 4 stale_state 9 1 (?s ?t2 (?f(1 := 2)) C_idle 2 2 [7, 8])" by (simp add: sp)
  from run_step [OF this ra_pop_load] show ?thesis by (simp add: sp drained_state_def)
qed

theorem pushed_is_popped_witness:
  "ra_run 4 stale_state 10 1 drained_state \<and> (\<exists>later. c_done drained_state = p_done stale_state @ later)"
proof -
  have "valid_capacity 4" by code_simp
  moreover have "4 * (length (p_done stale_state) - length (c_done stale_state)) + 2 * 1 \<le> 10" by (simp add: stale_state_def)
  ultimately show ?thesis using pushed_is_popped [OF _ stale_state_reachable drained_run] drained_run by blast
qed

end
