(* ===== verification/Client.thy ===== *)
theory Client
  imports Protocol
begin

text \<open>
  \<^verbatim>\<open>client/src/main.cpp\<close>: the interactive client. The receive thread reads replies from the
  socket and remembers which exchange id belongs to which of the client's own order ids; the
  main loop turns command lines into request messages.

  The socket delivers a byte stream; how many bytes one \<^verbatim>\<open>recv\<close> returns is a parameter
  \<open>recv_size\<close> of the model, of which only what the system call documents is assumed
  (\<open>fair_recv\<close>): at least one byte while the stream has not ended, and no more than asked for.
  Printing is a list of the messages printed; \<open>None\<close> is reading bytes that were never
  initialised.
\<close>

section \<open>Receiving\<close>

definition fair_recv :: "(u8 list \<Rightarrow> nat \<Rightarrow> nat) \<Rightarrow> bool" where
  "fair_recv recv_size \<longleftrightarrow>
     (\<forall>bs n. bs \<noteq> [] \<longrightarrow> 0 < n \<longrightarrow> 0 < recv_size bs n \<and> recv_size bs n \<le> n \<and> recv_size bs n \<le> length bs)"

text \<open>The loop of \<^verbatim>\<open>recvMsg\<close> and of the body read: \<open>Inl\<close> holds the bytes read before the stream
  ended, \<open>Inr\<close> all the bytes asked for and the rest of the stream.\<close>

function recvAll :: "(u8 list \<Rightarrow> nat \<Rightarrow> nat) \<Rightarrow> nat \<Rightarrow> u8 list \<Rightarrow> u8 list + u8 list \<times> u8 list" where
  "recvAll recv_size remaining bs =
     (if remaining = 0 then Inr ([], bs)
      else
        let n = recv_size bs remaining
        in if bs = [] \<or> n = 0 then Inl []
           else case recvAll recv_size (remaining - n) (drop n bs) of
                  Inl got \<Rightarrow> Inl (take n bs @ got)
                | Inr (got, rest) \<Rightarrow> Inr (take n bs @ got, rest))"
  by pat_completeness auto
termination by (relation "measure (\<lambda>(k, n, bs). n)") auto

declare recvAll.simps [simp del]

datatype printed =
    P_new_confirm NewOrderConfirmMsg
  | P_modify_confirm ModifyOrderConfirmMsg
  | P_cancel_confirm CancelOrderConfirmMsg
  | P_trade_confirm TradeConfirmMsg
  | P_reject RejectMsg
  | P_market_update MarketUpdateMsg
  | P_unknown MsgType u16
  | P_disconnected

record Client =
  gRunning :: bool
  internalToExchange :: "OrderId \<rightharpoonup> OrderId"

definition Client_init :: Client where
  "Client_init = \<lparr>gRunning = True, internalToExchange = Map.empty\<rparr>"

text \<open>A message assembled from the header and the initialised part of \<^verbatim>\<open>body\<close>.\<close>

definition assemble :: "MsgHeader \<Rightarrow> u8 list \<Rightarrow> nat \<Rightarrow> u8 list option" where
  "assemble header body sz =
     (if sz - sizeof_MsgHeader \<le> length body then Some (encode_MsgHeader header @ take (sz - sizeof_MsgHeader) body)
      else None)"

text \<open>The \<^verbatim>\<open>switch\<close> of the receive loop.\<close>

definition handleReply :: "MsgHeader \<Rightarrow> u8 list \<Rightarrow> Client \<Rightarrow> (Client \<times> printed) option" where
  "handleReply header body c =
     (case header_type header of
        NewOrderConfirm \<Rightarrow> do {
          bs \<leftarrow> assemble header body sizeof_NewOrderConfirmMsg;
          let msg = decode_NewOrderConfirmMsg bs;
          Some (c\<lparr>internalToExchange := (internalToExchange c)(nc_clientOrderId msg \<mapsto> nc_orderId msg)\<rparr>, P_new_confirm msg)
        }
      | ModifyOrderConfirm \<Rightarrow> do {
          bs \<leftarrow> assemble header body sizeof_ModifyOrderConfirmMsg;
          Some (c, P_modify_confirm (decode_ModifyOrderConfirmMsg bs))
        }
      | CancelOrderConfirm \<Rightarrow> do {
          bs \<leftarrow> assemble header body sizeof_CancelOrderConfirmMsg;
          Some (c, P_cancel_confirm (decode_CancelOrderConfirmMsg bs))
        }
      | TradeConfirm \<Rightarrow> do {
          bs \<leftarrow> assemble header body sizeof_TradeConfirmMsg;
          Some (c, P_trade_confirm (decode_TradeConfirmMsg bs))
        }
      | MsgReject \<Rightarrow> do {
          bs \<leftarrow> assemble header body sizeof_RejectMsg;
          Some (c, P_reject (decode_RejectMsg bs))
        }
      | MarketUpdate \<Rightarrow> do {
          bs \<leftarrow> assemble header body sizeof_MarketUpdateMsg;
          Some (c, P_market_update (decode_MarketUpdateMsg bs))
        }
      | t \<Rightarrow> Some (c, P_unknown t (header_length header)))"

text \<open>One iteration of \<^verbatim>\<open>recvThreadFunc\<close>. The subtraction for the body size is on
  \<^verbatim>\<open>std::size_t\<close> and wraps for lengths below 3; the body buffer has 256 bytes.\<close>

definition bodySize :: "MsgHeader \<Rightarrow> u64" where
  "bodySize header = ucast (header_length header) - of_nat sizeof_MsgHeader"

definition recvIteration ::
  "(u8 list \<Rightarrow> nat \<Rightarrow> nat) \<Rightarrow> u8 list \<Rightarrow> Client \<Rightarrow> (Client \<times> u8 list \<times> printed list) option" where
  "recvIteration recv_size bs c =
     (case recvAll recv_size sizeof_MsgHeader bs of
        Inl _ \<Rightarrow> Some (c\<lparr>gRunning := False\<rparr>, [], [P_disconnected])
      | Inr (hbytes, bs1) \<Rightarrow>
          let header = decode_MsgHeader hbytes;
              (body, bs2, ok) =
                (if 0 < bodySize header \<and> bodySize header \<le> 256
                 then case recvAll recv_size (unat (bodySize header)) bs1 of
                        Inl got \<Rightarrow> (got, [], False)
                      | Inr (got, rest) \<Rightarrow> (got, rest, True)
                 else ([], bs1, True))
          in do {
            (c', p) \<leftarrow> handleReply header body (if ok then c else c\<lparr>gRunning := False\<rparr>);
            Some (c', bs2, [p])
          })"

text \<open>The loop, on a stream that ends: every iteration consumes the header or stops.\<close>

fun recvLoop ::
  "nat \<Rightarrow> (u8 list \<Rightarrow> nat \<Rightarrow> nat) \<Rightarrow> u8 list \<Rightarrow> Client \<Rightarrow> (Client \<times> printed list) option" where
  "recvLoop 0 recv_size bs c = None"
| "recvLoop (Suc fuel) recv_size bs c =
     (if gRunning c then do {
        (c1, bs1, ps) \<leftarrow> recvIteration recv_size bs c;
        (c2, ps') \<leftarrow> recvLoop fuel recv_size bs1 c1;
        Some (c2, ps @ ps')
      } else Some (c, []))"

section \<open>Lemmas on receiving\<close>

lemma recvAll_enough:
  "fair_recv k \<Longrightarrow> n \<le> length bs \<Longrightarrow> recvAll k n bs = Inr (take n bs, drop n bs)"
proof (induction k n bs rule: recvAll.induct)
  case (1 k n bs)
  show ?case
  proof (cases "n = 0")
    case False
    with "1.prems" have bs: "bs \<noteq> []" by auto
    let ?m = "k bs n"
    have m: "0 < ?m" "?m \<le> n" "?m \<le> length bs" using "1.prems"(1) bs False by (auto simp: fair_recv_def)
    have "recvAll k (n - ?m) (drop ?m bs) = Inr (take (n - ?m) (drop ?m bs), drop (n - ?m) (drop ?m bs))"
      using 1 False bs m by simp
    moreover have "take ?m bs @ take (n - ?m) (drop ?m bs) = take n bs"
      using m(2) by (metis le_add_diff_inverse take_add)
    ultimately show ?thesis using False bs m by (subst recvAll.simps) (simp add: Let_def)
  qed (simp add: recvAll.simps)
qed

lemma recvAll_append: "fair_recv k \<Longrightarrow> n = length a \<Longrightarrow> recvAll k n (a @ b) = Inr (a, b)"
  by (simp add: recvAll_enough)

lemma recvAll_eof: "0 < n \<Longrightarrow> recvAll k n [] = Inl []"
  by (subst recvAll.simps) simp

text \<open>Reading one message of any reply type whose header announces its size.\<close>

context wire_codec
begin

lemma split_header: "encode m = encode_MsgHeader (header m) @ drop 3 (encode m)"
  using header_first [of m "[]"] by (metis append_Nil2 append_take_drop_id)

lemma assemble_whole: "assemble (header m) (drop 3 (encode m)) sz = Some (encode m)"
  using split_header [of m] by (simp add: assemble_def sizeof_MsgHeader_def encode_length)

lemma recv_message:
  assumes "fair_recv k" "valid m" "header_length (header m) = of_nat sz" "3 < sz" "sz \<le> 259"
  shows "recvIteration k (encode m @ rest) c
    = map_option (\<lambda>(c', p). (c', rest, [p])) (handleReply (header m) (drop 3 (encode m)) c)"
proof -
  have len: "length (encode_MsgHeader (header m)) = 3" by (simp add: encode_MsgHeader_def)
  have "recvAll k sizeof_MsgHeader (encode m @ rest) = Inr (encode_MsgHeader (header m), drop 3 (encode m) @ rest)"
    using recvAll_append [OF assms(1), of 3 "encode_MsgHeader (header m)" "drop 3 (encode m) @ rest"] len
    unfolding sizeof_MsgHeader_def by (metis append_assoc split_header)
  moreover have "decode_MsgHeader (encode_MsgHeader (header m)) = header m"
    using valid_header [OF assms(2)] by (rule decode_MsgHeader_encode)
  moreover have body: "bodySize (header m) = of_nat (sz - 3)"
    using assms(3-5) by (simp add: bodySize_def sizeof_MsgHeader_def of_nat_diff unsigned_of_nat take_bit_nat_eq_self)
  moreover have "unat (bodySize (header m)) = sz - 3"
    using assms(4,5) by (simp add: body unsigned_of_nat take_bit_nat_eq_self del: of_nat_diff)
  moreover have "0 < bodySize (header m)" "bodySize (header m) \<le> 256"
    using \<open>unat (bodySize (header m)) = sz - 3\<close> assms(4,5) by (simp_all add: word_less_nat_alt word_le_nat_alt del: of_nat_diff)
  moreover have "recvAll k (sz - 3) (drop 3 (encode m) @ rest) = Inr (drop 3 (encode m), rest)"
    by (rule recvAll_append [OF assms(1)]) (simp add: encode_length)
  ultimately show ?thesis
    by (cases "handleReply (header m) (drop 3 (encode m)) c") (auto simp: recvIteration_def Let_def simp del: of_nat_diff)
qed

end

section \<open>Commands\<close>

text \<open>Extraction from a \<^verbatim>\<open>std::stringstream\<close> in the C locale: leading white space is skipped; a word
  extends to the next white space; a number is an optional sign and decimal digits, fails without
  a digit or when it exceeds the type, and a minus sign negates it modulo \<open>2^w\<close>.\<close>

definition isspace :: "char \<Rightarrow> bool" where
  "isspace ch \<longleftrightarrow> ch \<in> {CHR '' '', CHR 0x09, CHR 0x0A, CHR 0x0B, CHR 0x0C, CHR 0x0D}"

definition skip_ws :: "string \<Rightarrow> string" where
  "skip_ws s = dropWhile isspace s"

definition read_word :: "string \<Rightarrow> (string \<times> string) option" where
  "read_word s =
     (let t = skip_ws s; w = takeWhile (\<lambda>ch. \<not> isspace ch) t
      in if w = [] then None else Some (w, dropWhile (\<lambda>ch. \<not> isspace ch) t))"

definition digit :: "char \<Rightarrow> int option" where
  "digit ch = (let n = of_char ch :: int in if 48 \<le> n \<and> n \<le> 57 then Some (n - 48) else None)"

fun digits_value :: "int \<Rightarrow> string \<Rightarrow> int" where
  "digits_value acc [] = acc"
| "digits_value acc (ch # s) = digits_value (10 * acc + (case digit ch of None \<Rightarrow> 0 | Some d \<Rightarrow> d)) s"

definition read_unsigned :: "string \<Rightarrow> ('a::len word \<times> string) option" where
  "read_unsigned s =
     (let t = skip_ws s;
          neg = (t \<noteq> [] \<and> hd t = CHR ''-'');
          u = (if t \<noteq> [] \<and> (hd t = CHR ''-'' \<or> hd t = CHR ''+'') then tl t else t);
          ds = takeWhile (\<lambda>ch. digit ch \<noteq> None) u;
          v = digits_value 0 ds
      in if ds = [] \<or> 2 ^ LENGTH('a) \<le> v then None
         else Some (if neg then - of_int v else of_int v, dropWhile (\<lambda>ch. digit ch \<noteq> None) u))"

definition clean_commas :: "string \<Rightarrow> string" where
  "clean_commas s = map (\<lambda>ch. if ch = CHR '','' then CHR '' '' else ch) s"

text \<open>What a command line makes the client do.\<close>

datatype client_action =
    Ignore
  | Quit
  | Invalid_format
  | Unknown_internal_id OrderId
  | Unknown_action string
  | Request "u8 list"

definition newOrder :: "OrderId \<Rightarrow> SymbolId \<Rightarrow> string \<Rightarrow> Price \<Rightarrow> Quantity \<Rightarrow> NewOrderRequestMsg" where
  "newOrder internalId symId sideStr price qty =
     \<lparr>no_header = \<lparr>header_length = of_nat sizeof_NewOrderRequestMsg, header_type = NewOrderRequest\<rparr>,
      no_clientOrderId = internalId, no_symbolId = symId, no_side = (if sideStr = ''BUY'' then Buy else Sell),
      no_price = price, no_qty = qty\<rparr>"

definition modifyRequest :: "OrderId \<Rightarrow> SymbolId \<Rightarrow> Price \<Rightarrow> Quantity \<Rightarrow> ModifyOrderRequestMsg" where
  "modifyRequest exchId symId price qty =
     \<lparr>mo_header = \<lparr>header_length = of_nat sizeof_ModifyOrderRequestMsg, header_type = ModifyOrderRequest\<rparr>,
      mo_orderId = exchId, mo_symbolId = symId, mo_price = price, mo_qty = qty\<rparr>"

definition cancelRequest :: "OrderId \<Rightarrow> SymbolId \<Rightarrow> CancelOrderRequestMsg" where
  "cancelRequest exchId symId =
     \<lparr>co_header = \<lparr>header_length = of_nat sizeof_CancelOrderRequestMsg, header_type = CancelOrderRequest\<rparr>,
      co_orderId = exchId, co_symbolId = symId\<rparr>"

definition lookupExchangeId :: "OrderId \<Rightarrow> Client \<Rightarrow> OrderId" where
  "lookupExchangeId internalId c = (case internalToExchange c internalId of None \<Rightarrow> 0 | Some e \<Rightarrow> e)"

definition or_invalid :: "client_action option \<Rightarrow> client_action" where
  "or_invalid r = (case r of None \<Rightarrow> Invalid_format | Some a \<Rightarrow> a)"

definition cmdNew :: "string \<Rightarrow> client_action" where
  "cmdNew ss = or_invalid (do {
     (internalId, s1) \<leftarrow> read_unsigned ss;
     (symId, s2) \<leftarrow> read_unsigned s1;
     (sideStr, s3) \<leftarrow> read_word s2;
     (price, s4) \<leftarrow> read_unsigned s3;
     (qty, s5) \<leftarrow> read_unsigned s4;
     Some (Request (encode_NewOrderRequestMsg (newOrder internalId symId sideStr price qty)))
   })"

definition cmdModify :: "string \<Rightarrow> Client \<Rightarrow> client_action" where
  "cmdModify ss c = or_invalid (do {
     (internalId, s1) \<leftarrow> read_unsigned ss;
     (symId, s2) \<leftarrow> read_unsigned s1;
     (price, s3) \<leftarrow> read_unsigned s2;
     (qty, s4) \<leftarrow> read_unsigned s3;
     let exchId = lookupExchangeId internalId c;
     Some (if exchId = 0 then Unknown_internal_id internalId
           else Request (encode_ModifyOrderRequestMsg (modifyRequest exchId symId price qty)))
   })"

definition cmdCancel :: "string \<Rightarrow> Client \<Rightarrow> client_action" where
  "cmdCancel ss c = or_invalid (do {
     (internalId, s1) \<leftarrow> read_unsigned ss;
     (symId, s2) \<leftarrow> read_unsigned s1;
     let exchId = lookupExchangeId internalId c;
     Some (if exchId = 0 then Unknown_internal_id internalId
           else Request (encode_CancelOrderRequestMsg (cancelRequest exchId symId)))
   })"

text \<open>A line without a word leaves \<^verbatim>\<open>action\<close> empty, which is an unknown action.\<close>

definition command :: "string \<Rightarrow> Client \<Rightarrow> client_action" where
  "command line c =
     (if line = [] \<or> hd line = CHR ''#'' then Ignore
      else if line = ''quit'' \<or> line = ''q'' \<or> line = ''exit'' then Quit
      else case read_word (clean_commas line) of
             None \<Rightarrow> Unknown_action []
           | Some (a, ss) \<Rightarrow>
               if a = ''N'' then cmdNew ss
               else if a = ''M'' then cmdModify ss c
               else if a = ''C'' then cmdCancel ss c
               else Unknown_action a)"

text \<open>One iteration of the command loop; \<open>sent\<close> is whether \<^verbatim>\<open>sendMsg\<close> sent the whole message.\<close>

definition commandStep :: "bool \<Rightarrow> string \<Rightarrow> Client \<Rightarrow> Client \<times> client_action" where
  "commandStep sent line c =
     (case command line c of
        Quit \<Rightarrow> (c\<lparr>gRunning := False\<rparr>, Quit)
      | Request bs \<Rightarrow> (if sent then c else c\<lparr>gRunning := False\<rparr>, Request bs)
      | a \<Rightarrow> (c, a))"

text \<open>The login the client sends, and what it makes of the response.\<close>

definition loginRequest :: "TraderId \<Rightarrow> LoginRequestMsg" where
  "loginRequest traderId =
     \<lparr>lr_header = \<lparr>header_length = of_nat sizeof_LoginRequestMsg, header_type = LoginRequest\<rparr>, lr_traderId = traderId\<rparr>"

section \<open>Numbers typed in decimal\<close>

lemma digit_digit_char: "d < 10 \<Longrightarrow> digit (digit_char d) = Some (int d)"
  by (simp add: digit_def digit_char_def of_char_of Let_def)

lemma decimal_digits: "ch \<in> set (decimal n) \<Longrightarrow> digit ch \<noteq> None"
proof (induction n rule: decimal.induct)
  case (1 n)
  then show ?case
    by (cases "n < 10") (auto simp: decimal.simps [of n] digit_digit_char)
qed

lemma digits_value_append: "digits_value acc (s @ t) = digits_value (digits_value acc s) t"
  by (induction s arbitrary: acc) simp_all

lemma digits_value_decimal: "digits_value 0 (decimal n) = int n"
proof (induction n rule: decimal.induct)
  case (1 n)
  show ?case
  proof (cases "n < 10")
    case False
    moreover have "10 * int (n div 10) + int (n mod 10) = int n" by presburger
    ultimately show ?thesis
      using 1 by (simp add: decimal.simps [of n] digits_value_append digit_digit_char)
  qed (simp add: decimal.simps [of n] digit_digit_char)
qed

text \<open>No digit is white space, a comma or a sign.\<close>

lemma digit_other:
  assumes "digit ch \<noteq> None"
  shows "\<not> isspace ch \<and> ch \<noteq> CHR '','' \<and> ch \<noteq> CHR ''-'' \<and> ch \<noteq> CHR ''+''"
proof -
  have "digit ch = None" if "isspace ch \<or> ch = CHR '','' \<or> ch = CHR ''-'' \<or> ch = CHR ''+''"
    using that by (auto simp: isspace_def digit_def)
  with assms show ?thesis by argo
qed

lemma hd_decimal: "digit (hd (decimal n)) \<noteq> None"
  by (rule decimal_digits [of _ n]) simp

lemma clean_commas_simps [simp]:
  "clean_commas (s @ t) = clean_commas s @ clean_commas t" "clean_commas (decimal n) = decimal n"
proof -
  show "clean_commas (decimal n) = decimal n"
    unfolding clean_commas_def using decimal_digits digit_other by (intro map_idI) auto
qed (simp add: clean_commas_def)

lemma read_unsigned_decimal:
  fixes w :: "'a::len word"
  assumes "rest = [] \<or> isspace (hd rest)" "\<forall>ch\<in>set ws. isspace ch"
  shows "read_unsigned (ws @ decimal (unat w) @ rest) = Some (w, rest)"
proof -
  let ?d = "decimal (unat w)"
  have sp: "skip_ws (ws @ ?d @ rest) = ?d @ rest"
    using digit_other [OF hd_decimal] assms(2) hd_Cons_tl [OF decimal_ne, of "unat w"]
    unfolding skip_ws_def by (metis append_Cons dropWhile.simps(2) dropWhile_append2)
  have nd: "rest \<noteq> [] \<Longrightarrow> digit (hd rest) = None"
    using assms(1) digit_other by blast
  have tw: "takeWhile (\<lambda>ch. digit ch \<noteq> None) (?d @ rest) = ?d" "dropWhile (\<lambda>ch. digit ch \<noteq> None) (?d @ rest) = rest"
    using decimal_digits [of _ "unat w"] nd by (cases rest; simp add: takeWhile_append dropWhile_append)+
  have hd: "hd (?d @ rest) \<noteq> CHR ''-''" "hd (?d @ rest) \<noteq> CHR ''+''"
    using digit_other [OF hd_decimal, of "unat w"] by (simp_all add: hd_append)
  have "int (unat w) < 2 ^ LENGTH('a)" using unsigned_less [of w] by simp
  then show ?thesis
    using sp tw hd by (simp add: read_unsigned_def Let_def digits_value_decimal not_le)
qed

lemma read_word_simple:
  assumes "rest = [] \<or> isspace (hd rest)" "\<forall>ch\<in>set ws. isspace ch" "w \<noteq> []" "\<forall>ch\<in>set w. \<not> isspace ch"
  shows "read_word (ws @ w @ rest) = Some (w, rest)"
proof -
  have sp: "skip_ws (ws @ w @ rest) = w @ rest"
    using assms(2-4) unfolding skip_ws_def by (cases w) (simp_all add: dropWhile_append2)
  have "takeWhile (\<lambda>ch. \<not> isspace ch) (w @ rest) = w" "dropWhile (\<lambda>ch. \<not> isspace ch) (w @ rest) = rest"
    using assms(1,4) by (cases rest; simp add: takeWhile_append dropWhile_append)+
  with sp assms(3) show ?thesis by (simp add: read_word_def Let_def)
qed

section \<open>Well-formed command lines\<close>

text \<open>Words without white space and commas, and the gap between two fields of a line, before and
  after the commas are replaced.\<close>

definition plain :: "string \<Rightarrow> bool" where
  "plain w \<longleftrightarrow> w \<noteq> [] \<and> (\<forall>ch\<in>set w. \<not> isspace ch \<and> ch \<noteq> CHR '','')"

definition gap :: string where
  "gap = '', ''"

definition blanks :: string where
  "blanks = ''  ''"

lemma plain_words: "plain ''N''" "plain ''M''" "plain ''C''" "plain ''BUY''" "plain ''SELL''"
  by code_simp+

lemma clean_gap [simp]: "clean_commas gap = blanks"
  by (simp add: gap_def blanks_def clean_commas_def)

lemma clean_plain: "plain w \<Longrightarrow> clean_commas w = w"
  unfolding plain_def clean_commas_def by (intro map_idI) auto

lemma blanks_space: "\<forall>ch\<in>set blanks. isspace ch" "isspace (hd (blanks @ s))"
  by (simp_all add: blanks_def isspace_def)

lemma read_number:
  fixes v :: "'a::len word"
  shows "read_unsigned (blanks @ decimal (unat v)) = Some (v, [])"
    "read_unsigned (blanks @ decimal (unat v) @ blanks @ s) = Some (v, blanks @ s)"
  using read_unsigned_decimal [of "[]" blanks v] read_unsigned_decimal [of "blanks @ s" blanks v] blanks_space by simp_all

lemma read_plain:
  assumes "plain w"
  shows "read_word (blanks @ w @ blanks @ s) = Some (w, blanks @ s)" "read_word (w @ blanks @ s) = Some (w, blanks @ s)"
  using read_word_simple [of "blanks @ s" blanks w] read_word_simple [of "blanks @ s" "[]" w] assms blanks_space
  by (simp_all add: plain_def)

lemma command_head:
  assumes "w = ''N'' \<or> w = ''M'' \<or> w = ''C''"
  shows "command (w @ gap @ s) c =
    (if w = ''N'' then cmdNew (blanks @ clean_commas s)
     else if w = ''M'' then cmdModify (blanks @ clean_commas s) c else cmdCancel (blanks @ clean_commas s) c)"
proof -
  have "plain w" using assms plain_words by blast
  then have "read_word (clean_commas (w @ gap @ s)) = Some (w, blanks @ clean_commas s)"
    by (simp add: clean_plain read_plain)
  moreover have "w @ gap @ s \<noteq> []" "hd (w @ gap @ s) \<noteq> CHR ''#''"
    "w @ gap @ s \<noteq> ''quit''" "w @ gap @ s \<noteq> ''q''" "w @ gap @ s \<noteq> ''exit''"
    using assms by auto
  moreover have "w \<noteq> ''N'' \<Longrightarrow> w \<noteq> ''M'' \<Longrightarrow> w = ''C''" using assms by blast
  ultimately show ?thesis unfolding command_def by (simp only: option.case prod.case if_False simp_thms if_True split: if_split) blast
qed

lemma cmdNew_line:
  assumes "plain sd"
  shows "cmdNew (blanks @ decimal (unat i) @ blanks @ decimal (unat sy) @ blanks @ sd @ blanks @ decimal (unat p) @ blanks @ decimal (unat q))
    = Request (encode_NewOrderRequestMsg (newOrder i sy sd p q))"
  using assms by (simp add: cmdNew_def read_number read_plain or_invalid_def)

lemma cmdModify_line:
  "cmdModify (blanks @ decimal (unat i) @ blanks @ decimal (unat sy) @ blanks @ decimal (unat p) @ blanks @ decimal (unat q)) c
    = (if lookupExchangeId i c = 0 then Unknown_internal_id i
       else Request (encode_ModifyOrderRequestMsg (modifyRequest (lookupExchangeId i c) sy p q)))"
  by (simp add: cmdModify_def read_number or_invalid_def Let_def)

lemma cmdCancel_line:
  "cmdCancel (blanks @ decimal (unat i) @ blanks @ decimal (unat sy)) c
    = (if lookupExchangeId i c = 0 then Unknown_internal_id i
       else Request (encode_CancelOrderRequestMsg (cancelRequest (lookupExchangeId i c) sy)))"
  by (simp add: cmdCancel_def read_number or_invalid_def Let_def)

lemma command_new:
  assumes "plain sd"
  shows "command (''N'' @ gap @ decimal (unat i) @ gap @ decimal (unat sy) @ gap @ sd @ gap @ decimal (unat p) @ gap @ decimal (unat q)) c
    = Request (encode_NewOrderRequestMsg (newOrder i sy sd p q))"
  by (subst command_head) (simp_all add: assms clean_plain cmdNew_line del: append_Cons)

lemma command_cancel:
  "command (''C'' @ gap @ decimal (unat i) @ gap @ decimal (unat sy)) c
     = (if lookupExchangeId i c = 0 then Unknown_internal_id i
        else Request (encode_CancelOrderRequestMsg (cancelRequest (lookupExchangeId i c) sy)))"
  by (subst command_head) (simp_all add: cmdCancel_line del: append_Cons)

section \<open>Theorems\<close>

text \<open>
  C30. Commands say what they mean: for every id, symbol, price and quantity of the machine types,
  the documented \<^verbatim>\<open>N\<close>, \<^verbatim>\<open>M\<close> and \<^verbatim>\<open>C\<close> lines with these values in decimal make the client send
  exactly the corresponding request, with the exchange id learnt for the client's own id; without
  such an id nothing is sent and the client reports the unknown id.
\<close>

theorem commands_send_requests:
  "command (''N'' @ gap @ decimal (unat i) @ gap @ decimal (unat sy) @ gap @ ''BUY'' @ gap @ decimal (unat p) @ gap @ decimal (unat q)) c
     = Request (encode_NewOrderRequestMsg
         \<lparr>no_header = \<lparr>header_length = of_nat sizeof_NewOrderRequestMsg, header_type = NewOrderRequest\<rparr>,
          no_clientOrderId = i, no_symbolId = sy, no_side = Buy, no_price = p, no_qty = q\<rparr>)
   \<and> command (''N'' @ gap @ decimal (unat i) @ gap @ decimal (unat sy) @ gap @ ''SELL'' @ gap @ decimal (unat p) @ gap @ decimal (unat q)) c
     = Request (encode_NewOrderRequestMsg
         \<lparr>no_header = \<lparr>header_length = of_nat sizeof_NewOrderRequestMsg, header_type = NewOrderRequest\<rparr>,
          no_clientOrderId = i, no_symbolId = sy, no_side = Sell, no_price = p, no_qty = q\<rparr>)
   \<and> command (''M'' @ gap @ decimal (unat i) @ gap @ decimal (unat sy) @ gap @ decimal (unat p) @ gap @ decimal (unat q)) c
     = (if lookupExchangeId i c = 0 then Unknown_internal_id i
        else Request (encode_ModifyOrderRequestMsg (modifyRequest (lookupExchangeId i c) sy p q)))
   \<and> command (''C'' @ gap @ decimal (unat i) @ gap @ decimal (unat sy)) c
     = (if lookupExchangeId i c = 0 then Unknown_internal_id i
        else Request (encode_CancelOrderRequestMsg (cancelRequest (lookupExchangeId i c) sy)))"
proof (intro conjI)
  show "command (''N'' @ gap @ decimal (unat i) @ gap @ decimal (unat sy) @ gap @ ''BUY'' @ gap @ decimal (unat p) @ gap @ decimal (unat q)) c
     = Request (encode_NewOrderRequestMsg
         \<lparr>no_header = \<lparr>header_length = of_nat sizeof_NewOrderRequestMsg, header_type = NewOrderRequest\<rparr>,
          no_clientOrderId = i, no_symbolId = sy, no_side = Buy, no_price = p, no_qty = q\<rparr>)"
    unfolding command_new [OF plain_words(4)] by (simp add: newOrder_def)
  show "command (''N'' @ gap @ decimal (unat i) @ gap @ decimal (unat sy) @ gap @ ''SELL'' @ gap @ decimal (unat p) @ gap @ decimal (unat q)) c
     = Request (encode_NewOrderRequestMsg
         \<lparr>no_header = \<lparr>header_length = of_nat sizeof_NewOrderRequestMsg, header_type = NewOrderRequest\<rparr>,
          no_clientOrderId = i, no_symbolId = sy, no_side = Sell, no_price = p, no_qty = q\<rparr>)"
    unfolding command_new [OF plain_words(5)] by (simp add: newOrder_def)
  show "command (''M'' @ gap @ decimal (unat i) @ gap @ decimal (unat sy) @ gap @ decimal (unat p) @ gap @ decimal (unat q)) c
     = (if lookupExchangeId i c = 0 then Unknown_internal_id i
        else Request (encode_ModifyOrderRequestMsg (modifyRequest (lookupExchangeId i c) sy p q)))"
    by (subst command_head) (simp_all add: cmdModify_line del: append_Cons)
  show "command (''C'' @ gap @ decimal (unat i) @ gap @ decimal (unat sy)) c
     = (if lookupExchangeId i c = 0 then Unknown_internal_id i
        else Request (encode_CancelOrderRequestMsg (cancelRequest (lookupExchangeId i c) sy)))"
    by (rule command_cancel)
qed

text \<open>Every side word but \<^verbatim>\<open>BUY\<close> means sell: a line with ``buy'', or any other word in that place, is
  accepted and sends a sell order.\<close>

lemma other_side_words_sell:
  assumes "plain sd" "sd \<noteq> ''BUY''"
  shows "command (''N'' @ gap @ decimal (unat i) @ gap @ decimal (unat sy) @ gap @ sd @ gap @ decimal (unat p) @ gap @ decimal (unat q)) c
    = Request (encode_NewOrderRequestMsg (newOrder i sy ''SELL'' p q))"
  unfolding command_new [OF assms(1)] using assms(2) by (simp add: newOrder_def)

end
