(* ===== verification/Client_Session.thy ===== *)
theory Client_Session
  imports Client
begin

text \<open>
  The rest of \<^verbatim>\<open>client/src/main.cpp\<close>: the first input line, the login handshake, the command loop
  and the texts the client prints. The texts are modelled character by character; \<^verbatim>\<open>%u\<close> and
  \<^verbatim>\<open>%lu\<close> print in decimal.
\<close>

section \<open>Printing\<close>

definition newline :: string where
  "newline = [CHR 0x0A]"

definition prompt :: string where
  "prompt = newline @ ''> ''"

definition symbol_name :: "string \<Rightarrow> SymbolId \<Rightarrow> string" where
  "symbol_name other s =
     (if s < 5 then [''RELIANCE'', ''TCS'', ''INFY'', ''HDFCBANK'', ''ICICIBANK''] ! unat s else other)"

definition printNewOrderConfirm :: "NewOrderConfirmMsg \<Rightarrow> string" where
  "printNewOrderConfirm msg =
     newline @ ''  [NewOrderConfirm] internalId='' @ decimal (unat (nc_clientOrderId msg))
       @ '' exchangeOrderId='' @ decimal (unat (nc_orderId msg)) @ prompt"

definition printModifyOrderConfirm :: "ModifyOrderConfirmMsg \<Rightarrow> string" where
  "printModifyOrderConfirm msg =
     newline @ ''  [ModifyOrderConfirm] exchangeOrderId='' @ decimal (unat (mc_orderId msg)) @ prompt"

definition printCancelOrderConfirm :: "CancelOrderConfirmMsg \<Rightarrow> string" where
  "printCancelOrderConfirm msg =
     newline @ ''  [CancelOrderConfirm] exchangeOrderId='' @ decimal (unat (cc_orderId msg)) @ prompt"

definition printTradeConfirm :: "TradeConfirmMsg \<Rightarrow> string" where
  "printTradeConfirm msg =
     newline @ ''  [TradeConfirm] exchangeOrderId='' @ decimal (unat (tc_orderId msg))
       @ '' price='' @ decimal (unat (tc_price msg)) @ '' qty='' @ decimal (unat (tc_qty msg)) @ prompt"

definition printReject :: "RejectMsg \<Rightarrow> string" where
  "printReject msg =
     newline @ ''  [Reject] exchangeOrderId='' @ decimal (unat (rj_orderId msg))
       @ '' reason='' @ decimal (unat (reason_byte (rj_reason msg))) @ prompt"

definition update_type_name :: "MdUpdateType \<Rightarrow> string" where
  "update_type_name t =
     (if t = MdNew then ''NEW'' else if t = MdModify then ''MODIFY'' else if t = MdCancel then ''CANCEL''
      else if t = MdTrade then ''TRADE'' else ''UNKNOWN'')"

definition printMarketUpdate :: "MarketUpdateMsg \<Rightarrow> string" where
  "printMarketUpdate msg =
     newline @ ''  [MarketUpdate] '' @ symbol_name ''UNKNOWN'' (mu_symbolId msg) @ '' ''
       @ (if mu_side msg = Buy then ''BID'' else ''ASK'') @ '' orderId='' @ decimal (unat (mu_orderId msg))
       @ '' price='' @ decimal (unat (mu_price msg)) @ '' qty='' @ decimal (unat (mu_qty msg))
       @ '' (Reason: '' @ update_type_name (mu_updateType msg) @ '')'' @ prompt"

fun printed_text :: "printed \<Rightarrow> string" where
  "printed_text (P_new_confirm msg) = printNewOrderConfirm msg"
| "printed_text (P_modify_confirm msg) = printModifyOrderConfirm msg"
| "printed_text (P_cancel_confirm msg) = printCancelOrderConfirm msg"
| "printed_text (P_trade_confirm msg) = printTradeConfirm msg"
| "printed_text (P_reject msg) = printReject msg"
| "printed_text (P_market_update msg) = printMarketUpdate msg"
| "printed_text (P_unknown t len) =
     newline @ ''  [Unknown] type='' @ decimal (unat (msg_type_byte t)) @ '' length='' @ decimal (unat len) @ prompt"
| "printed_text P_disconnected = newline @ ''Server disconnected.'' @ newline"

section \<open>Starting up\<close>

text \<open>The first line: host, port and trader id; \<open>None\<close> is ``Invalid input format''.\<close>

definition parseInit :: "string \<Rightarrow> (string \<times> u16 \<times> TraderId) option" where
  "parseInit initLine = do {
     (hostStr, s1) \<leftarrow> read_word (clean_commas initLine);
     (port, s2) \<leftarrow> read_unsigned s1;
     (traderId, s3) \<leftarrow> read_unsigned s2;
     Some (hostStr, port, traderId)
   }"

datatype login_result = Login_send_failed | Login_recv_failed | Login_rejected | Login_accepted "u8 list"

text \<open>The handshake: \<open>sent\<close> is whether the request went out whole; \<open>Login_accepted\<close> holds the bytes
  of the stream after the response.\<close>

definition loginHandshake :: "bool \<Rightarrow> (u8 list \<Rightarrow> nat \<Rightarrow> nat) \<Rightarrow> u8 list \<Rightarrow> login_result" where
  "loginHandshake sent recv_size bs =
     (if \<not> sent then Login_send_failed
      else case recvAll recv_size sizeof_LoginResponseMsg bs of
             Inl _ \<Rightarrow> Login_recv_failed
           | Inr (got, rest) \<Rightarrow>
               if lp_accepted (decode_LoginResponseMsg got) then Login_accepted rest else Login_rejected)"

section \<open>The command loop\<close>

text \<open>The loop over the lines of the terminal, each with the outcome of its send. It ends with the
  input, when \<^verbatim>\<open>gRunning\<close> is cleared, or by a quit command.\<close>

fun commandLoop :: "(bool \<times> string) list \<Rightarrow> Client \<Rightarrow> Client \<times> client_action list" where
  "commandLoop [] c = (c, [])"
| "commandLoop ((sent, line) # rest) c =
     (if gRunning c
      then case commandStep sent line c of
             (c1, a) \<Rightarrow> (case commandLoop rest c1 of (c2, as) \<Rightarrow> (c2, a # as))
      else (c, []))"

section \<open>Replies in a byte stream\<close>

text \<open>The effect of a printed reply on the id table.\<close>

fun note_reply :: "printed \<Rightarrow> (OrderId \<rightharpoonup> OrderId) \<Rightarrow> (OrderId \<rightharpoonup> OrderId)" where
  "note_reply (P_new_confirm msg) t = t(nc_clientOrderId msg \<mapsto> nc_orderId msg)"
| "note_reply p t = t"

text \<open>\<open>reads_as bs p\<close>: on any fair socket, the client reads \<open>bs\<close> from the front of its stream as the
  reply \<open>p\<close>, whatever follows.\<close>

definition reads_as :: "u8 list \<Rightarrow> printed \<Rightarrow> bool" where
  "reads_as bs p \<longleftrightarrow> (\<forall>k rest c. fair_recv k \<longrightarrow>
     recvIteration k (bs @ rest) c = Some (c\<lparr>internalToExchange := note_reply p (internalToExchange c)\<rparr>, rest, [p]))"

lemma reads_asI:
  assumes "\<And>k rest c. fair_recv k \<Longrightarrow> recvIteration k (bs @ rest) c
    = Some (c\<lparr>internalToExchange := note_reply p (internalToExchange c)\<rparr>, rest, [p])"
  shows "reads_as bs p"
  using assms by (simp add: reads_as_def)

lemma reads_new_confirm:
  assumes "valid_NewOrderConfirmMsg m" "nc_header m = \<lparr>header_length = of_nat sizeof_NewOrderConfirmMsg, header_type = NewOrderConfirm\<rparr>"
  shows "reads_as (encode_NewOrderConfirmMsg m) (P_new_confirm m)"
  using assms new_confirm_msg.assemble_whole [of m] new_confirm_msg.decode_encode [OF assms(1), of "[]"]
  by (intro reads_asI) (simp add: new_confirm_msg.recv_message handleReply_def sizeof_NewOrderConfirmMsg_def)

lemma reads_modify_confirm:
  assumes "valid_ModifyOrderConfirmMsg m" "mc_header m = \<lparr>header_length = of_nat sizeof_ModifyOrderConfirmMsg, header_type = ModifyOrderConfirm\<rparr>"
  shows "reads_as (encode_ModifyOrderConfirmMsg m) (P_modify_confirm m)"
  using assms modify_confirm_msg.assemble_whole [of m] modify_confirm_msg.decode_encode [OF assms(1), of "[]"]
  by (intro reads_asI) (simp add: modify_confirm_msg.recv_message handleReply_def sizeof_ModifyOrderConfirmMsg_def)

lemma reads_cancel_confirm:
  assumes "valid_CancelOrderConfirmMsg m" "cc_header m = \<lparr>header_length = of_nat sizeof_CancelOrderConfirmMsg, header_type = CancelOrderConfirm\<rparr>"
  shows "reads_as (encode_CancelOrderConfirmMsg m) (P_cancel_confirm m)"
  using assms cancel_confirm_msg.assemble_whole [of m] cancel_confirm_msg.decode_encode [OF assms(1), of "[]"]
  by (intro reads_asI) (simp add: cancel_confirm_msg.recv_message handleReply_def sizeof_CancelOrderConfirmMsg_def)

lemma reads_trade_confirm:
  assumes "valid_TradeConfirmMsg m" "tc_header m = \<lparr>header_length = of_nat sizeof_TradeConfirmMsg, header_type = TradeConfirm\<rparr>"
  shows "reads_as (encode_TradeConfirmMsg m) (P_trade_confirm m)"
  using assms trade_confirm_msg.assemble_whole [of m] trade_confirm_msg.decode_encode [OF assms(1), of "[]"]
  by (intro reads_asI) (simp add: trade_confirm_msg.recv_message handleReply_def sizeof_TradeConfirmMsg_def)

lemma reads_reject:
  assumes "valid_RejectMsg m" "rj_header m = \<lparr>header_length = of_nat sizeof_RejectMsg, header_type = MsgReject\<rparr>"
  shows "reads_as (encode_RejectMsg m) (P_reject m)"
  using assms reject_msg.assemble_whole [of m] reject_msg.decode_encode [OF assms(1), of "[]"]
  by (intro reads_asI) (simp add: reject_msg.recv_message handleReply_def sizeof_RejectMsg_def)

lemma reads_market_update:
  assumes "valid_MarketUpdateMsg m" "mu_header m = \<lparr>header_length = of_nat sizeof_MarketUpdateMsg, header_type = MarketUpdate\<rparr>"
  shows "reads_as (encode_MarketUpdateMsg m) (P_market_update m)"
  using assms market_update_msg.assemble_whole [of m] market_update_msg.decode_encode [OF assms(1), of "[]"]
  by (intro reads_asI) (simp add: market_update_msg.recv_message handleReply_def sizeof_MarketUpdateMsg_def)

text \<open>The first \<open>n\<close> iterations of the receive loop, with what is left of the stream.\<close>

fun recvSteps ::
  "nat \<Rightarrow> (u8 list \<Rightarrow> nat \<Rightarrow> nat) \<Rightarrow> u8 list \<Rightarrow> Client \<Rightarrow> (Client \<times> u8 list \<times> printed list) option" where
  "recvSteps 0 recv_size bs c = Some (c, bs, [])"
| "recvSteps (Suc n) recv_size bs c =
     (if gRunning c then do {
        (c1, bs1, ps) \<leftarrow> recvIteration recv_size bs c;
        (c2, bs2, ps') \<leftarrow> recvSteps n recv_size bs1 c1;
        Some (c2, bs2, ps @ ps')
      } else Some (c, bs, []))"

lemma recvLoop_steps:
  assumes "recvSteps n k bs c = Some (c1, bs1, ps)" "recvLoop m k bs1 c1 = Some (c2, ps')" "gRunning c1"
  shows "recvLoop (n + m) k bs c = Some (c2, ps @ ps')"
  using assms
proof (induction n arbitrary: bs c ps)
  case (Suc n)
  show ?case
  proof (cases "gRunning c")
    case True
    then obtain c0 bs0 ps0 ps1 where "recvIteration k bs c = Some (c0, bs0, ps0)" "recvSteps n k bs0 c0 = Some (c1, bs1, ps1)"
      "ps = ps0 @ ps1"
      using Suc.prems(1) by (auto split: Option.bind_splits)
    with Suc.IH [OF _ Suc.prems(2,3)] True show ?thesis by simp
  qed (use Suc.prems in simp)
qed simp

lemma recvSteps_replies:
  assumes "fair_recv k" "list_all2 reads_as bss ps" "gRunning c"
  shows "recvSteps (length ps) k (concat bss @ rest) c
    = Some (c\<lparr>internalToExchange := fold note_reply ps (internalToExchange c)\<rparr>, rest, ps)"
  using assms(2,3)
proof (induction bss ps arbitrary: c rule: list_all2_induct)
  case (Cons bs bss p ps)
  let ?c = "c\<lparr>internalToExchange := note_reply p (internalToExchange c)\<rparr>"
  have "recvIteration k (bs @ concat bss @ rest) c = Some (?c, concat bss @ rest, [p])"
    using Cons.hyps(1) assms(1) by (simp add: reads_as_def)
  with Cons.IH [of ?c] Cons.prems show ?case by simp
qed simp

text \<open>The whole stream, up to the end of the connection.\<close>

lemma recvLoop_replies:
  assumes "fair_recv k" "list_all2 reads_as bss ps" "gRunning c"
  shows "recvLoop (length ps + 2) k (concat bss) c
    = Some (c\<lparr>gRunning := False, internalToExchange := fold note_reply ps (internalToExchange c)\<rparr>, ps @ [P_disconnected])"
proof (rule recvLoop_steps)
  let ?c = "c\<lparr>internalToExchange := fold note_reply ps (internalToExchange c)\<rparr>"
  show "recvSteps (length ps) k (concat bss) c = Some (?c, [], ps)"
    using recvSteps_replies [OF assms, of "[]"] by simp
  show "recvLoop 2 k [] ?c
      = Some (c\<lparr>gRunning := False, internalToExchange := fold note_reply ps (internalToExchange c)\<rparr>, [P_disconnected])"
    by (simp add: numeral_2_eq_2 recvIteration_def recvAll_eof sizeof_MsgHeader_def assms(3))
qed (simp add: assms(3))

end
