(* ===== verification/Typed_Replies.thy ===== *)
theory Typed_Replies
  imports Matching_Thread Client_Session
begin

text \<open>
  The replies of the server as the client reads them. Enumerations arrive as bytes, so the books
  must never hold, and the thread never send, a value that is not the value of a byte; this is the
  typing invariant \<open>engine_typed\<close>. Under it everything the matching thread sends is a message that
  the client's receive loop reads back as the reply meant.
\<close>

section \<open>Values of the enumerations\<close>

definition typed_side :: "Side \<Rightarrow> bool" where
  "typed_side s \<longleftrightarrow> byte_side (side_byte s) = s"

definition typed_confirm :: "OrderConfirm \<Rightarrow> bool" where
  "typed_confirm c \<longleftrightarrow> byte_reason (reason_byte (oc_reason c)) = oc_reason c"

definition typed_update :: "MdUpdate \<Rightarrow> bool" where
  "typed_update md \<longleftrightarrow> typed_side (md_side md) \<and> byte_md_type (md_type_byte (md_updateType md)) = md_updateType md"

definition typed_orders :: "Resting list \<Rightarrow> bool" where
  "typed_orders rs \<longleftrightarrow> (\<forall>r\<in>set rs. typed_side (r_side r))"

definition typed_result :: "SpecBook \<times> OrderConfirm list \<times> MdUpdate list \<Rightarrow> bool" where
  "typed_result R \<longleftrightarrow> typed_orders (spec_orders (fst R))
     \<and> list_all typed_confirm (fst (snd R)) \<and> list_all typed_update (snd (snd R))"

lemma typed_sides [simp]: "typed_side Buy" "typed_side Sell" "typed_side (byte_side b)"
  by (simp_all add: typed_side_def byte_side_def)

lemma typed_md_types [simp]: "byte_md_type 1 = MdNew" "byte_md_type 2 = MdModify" "byte_md_type 3 = MdCancel" "byte_md_type 4 = MdTrade"
  by (simp_all add: byte_md_type_def)

lemma typed_reasons [simp]: "byte_reason 0 = UnknownOrder" "byte_reason 5 = SelfTrade"
  by (simp_all add: byte_reason_def)

lemma typed_orders_simps [simp]:
  "typed_orders []" "typed_orders (r # rs) \<longleftrightarrow> typed_side (r_side r) \<and> typed_orders rs"
  "typed_orders (rs @ rs') \<longleftrightarrow> typed_orders rs \<and> typed_orders rs'"
  by (auto simp: typed_orders_def)

section \<open>The specification keeps types\<close>

lemma typed_place: "typed_orders (spec_orders B) \<Longrightarrow> typed_side (r_side r) \<Longrightarrow> typed_orders (spec_orders (spec_place r B))"
proof -
  have "set (spec_insert lt r rs) = insert r (set rs)" for lt rs by (induction rs) auto
  then show "typed_orders (spec_orders B) \<Longrightarrow> typed_side (r_side r) \<Longrightarrow> ?thesis"
    by (auto simp: typed_orders_def spec_place_def spec_orders_def)
qed

lemma typed_remove: "typed_orders (spec_orders B) \<Longrightarrow> typed_orders (spec_orders (spec_remove i B))"
  by (auto simp: typed_orders_def spec_remove_def spec_orders_def)

lemma typed_shrink: "typed_orders (spec_orders B) \<Longrightarrow> typed_orders (spec_orders (spec_shrink i q B))"
  by (auto simp: typed_orders_def spec_shrink_def spec_orders_def set_qty_def)

lemma typed_match: "typed_orders rs \<Longrightarrow> typed_orders (fst (spec_match req rem rs))"
  by (induction req rem rs rule: spec_match.induct) (simp_all add: case_prod_beta)

lemma typed_event:
  "list_all typed_confirm (event_confirms s req ev)" "typed_side (m_side req) \<Longrightarrow> list_all typed_update (event_mds s req ev)"
  by (cases ev; simp add: typed_confirm_def typed_update_def passive_side_def)+

lemma typed_spec_add:
  assumes "typed_orders (spec_orders B)" "typed_side (m_side req)"
  shows "typed_result (spec_add req B)"
proof -
  obtain rs rem evs where m: "spec_match req (m_quantity req) (if m_side req = Buy then s_asks B else s_bids B) = (rs, rem, evs)"
    by (cases "spec_match req (m_quantity req) (if m_side req = Buy then s_asks B else s_bids B)")
  define B1 where "B1 = (if m_side req = Buy then B\<lparr>s_asks := rs\<rparr> else B\<lparr>s_bids := rs\<rparr>)"
  have "typed_orders rs" using typed_match [of "if m_side req = Buy then s_asks B else s_bids B" req "m_quantity req"] m assms(1)
    by (simp add: spec_orders_def split: if_splits)
  then have "typed_orders (spec_orders B1)" using assms(1) by (auto simp: B1_def spec_orders_def)
  with typed_place assms(2) have
    "typed_orders (spec_orders (spec_place \<lparr>r_id = m_orderId req, r_trader = m_traderId req, r_side = m_side req,
        r_price = m_price req, r_qty = rem, r_recorded = rem\<rparr> B1))" "typed_orders (spec_orders B1)" by simp_all
  then show ?thesis
    using typed_event(1) typed_event(2) [OF assms(2)]
    by (simp add: typed_result_def spec_add_def m B1_def [symmetric] Let_def assms(2) typed_confirm_def typed_update_def
        list_all_iff)
qed

lemma typed_find: "typed_orders (spec_orders B) \<Longrightarrow> spec_find i B = Some r \<Longrightarrow> typed_side (r_side r)"
  using spec_find_id by (auto simp: typed_orders_def)

lemma typed_spec_reject: "typed_orders (spec_orders B) \<Longrightarrow> typed_result (spec_reject i t B)"
  by (simp add: typed_result_def spec_reject_def typed_confirm_def)

lemma typed_spec_cancel: "typed_orders (spec_orders B) \<Longrightarrow> typed_result (spec_cancel i t B)"
  using typed_spec_reject [of B i t] typed_remove [of B i] typed_find [of B i]
  by (auto simp: spec_cancel_def typed_result_def typed_confirm_def typed_update_def split: option.splits)

lemma typed_spec_modify: "typed_orders (spec_orders B) \<Longrightarrow> typed_result (spec_modify i t p q B)"
  using typed_spec_reject [of B i t] typed_remove [of B i] typed_find [of B i] typed_shrink [of B i q]
    typed_place [of "spec_remove i B"]
  by (auto simp: spec_modify_def typed_result_def typed_confirm_def typed_update_def split: option.splits)

section \<open>The engine keeps types\<close>

definition engine_typed :: "MatchingEngine \<Rightarrow> bool" where
  "engine_typed g \<longleftrightarrow> (\<forall>sy b. books g sy = Some b \<longrightarrow> typed_orders (spec_orders (abs_book b)))"

text \<open>What a book operation with a typed specification does to the engine.\<close>

lemma typed_outcome:
  assumes "implements out [] [] R" "typed_result R" "engine_typed g" "\<And>b'. books (h b') = (books g)(sy \<mapsto> b')"
    and "do {(b', cs', ms') \<leftarrow> out; Some (h b', cs', ms')} = Some (g', cs, ms)"
  shows "engine_typed g' \<and> list_all typed_confirm cs \<and> list_all typed_update ms"
proof -
  obtain b' where "out = Some (b', fst (snd R), snd (snd R))" "abs_book b' = fst R"
    using assms(1) by (auto simp: implements_def split: prod.splits)
  then show ?thesis using assms(2-5) by (auto simp: engine_typed_def typed_result_def split: if_splits)
qed

lemma dispatch_typed:
  assumes "engine_ok g" "engine_typed g" "typed_side (m_side req)" "dispatch req g = Some (g', cs, ms)"
  shows "engine_typed g' \<and> list_all typed_confirm cs \<and> list_all typed_update ms"
proof (cases "books g (m_symbolId req)")
  case None
  with assms(2,4) show ?thesis
    by (cases "m_requestType req") (auto simp: dispatch_def onOrder_def onCancel_def onModify_def engine_typed_def)
next
  case (Some b)
  have ok: "book_ok b" and ids: "nextOrderId g \<notin> dom (orderMap b)"
    using assms(1) Some by (auto simp: engine_ok_def books_inv_def book_ids_def)
  have ty: "typed_orders (spec_orders (abs_book b))" using assms(2) Some by (simp add: engine_typed_def)
  show ?thesis
  proof (cases "m_requestType req")
    case New
    let ?req = "req\<lparr>m_orderId := nextOrderId g\<rparr>"
    let ?h = "\<lambda>b'. g\<lparr>nextOrderId := nextOrderId g + 1, books := (books g)(m_symbolId req \<mapsto> b')\<rparr>"
    have "implements (addOrder ?req b [] []) [] [] (spec_add ?req (abs_book b))"
      by (rule addOrder_implements [OF ok]) (use ids in simp)
    moreover have "typed_result (spec_add ?req (abs_book b))" using typed_spec_add [OF ty, of ?req] assms(3) by simp
    moreover have "do {(b', cs', ms') \<leftarrow> addOrder ?req b [] []; Some (?h b', cs', ms')} = Some (g', cs, ms)"
      using assms(4) New Some by (simp add: dispatch_def onOrder_def Let_def)
    ultimately show ?thesis using typed_outcome [of _ _ g ?h "m_symbolId req"] assms(2) by auto
  next
    case Cancel
    let ?h = "\<lambda>b'. g\<lparr>books := (books g)(m_symbolId req \<mapsto> b')\<rparr>"
    have "do {(b', cs', ms') \<leftarrow> cancelOrder (m_orderId req) (m_traderId req) b [] []; Some (?h b', cs', ms')} = Some (g', cs, ms)"
      using assms(4) Cancel Some by (simp add: dispatch_def onCancel_def)
    from typed_outcome [OF cancelOrder_implements [OF ok] typed_spec_cancel [OF ty] assms(2) _ this] show ?thesis by simp
  next
    case Modify
    let ?h = "\<lambda>b'. g\<lparr>books := (books g)(m_symbolId req \<mapsto> b')\<rparr>"
    have "do {(b', cs', ms') \<leftarrow> modifyOrder (m_orderId req) (m_traderId req) (m_price req) (m_quantity req) b [] []; Some (?h b', cs', ms')}
        = Some (g', cs, ms)"
      using assms(4) Modify Some by (simp add: dispatch_def onModify_def)
    from typed_outcome [OF modifyOrder_implements [OF ok] typed_spec_modify [OF ty] assms(2) _ this] show ?thesis by simp
  qed
qed

lemma parseRequest_typed: "parseRequest now raw = Some req \<Longrightarrow> typed_side (m_side req)"
  by (auto simp: parseRequest_def toOrderRequest_new_def toOrderRequest_cancel_def toOrderRequest_modify_def
      OrderRequest_init_def decode_NewOrderRequestMsg_def split: MsgType.splits if_splits)

lemma engine_typed_init: "engine_typed (engine MatchingThread_init)"
proof -
  have "spec_orders (abs_book (OrderBook_new s)) = []" for s
    by (simp add: spec_orders_def abs_book_def abs_side_def OrderBook_new_def)
  then show ?thesis
    by (auto simp: engine_typed_def MatchingThread_init_def MatchingEngine_new_def split: if_splits)
qed

section \<open>The replies the client reads\<close>

fun confirm_reply :: "OrderConfirm \<Rightarrow> printed" where
  "confirm_reply confirm =
     (case oc_type confirm of
        NewAck \<Rightarrow> P_new_confirm (toNewOrderConfirmMsg confirm)
      | ModifyAck \<Rightarrow> P_modify_confirm (toModifyOrderConfirmMsg confirm)
      | CancelAck \<Rightarrow> P_cancel_confirm (toCancelOrderConfirmMsg confirm)
      | Trade \<Rightarrow> P_trade_confirm (toTradeConfirmMsg confirm)
      | Reject \<Rightarrow> P_reject (toRejectMsg confirm))"

definition update_reply :: "MdUpdate \<Rightarrow> printed" where
  "update_reply md = P_market_update (toMarketUpdateMsg md)"

lemma typed_header [simp]:
  "byte_msg_type (msg_type_byte t) = t" if "t \<in> {NewOrderConfirm, ModifyOrderConfirm, CancelOrderConfirm, TradeConfirm, MsgReject, MarketUpdate}"
  using that by (auto simp: byte_msg_type_def)

lemma confirm_reads:
  assumes "typed_confirm c"
  shows "reads_as (confirm_bytes c) (confirm_reply c)"
  using assms
  by (cases "oc_type c")
    (simp_all add: reads_new_confirm reads_modify_confirm reads_cancel_confirm reads_trade_confirm reads_reject
      valid_NewOrderConfirmMsg_def valid_ModifyOrderConfirmMsg_def valid_CancelOrderConfirmMsg_def valid_TradeConfirmMsg_def
      valid_RejectMsg_def valid_MsgHeader_def typed_confirm_def toNewOrderConfirmMsg_def toModifyOrderConfirmMsg_def
      toCancelOrderConfirmMsg_def toTradeConfirmMsg_def toRejectMsg_def byte_msg_type_def)

lemma update_reads: "typed_update md \<Longrightarrow> reads_as (update_bytes md) (update_reply md)"
  by (simp add: update_bytes_def update_reply_def reads_market_update valid_MarketUpdateMsg_def valid_MsgHeader_def
      typed_update_def typed_side_def toMarketUpdateMsg_def byte_msg_type_def)

text \<open>The bytes that reach a descriptor.\<close>

definition sent_to :: "int \<Rightarrow> action list \<Rightarrow> u8 list list" where
  "sent_to fd acts = map send_bytes (filter (\<lambda>a. send_fd a = fd) acts)"

lemma sent_to_append: "sent_to fd (as @ bs) = sent_to fd as @ sent_to fd bs"
  by (simp add: sent_to_def)

text \<open>Every message sent is one the client reads as a reply.\<close>

definition well_formed_reply :: "u8 list \<Rightarrow> bool" where
  "well_formed_reply bs \<longleftrightarrow> (\<exists>p. reads_as bs p \<and> (\<forall>t len. p \<noteq> P_unknown t len) \<and> p \<noteq> P_disconnected)"

lemma confirm_well_formed: "typed_confirm c \<Longrightarrow> well_formed_reply (confirm_bytes c)"
  unfolding well_formed_reply_def
  by (rule exI [of _ "confirm_reply c"], rule conjI [OF confirm_reads]) (simp_all split: ConfirmType.split)

lemma update_well_formed: "typed_update md \<Longrightarrow> well_formed_reply (update_bytes md)"
  unfolding well_formed_reply_def
  by (rule exI [of _ "update_reply md"], rule conjI [OF update_reads]) (simp_all add: update_reply_def)

lemma sendConfirms_bytes: "a \<in> set (sendConfirms s cs) \<Longrightarrow> \<exists>c\<in>set cs. send_bytes a = confirm_bytes c"
  by (induction cs) (auto simp: Let_def simp del: confirm_bytes.simps split: if_splits)

lemma multicast_bytes: "a \<in> set (multicast s mds) \<Longrightarrow> \<exists>md\<in>set mds. send_bytes a = update_bytes md"
  by (induction mds) auto

lemma handleRaw_typed:
  assumes "thread_ok th" "engine_typed (engine th)" "handleRaw now s raw th = Some (th', acts)"
  shows "engine_typed (engine th') \<and> (\<forall>a\<in>set acts. well_formed_reply (send_bytes a))"
proof (cases "parseRequest now raw")
  case (Some req)
  with assms(3) obtain g cs ms where d: "dispatch req (engine th) = Some (g, cs, ms)" "engine th' = g"
    "acts = sendConfirms s cs @ multicast s ms"
    by (auto simp: handleRaw_def split: Option.bind_splits)
  have "engine_typed g \<and> list_all typed_confirm cs \<and> list_all typed_update ms"
    using dispatch_typed [OF _ assms(2) parseRequest_typed [OF Some] d(1)] assms(1) by (simp add: thread_ok_def)
  with d show ?thesis
    using sendConfirms_bytes [of _ s cs] multicast_bytes [of _ s ms] confirm_well_formed update_well_formed
    by (fastforce simp: list_all_iff simp del: confirm_bytes.simps)
qed (use assms in \<open>simp add: handleRaw_def\<close>)

lemma matchingRun_typed:
  "thread_ok th \<Longrightarrow> engine_typed (engine th) \<Longrightarrow> unat (nextOrderId (engine th)) + length msgs < 2 ^ 64 \<Longrightarrow>
   matchingRun msgs th = Some (th', acts) \<Longrightarrow> engine_typed (engine th') \<and> (\<forall>a\<in>set acts. well_formed_reply (send_bytes a))"
proof (induction msgs arbitrary: th acts)
  case (Cons x msgs)
  obtain now s raw where x: "x = (now, s, raw)" by (cases x)
  obtain th1 acts1 where th1: "handleRaw now s raw th = Some (th1, acts1)" "thread_ok th1"
    "unat (nextOrderId (engine th1)) + length msgs < 2 ^ 64"
    by (rule handleRaw_room [OF Cons.prems(1)]) (use Cons.prems(3) in simp)
  with Cons.prems(4) obtain acts2 where r: "matchingRun msgs th1 = Some (th', acts2)" "acts = acts1 @ acts2"
    by (auto simp: x split: Option.bind_splits)
  note t = handleRaw_typed [OF Cons.prems(1,2) th1(1)]
  with Cons.IH [OF th1(2) _ th1(3) r(1)] r(2) show ?case by auto
qed simp

text \<open>A list of well-formed replies is read as some list of replies.\<close>

lemma well_formed_replies:
  assumes "\<forall>bs\<in>set bss. well_formed_reply bs"
  shows "\<exists>ps. list_all2 reads_as bss ps \<and> (\<forall>p\<in>set ps. (\<forall>t len. p \<noteq> P_unknown t len) \<and> p \<noteq> P_disconnected)"
  using assms
proof (induction bss)
  case (Cons bs bss)
  then obtain p ps where "reads_as bs p" "(\<forall>t len. p \<noteq> P_unknown t len) \<and> p \<noteq> P_disconnected"
    "list_all2 reads_as bss ps" "\<forall>p\<in>set ps. (\<forall>t len. p \<noteq> P_unknown t len) \<and> p \<noteq> P_disconnected"
    by (auto simp: well_formed_reply_def)
  then show ?case by (intro exI [of _ "p # ps"]) simp
qed simp

end
