(* ===== verification/Epoll_Thread.thy ===== *)
theory Epoll_Thread
  imports Matching_Thread
begin

text \<open>
  \<^verbatim>\<open>src/thread_epoll.cpp\<close>, \<^verbatim>\<open>src/thread_accept.cpp\<close> and the event loop of
  \<^verbatim>\<open>net/src/epoll_mgr.cpp\<close>: logins, reading from clients, cutting the byte streams into
  messages and queueing them for the matching thread.

  What the kernel does is input to the model: the chunks that the successive \<^verbatim>\<open>recv\<close> calls of
  one callback return, and how the last one ended. \<open>None\<close> is a callback that
  never returns. \<open>frameLoop\<close> is a partial function because the loop of the
  source does not always end. The data callback works through the pointer that \<^verbatim>\<open>getSession\<close> returned; an access
  to an object that has been destroyed is the outcome \<open>Dangling\<close>.
\<close>

section \<open>Framing\<close>

text \<open>The raw message built from the first bytes of the receive buffer.\<close>

definition makeRaw :: "TraderId \<Rightarrow> u16 \<Rightarrow> u8 list \<Rightarrow> RawMessage" where
  "makeRaw traderId n bs =
     RawMessage_init\<lparr>rm_traderId := traderId, rm_length := n,
       rm_data := take (unat n) bs @ drop (unat n) (rm_data RawMessage_init)\<rparr>"

partial_function (option) frameLoop ::
  "TraderId \<Rightarrow> u8 list \<Rightarrow> RawMessage SPSCQueue \<Rightarrow> (u8 list \<times> RawMessage SPSCQueue) option" where
  "frameLoop traderId buf q =
     (if sizeof_MsgHeader \<le> length buf
      then
        let n = header_length (decode_MsgHeader buf)
        in if length buf < unat n then Some (buf, q)
           else if MAX_RAW_MSG_SIZE < unat n then frameLoop traderId (drop (unat n) buf) q
           else Option.bind (push RAW_CAPACITY (makeRaw traderId n buf) q)
                  (\<lambda>q'. frameLoop traderId (drop (unat n) buf) q')
      else Some (buf, q))"

declare frameLoop.simps [code]

section \<open>Callbacks\<close>

datatype recv_end = Would_block | Peer_closed | Recv_error

record Server =
  srv_sessions :: SessionManager
  srv_epoll :: "int list"
  srv_queue :: "RawMessage SPSCQueue"
  srv_closed :: "int list"   \<comment> \<open>descriptors closed so far\<close>

text \<open>\<open>ctl_ok\<close> is whether \<^verbatim>\<open>epoll_ctl\<close> succeeds; \<^verbatim>\<open>add\<close> only prints a failure.\<close>

definition epoll_add :: "bool \<Rightarrow> int \<Rightarrow> Server \<Rightarrow> Server" where
  "epoll_add ctl_ok fd v = (if ctl_ok then v\<lparr>srv_epoll := List.insert fd (srv_epoll v)\<rparr> else v)"

definition epoll_remove :: "int \<Rightarrow> Server \<Rightarrow> Server" where
  "epoll_remove fd v = v\<lparr>srv_epoll := removeAll fd (srv_epoll v)\<rparr>"

definition close_fd :: "int \<Rightarrow> Server \<Rightarrow> Server" where
  "close_fd fd v = v\<lparr>srv_epoll := removeAll fd (srv_epoll v), srv_closed := srv_closed v @ [fd]\<rparr>"

text \<open>How a callback ends: it returns, or it reads an object that has been destroyed
  (undefined behaviour, with the state at that point).\<close>

datatype outcome = Returned Server | Dangling Server

text \<open>Each chunk a \<^verbatim>\<open>recv\<close> returns is appended through the pointer.\<close>

fun appendChunks :: "SessionPtr \<Rightarrow> u8 list list \<Rightarrow> SessionManager \<Rightarrow> SessionManager option" where
  "appendChunks session [] s = Some s"
| "appendChunks session (buf # chunks) s = do {
     c \<leftarrow> deref session s;
     s1 \<leftarrow> setRecvBuffer session (recvBuffer c @ buf) s;
     appendChunks session chunks s1
   }"

text \<open>What the callback does when \<^verbatim>\<open>recv\<close> reports the end of the connection or an error. The kernel forgets a
  descriptor's epoll registration when it is closed.\<close>

definition endConnection :: "int \<Rightarrow> Server \<Rightarrow> Server" where
  "endConnection fd v =
     (let v1 = epoll_remove fd v;
          v2 = v1\<lparr>srv_sessions := sessions_remove fd (srv_sessions v1)\<rparr>
      in close_fd fd v2)"

text \<open>The data callback: the read loop, which also handles the end of the connection, and then in every case
  the framing loop, whose condition reads \<^verbatim>\<open>session->recvBuffer\<close>.\<close>

definition onData :: "int \<Rightarrow> u8 list list \<Rightarrow> recv_end \<Rightarrow> Server \<Rightarrow> outcome option" where
  "onData fd chunks how v =
     (case getSession fd (srv_sessions v) of
        None \<Rightarrow> Some (Returned v)
      | Some session \<Rightarrow>
          case appendChunks session chunks (srv_sessions v) of
            None \<Rightarrow> Some (Dangling v)
          | Some s \<Rightarrow>
              let v1 = v\<lparr>srv_sessions := s\<rparr>;
                  v2 = (if how = Would_block then v1 else endConnection fd v1)
              in case deref session (srv_sessions v2) of
                   None \<Rightarrow> Some (Dangling v2)
                 | Some c \<Rightarrow> do {
                     (buf, q) \<leftarrow> frameLoop (cs_traderId c) (recvBuffer c) (srv_queue v2);
                     case setRecvBuffer session buf (srv_sessions v2) of
                       None \<Rightarrow> Some (Dangling v2)
                     | Some s' \<Rightarrow> Some (Returned (v2\<lparr>srv_sessions := s', srv_queue := q\<rparr>))
                   })"

definition onDisconnect :: "int \<Rightarrow> Server \<Rightarrow> Server" where
  "onDisconnect fd v = close_fd fd (v\<lparr>srv_sessions := sessions_remove fd (srv_sessions v)\<rparr>)"

section \<open>Event loop\<close>

definition EPOLLIN :: u32 where "EPOLLIN = 1"
definition EPOLLERR :: u32 where "EPOLLERR = 8"
definition EPOLLHUP :: u32 where "EPOLLHUP = 16"

unbundle bit_operations_syntax

record epoll_event =
  ev_fd :: int
  ev_events :: u32
  ev_chunks :: "u8 list list"
  ev_how :: recv_end

definition handleEvent :: "epoll_event \<Rightarrow> Server \<Rightarrow> outcome option" where
  "handleEvent ev v =
     (if ev_events ev AND (EPOLLHUP OR EPOLLERR) \<noteq> 0 then Some (Returned (onDisconnect (ev_fd ev) v))
      else if ev_events ev AND EPOLLIN \<noteq> 0 then onData (ev_fd ev) (ev_chunks ev) (ev_how ev) v
      else Some (Returned v))"

fun handleEvents :: "epoll_event list \<Rightarrow> Server \<Rightarrow> outcome option" where
  "handleEvents [] v = Some (Returned v)"
| "handleEvents (ev # evs) v =
     (case handleEvent ev v of
        None \<Rightarrow> None
      | Some (Returned v') \<Rightarrow> handleEvents evs v'
      | Some (Dangling v') \<Rightarrow> Some (Dangling v'))"

section \<open>Logins\<close>

text \<open>The handler of \<^verbatim>\<open>runAcceptThread\<close> for an accepted connection: \<open>received\<close> is what the
  single \<^verbatim>\<open>recvRaw\<close> returned, \<open>ctl_ok\<close> the result of \<^verbatim>\<open>epoll_ctl\<close>. The socket object closes the descriptor
  unless it is released.\<close>

definition loginResponse :: LoginResponseMsg where
  "loginResponse =
     \<lparr>lp_header = \<lparr>header_length = of_nat sizeof_LoginResponseMsg, header_type = LoginResponse\<rparr>, lp_accepted = True\<rparr>"

definition onAccept :: "bool \<Rightarrow> int \<Rightarrow> u8 list option \<Rightarrow> Server \<Rightarrow> Server \<times> action list" where
  "onAccept ctl_ok fd received v =
     (case received of
        None \<Rightarrow> (close_fd fd v, [])
      | Some bs \<Rightarrow>
          if length bs \<noteq> sizeof_LoginRequestMsg then (close_fd fd v, [])
          else
            let login = decode_LoginRequestMsg bs
            in if header_type (lr_header login) \<noteq> LoginRequest then (close_fd fd v, [])
               else (epoll_add ctl_ok fd (v\<lparr>srv_sessions := sessions_add fd (lr_traderId login) (srv_sessions v)\<rparr>),
                     [Send fd (encode_LoginResponseMsg loginResponse)]))"

section \<open>Reference framing\<close>

text \<open>The messages at the front of a byte string and the bytes that do not yet form one. A
  header that announces zero bytes is left in place.\<close>

function frames :: "u8 list \<Rightarrow> u8 list list \<times> u8 list" where
  "frames buf =
     (let n = unat (header_length (decode_MsgHeader buf))
      in if length buf < sizeof_MsgHeader \<or> n = 0 \<or> length buf < n then ([], buf)
         else (case frames (drop n buf) of (ms, rest) \<Rightarrow> (take n buf # ms, rest)))"
  by pat_completeness auto
termination by (relation "measure length") (auto simp: sizeof_MsgHeader_def)

declare frames.simps [simp del]

text \<open>The loop would spin: a complete header announces zero bytes.\<close>

definition zero_header :: "u8 list \<Rightarrow> bool" where
  "zero_header buf \<longleftrightarrow> sizeof_MsgHeader \<le> length buf \<and> header_length (decode_MsgHeader buf) = 0"

text \<open>What the framing loop queues for a message.\<close>

definition queued :: "TraderId \<Rightarrow> u8 list list \<Rightarrow> RawMessage list" where
  "queued traderId ms = map (\<lambda>m. makeRaw traderId (of_nat (length m)) m) (filter (\<lambda>m. length m \<le> MAX_RAW_MSG_SIZE) ms)"

section \<open>Lemmas on framing\<close>

lemma decode_header_append: "sizeof_MsgHeader \<le> length a \<Longrightarrow> decode_MsgHeader (a @ b) = decode_MsgHeader a"
  by (simp add: decode_MsgHeader_def field_def sizeof_MsgHeader_def nth_append)

lemma frames_stop:
  "length buf < sizeof_MsgHeader \<or> unat (header_length (decode_MsgHeader buf)) = 0
     \<or> length buf < unat (header_length (decode_MsgHeader buf)) \<Longrightarrow> frames buf = ([], buf)"
  by (subst frames.simps) (auto simp: Let_def)

lemma frames_take:
  assumes "sizeof_MsgHeader \<le> length buf" "n = unat (header_length (decode_MsgHeader buf))" "n \<noteq> 0" "n \<le> length buf"
  shows "frames buf = (take n buf # fst (frames (drop n buf)), snd (frames (drop n buf)))"
  using assms by (subst frames.simps) (auto simp: Let_def split: prod.splits)

lemma frames_concat: "concat (fst (frames buf)) @ snd (frames buf) = buf"
proof (induction buf rule: frames.induct)
  case (1 buf)
  let ?n = "unat (header_length (decode_MsgHeader buf))"
  show ?case
  proof (cases "length buf < sizeof_MsgHeader \<or> ?n = 0 \<or> length buf < ?n")
    case False
    with 1 frames_take [of buf ?n] show ?thesis by simp
  qed (simp add: frames_stop)
qed

text \<open>Framing does not depend on where the stream is cut.\<close>

lemma frames_append:
  "frames (a @ b) = (fst (frames a) @ fst (frames (snd (frames a) @ b)), snd (frames (snd (frames a) @ b)))"
proof (induction a rule: frames.induct)
  case (1 a)
  let ?n = "unat (header_length (decode_MsgHeader a))"
  show ?case
  proof (cases "length a < sizeof_MsgHeader \<or> ?n = 0 \<or> length a < ?n")
    case True
    then show ?thesis by (simp add: frames_stop)
  next
    case False
    then have IH: "frames (drop ?n a @ b) = (fst (frames (drop ?n a)) @ fst (frames (snd (frames (drop ?n a)) @ b)),
        snd (frames (snd (frames (drop ?n a)) @ b)))"
      using 1 by blast
    from False have "frames (a @ b) = (take ?n a # fst (frames (drop ?n a @ b)), snd (frames (drop ?n a @ b)))"
      using frames_take [of "a @ b" ?n] by (simp add: decode_header_append)
    moreover from False have "frames a = (take ?n a # fst (frames (drop ?n a)), snd (frames (drop ?n a)))"
      by (intro frames_take) auto
    ultimately show ?thesis using IH by simp
  qed
qed

lemma zero_header_append: "zero_header a \<Longrightarrow> frames (a @ b) = ([], a @ b) \<and> zero_header (a @ b)"
  by (auto simp: zero_header_def decode_header_append intro: frames_stop)

lemma makeRaw_take: "n = unat k \<Longrightarrow> makeRaw t k (take n bs) = makeRaw t k bs"
  by (simp add: makeRaw_def)

lemma queued_Cons:
  "queued t (m # ms) = (if length m \<le> MAX_RAW_MSG_SIZE then [makeRaw t (of_nat (length m)) m] else []) @ queued t ms"
  by (simp add: queued_def)

lemma frameLoop_correct:
  assumes "frames buf = (ms, rest)" "\<not> zero_header rest" "queue_ok RAW_CAPACITY q"
    "length (queue_list RAW_CAPACITY q) + length (queued t ms) \<le> unat RAW_CAPACITY - 1"
  shows "\<exists>q'. frameLoop t buf q = Some (rest, q') \<and> queue_ok RAW_CAPACITY q'
    \<and> queue_list RAW_CAPACITY q' = queue_list RAW_CAPACITY q @ queued t ms"
  using assms
proof (induction buf arbitrary: ms q rule: frames.induct)
  case (1 buf)
  let ?k = "header_length (decode_MsgHeader buf)"
  let ?n = "unat ?k"
  show ?case
  proof (cases "length buf < sizeof_MsgHeader \<or> ?n = 0 \<or> length buf < ?n")
    case True
    then have "ms = []" "rest = buf" using "1.prems"(1) by (simp_all add: frames_stop)
    with True "1.prems"(2,3) show ?thesis
      by (subst frameLoop.simps) (auto simp: queued_def zero_header_def Let_def unat_eq_zero)
  next
    case False
    obtain ms' where ms': "frames (drop ?n buf) = (ms', rest)" "ms = take ?n buf # ms'"
      using frames_take [of buf ?n] False "1.prems"(1) by (cases "frames (drop ?n buf)") auto
    have q1: "queued t ms = (if ?n \<le> MAX_RAW_MSG_SIZE then [makeRaw t ?k buf] else []) @ queued t ms'"
      using False ms'(2) by (simp add: queued_Cons min_absorb2 makeRaw_take)
    note IH = "1.IH" [OF refl _ ms'(1) "1.prems"(2)]
    show ?thesis
    proof (cases "?n \<le> MAX_RAW_MSG_SIZE")
      case True
      with q1 "1.prems"(4) have "length (queue_list RAW_CAPACITY q) < unat RAW_CAPACITY - 1" by simp
      from push_room [OF "1.prems"(3) this, of "makeRaw t ?k buf"] obtain q' where
        q': "push RAW_CAPACITY (makeRaw t ?k buf) q = Some q'" "queue_ok RAW_CAPACITY q'"
        "queue_list RAW_CAPACITY q' = queue_list RAW_CAPACITY q @ [makeRaw t ?k buf]" by blast
      from IH [OF _ q'(2)] False q1 True q'(3) "1.prems"(4) obtain q'' where
        "frameLoop t (drop ?n buf) q' = Some (rest, q'')" "queue_ok RAW_CAPACITY q''"
        "queue_list RAW_CAPACITY q'' = queue_list RAW_CAPACITY q' @ queued t ms'" by auto
      with False True q' q1 show ?thesis by (subst frameLoop.simps) (simp add: Let_def)
    next
      case big: False
      from IH [OF _ "1.prems"(3)] False q1 big "1.prems"(4) obtain q'' where
        "frameLoop t (drop ?n buf) q = Some (rest, q'')" "queue_ok RAW_CAPACITY q''"
        "queue_list RAW_CAPACITY q'' = queue_list RAW_CAPACITY q @ queued t ms'" by auto
      with False big q1 show ?thesis by (subst frameLoop.simps) (simp add: Let_def)
    qed
  qed
qed

lemma frameLoop_zero:
  assumes "zero_header (snd (frames buf))"
  shows "frameLoop t buf q = None"
proof -
  have "\<not> zero_header (snd (frames buf))" if "frameLoop t buf q = Some r" for t buf q r
  proof (rule frameLoop.raw_induct [OF _ that], goal_cases)
    case (1 f t buf q r)
    let ?n = "unat (header_length (decode_MsgHeader buf))"
    have snd: "snd (frames buf) = snd (frames (drop ?n buf))" if "sizeof_MsgHeader \<le> length buf" "?n \<le> length buf"
      using that frames_take [of buf ?n] by (cases "?n = 0") auto
    show ?case
    proof (cases "length buf < sizeof_MsgHeader \<or> length buf < ?n")
      case True
      then show ?thesis by (auto simp: frames_stop zero_header_def)
    next
      case False
      with 1(2) obtain q' where "f t (drop ?n buf) q' = Some r"
        by (auto simp: Let_def bind_eq_Some_conv split: if_splits)
      from 1(1) [OF this] snd False show ?thesis by simp
    qed
  qed
  with assms show ?thesis by (cases "frameLoop t buf q") auto
qed

section \<open>A client's byte stream\<close>

text \<open>A message whose header announces its own size.\<close>

definition framed :: "u8 list \<Rightarrow> bool" where
  "framed m \<longleftrightarrow> sizeof_MsgHeader \<le> length m \<and> unat (header_length (decode_MsgHeader m)) = length m"

lemma frames_framed: "framed m \<Longrightarrow> frames (m @ rest) = (m # fst (frames rest), snd (frames rest))"
proof -
  assume m: "framed m"
  then have "length m = unat (header_length (decode_MsgHeader (m @ rest)))" "sizeof_MsgHeader \<le> length (m @ rest)" "length m \<noteq> 0"
    by (auto simp: framed_def decode_header_append sizeof_MsgHeader_def)
  from frames_take [OF this(2,1,3)] show ?thesis by simp
qed

lemma frames_stream: "\<forall>m\<in>set ms. framed m \<Longrightarrow> frames (concat ms @ rest) = (ms @ fst (frames rest), snd (frames rest))"
  by (induction ms) (simp_all add: frames_framed)

text \<open>The readable events of one client, one per callback, each with the chunks it reads.\<close>

definition readable :: "int \<Rightarrow> u8 list list \<Rightarrow> epoll_event" where
  "readable fd chunks = \<lparr>ev_fd = fd, ev_events = EPOLLIN, ev_chunks = chunks, ev_how = Would_block\<rparr>"

lemma handle_readable: "handleEvent (readable fd chunks) v = onData fd chunks Would_block v"
proof -
  have "EPOLLIN AND (EPOLLHUP OR EPOLLERR) = 0" "EPOLLIN AND EPOLLIN \<noteq> 0" by code_simp+
  then show ?thesis by (simp add: handleEvent_def readable_def)
qed

text \<open>What the callback does in terms of the registered object.\<close>

lemma appendChunks_session:
  "getSession fd s = Some p \<Longrightarrow> session_at fd s = Some c \<Longrightarrow>
     appendChunks p chunks s = Some (if chunks = [] then s else with_buffer fd (recvBuffer c @ concat chunks) s)"
proof (induction chunks arbitrary: s c)
  case (Cons buf chunks)
  let ?s = "with_buffer fd (recvBuffer c @ buf) s"
  have "session_at fd ?s = Some (c\<lparr>recvBuffer := recvBuffer c @ buf\<rparr>)" using Cons.prems(2) by (simp add: session_at_with_buffer)
  from Cons.IH [OF _ this] getSession_Some [OF Cons.prems(1)] Cons.prems show ?case by (simp add: with_buffer_twice)
qed simp

lemma with_buffer_appended:
  assumes "session_at fd s = Some c" "s' = (if chunks = [] then s else with_buffer fd (recvBuffer c @ concat chunks) s)"
  shows "session_at fd s' = Some (c\<lparr>recvBuffer := recvBuffer c @ concat chunks\<rparr>)" "with_buffer fd buf s' = with_buffer fd buf s"
    "getSession fd' s' = getSession fd' s"
  using assms by (auto simp: session_at_with_buffer with_buffer_twice)

lemma onData_open:
  assumes "session_at fd (srv_sessions v) = Some c"
  shows "onData fd chunks Would_block v = do {
    (buf, q) \<leftarrow> frameLoop (cs_traderId c) (recvBuffer c @ concat chunks) (srv_queue v);
    Some (Returned (v\<lparr>srv_sessions := with_buffer fd buf (srv_sessions v), srv_queue := q\<rparr>)) }"
proof -
  obtain p where p: "getSession fd (srv_sessions v) = Some p"
    using assms getSession_None [of fd "srv_sessions v"] by (cases "getSession fd (srv_sessions v)") auto
  define s where "s = (if chunks = [] then srv_sessions v else with_buffer fd (recvBuffer c @ concat chunks) (srv_sessions v))"
  note s = with_buffer_appended [OF assms s_def]
  have "getSession fd s = Some p" using s(3) p by simp
  note ps = getSession_Some [OF this]
  have "appendChunks p chunks (srv_sessions v) = Some s" unfolding s_def by (rule appendChunks_session [OF p assms])
  then show ?thesis using p ps s by (simp add: onData_def Let_def split: Option.bind_split)
qed

lemma onData_no_session: "session_at fd (srv_sessions v) = None \<Longrightarrow> onData fd chunks how v = Some (Returned v)"
  using getSession_None [of fd "srv_sessions v"] by (simp add: onData_def)

text \<open>After the end of the connection the pointer the callback goes on with is dangling, and stays so.\<close>

lemma onData_ended:
  assumes "nodes_ok (srv_sessions v)" "getSession fd (srv_sessions v) = Some p" "how \<noteq> Would_block"
  shows "\<exists>v'. onData fd chunks how v = Some (Dangling v') \<and> dangling p (srv_sessions v') \<and> session_at fd (srv_sessions v') = None
    \<and> srv_closed v' = srv_closed v @ [fd] \<and> fd \<notin> set (srv_epoll v')"
proof -
  obtain c where c: "session_at fd (srv_sessions v) = Some c" using getSession_Some(4) [OF assms(2)] by blast
  define s where "s = (if chunks = [] then srv_sessions v else with_buffer fd (recvBuffer c @ concat chunks) (srv_sessions v))"
  let ?v' = "endConnection fd (v\<lparr>srv_sessions := s\<rparr>)"
  have "appendChunks p chunks (srv_sessions v) = Some s" unfolding s_def by (rule appendChunks_session [OF assms(2) c])
  moreover have "srv_sessions ?v' = sessions_remove fd s"
    by (simp add: endConnection_def epoll_remove_def close_fd_def Let_def)
  moreover have "nodes_ok s" "getSession fd s = Some p"
    using assms(1,2) nodes_ok_steps(3) by (auto simp: s_def)
  then have "dangling p (sessions_remove fd s)" by (rule dangling_remove)
  ultimately show ?thesis
    using assms(2,3) by (auto simp: onData_def dangling_def Let_def endConnection_def close_fd_def epoll_remove_def)
qed

lemma onData_frames:
  assumes sess: "session_at fd (srv_sessions v) = Some c" and fr: "frames (recvBuffer c @ concat chunks) = (ms, rest)"
    and "\<not> zero_header rest" "queue_ok RAW_CAPACITY (srv_queue v)"
    and "length (queue_list RAW_CAPACITY (srv_queue v)) + length (queued (cs_traderId c) ms) \<le> unat RAW_CAPACITY - 1"
  shows "\<exists>v'. onData fd chunks Would_block v = Some (Returned v')
    \<and> session_at fd (srv_sessions v') = Some (c\<lparr>recvBuffer := rest\<rparr>) \<and> queue_ok RAW_CAPACITY (srv_queue v')
    \<and> queue_list RAW_CAPACITY (srv_queue v') = queue_list RAW_CAPACITY (srv_queue v) @ queued (cs_traderId c) ms"
  using frameLoop_correct [OF fr assms(3-5)] sess
  by (auto simp: onData_open session_at_with_buffer)

lemma queued_append: "queued t (ms @ ms') = queued t ms @ queued t ms'"
  by (simp add: queued_def)

lemma stream_delivered:
  assumes "session_at fd (srv_sessions v) = Some c" "frames (recvBuffer c @ concat (concat css)) = (ms, rest)"
    "\<not> zero_header rest" "queue_ok RAW_CAPACITY (srv_queue v)"
    "length (queue_list RAW_CAPACITY (srv_queue v)) + length (queued (cs_traderId c) ms) \<le> unat RAW_CAPACITY - 1"
    "frames (recvBuffer c) = ([], recvBuffer c)"
  shows "\<exists>v'. handleEvents (map (readable fd) css) v = Some (Returned v')
    \<and> session_at fd (srv_sessions v') = Some (c\<lparr>recvBuffer := rest\<rparr>) \<and> queue_ok RAW_CAPACITY (srv_queue v')
    \<and> queue_list RAW_CAPACITY (srv_queue v') = queue_list RAW_CAPACITY (srv_queue v) @ queued (cs_traderId c) ms"
  using assms
proof (induction css arbitrary: v c ms)
  case Nil
  then show ?case by (simp add: queued_def)
next
  case (Cons cs css)
  let ?b = "concat (concat css)"
  obtain ms1 r1 where f1: "frames (recvBuffer c @ concat cs) = (ms1, r1)" by fastforce
  obtain ms2 where f2: "frames (r1 @ ?b) = (ms2, rest)" "ms = ms1 @ ms2"
    using frames_append [of "recvBuffer c @ concat cs" ?b] f1 Cons.prems(2) by (cases "frames (r1 @ ?b)") auto
  have nz: "\<not> zero_header r1"
    using zero_header_append [of r1 ?b] f2(1) Cons.prems(3) by auto
  have room: "length (queue_list RAW_CAPACITY (srv_queue v)) + length (queued (cs_traderId c) ms1) \<le> unat RAW_CAPACITY - 1"
    using Cons.prems(5) f2(2) by (simp add: queued_append)
  obtain v1 where v1: "onData fd cs Would_block v = Some (Returned v1)"
    "session_at fd (srv_sessions v1) = Some (c\<lparr>recvBuffer := r1\<rparr>)" "queue_ok RAW_CAPACITY (srv_queue v1)"
    "queue_list RAW_CAPACITY (srv_queue v1) = queue_list RAW_CAPACITY (srv_queue v) @ queued (cs_traderId c) ms1"
    using onData_frames [OF Cons.prems(1) f1 nz Cons.prems(4) room] by blast
  have stable: "frames r1 = ([], r1)"
    using frames_append [of "recvBuffer c @ concat cs" "[]"] f1 by (cases "frames r1") auto
  from Cons.IH [OF v1(2), of ms2] f2 v1(3,4) Cons.prems(3,5) stable show ?case
    using v1 by (simp add: handle_readable queued_append)
qed

lemma stream_queued:
  assumes "session_at fd (srv_sessions v) = Some c" and "recvBuffer c = []" and "\<forall>m\<in>set ms. framed m"
    and "concat (concat css) = concat ms" and "queue_ok RAW_CAPACITY (srv_queue v)"
    and "length (queue_list RAW_CAPACITY (srv_queue v)) + length ms \<le> unat RAW_CAPACITY - 1"
  shows "\<exists>v'. handleEvents (map (readable fd) css) v = Some (Returned v')
    \<and> session_at fd (srv_sessions v') = Some c \<and> queue_ok RAW_CAPACITY (srv_queue v')
    \<and> queue_list RAW_CAPACITY (srv_queue v') = queue_list RAW_CAPACITY (srv_queue v) @ queued (cs_traderId c) ms"
proof -
  have nil: "frames [] = ([], [])" by (simp add: frames_stop sizeof_MsgHeader_def)
  have fr: "frames (recvBuffer c @ concat (concat css)) = (ms, [])"
    using frames_stream [OF assms(3), of "[]"] nil assms(2,4) by simp
  have len: "length (queue_list RAW_CAPACITY (srv_queue v)) + length (queued (cs_traderId c) ms) \<le> unat RAW_CAPACITY - 1"
    using assms(6) length_filter_le [of "\<lambda>m. length m \<le> MAX_RAW_MSG_SIZE" ms] unfolding queued_def length_map by linarith
  have "c\<lparr>recvBuffer := []\<rparr> = c" using assms(2) by simp
  with stream_delivered [OF assms(1) fr _ assms(5) len] assms(2) nil show ?thesis
    by (simp add: zero_header_def sizeof_MsgHeader_def)
qed

section \<open>Theorems\<close>

text \<open>
  C28. Framing is independent of TCP segmentation: take a session whose receive buffer is empty and a
  queue with room for all the messages (without room \<^verbatim>\<open>push\<close> spins until the matching thread pops).
  However the bytes of a sequence of messages, each announcing its own size, are cut into callbacks
  and reads, the callbacks return, the queue receives exactly these messages (those of at most 128
  bytes), in order, attributed to the trader of the session, and the receive buffer ends up empty.
\<close>

theorem stream_framed_into_queue:
  assumes "session_at fd (srv_sessions v) = Some c" and "recvBuffer c = []" and "\<forall>m\<in>set ms. framed m"
    and "concat (concat css) = concat ms" and "queue_ok RAW_CAPACITY (srv_queue v)"
    and "length (queue_list RAW_CAPACITY (srv_queue v)) + length ms \<le> unat RAW_CAPACITY - 1"
  shows "\<exists>v'. handleEvents (map (readable fd) css) v = Some (Returned v')
    \<and> session_at fd (srv_sessions v') = Some c \<and> queue_ok RAW_CAPACITY (srv_queue v')
    \<and> queue_list RAW_CAPACITY (srv_queue v') = queue_list RAW_CAPACITY (srv_queue v)
        @ map (\<lambda>m. makeRaw (cs_traderId c) (of_nat (length m)) m) (filter (\<lambda>m. length m \<le> MAX_RAW_MSG_SIZE) ms)"
  using stream_queued [OF assms] by (simp add: queued_def)

text \<open>A server with one client, trader 9 on descriptor 4, and its cancel request.\<close>

definition sample_server :: Server where
  "sample_server =
     \<lparr>srv_sessions = sessions_add 4 9 SessionManager_new, srv_epoll = [4],
      srv_queue = SPSCQueue_new RAW_CAPACITY RawMessage_init, srv_closed = []\<rparr>"

definition sample_session :: ClientSession where
  "sample_session = \<lparr>cs_fd = 4, cs_traderId = 9, recvBuffer = []\<rparr>"

lemma sample_server_session: "session_at 4 (srv_sessions sample_server) = Some sample_session"
  by (simp add: sample_server_def sample_session_def)

lemma RAW_CAPACITY_valid: "valid_capacity RAW_CAPACITY" "unat RAW_CAPACITY = 65536"
proof -
  show "valid_capacity RAW_CAPACITY" unfolding RAW_CAPACITY_def by code_simp
  show "unat RAW_CAPACITY = 65536" by (simp add: RAW_CAPACITY_def)
qed

lemma sample_server_queue: "queue_ok RAW_CAPACITY (srv_queue sample_server)" "queue_list RAW_CAPACITY (srv_queue sample_server) = []"
  using queue_new [OF RAW_CAPACITY_valid(1)] by (simp_all add: sample_server_def)

theorem stream_framed_into_queue_witness:
  "\<exists>v'. handleEvents (map (readable 4) [[take 5 (encode_CancelOrderRequestMsg sample_cancel)],
        [take 3 (drop 5 (encode_CancelOrderRequestMsg sample_cancel)), drop 8 (encode_CancelOrderRequestMsg sample_cancel)]]) sample_server
      = Some (Returned v')
    \<and> queue_list RAW_CAPACITY (srv_queue v') = [makeRaw 9 15 (encode_CancelOrderRequestMsg sample_cancel)]"
proof -
  let ?m = "encode_CancelOrderRequestMsg sample_cancel"
  have "framed ?m" "length ?m = 15" "recvBuffer sample_session = []" "cs_traderId sample_session = 9" by code_simp+
  moreover have "take 5 ?m @ take 3 (drop 5 ?m) @ drop 8 ?m = ?m"
    by (simp add: encode_CancelOrderRequestMsg_def encode_MsgHeader_def numeral_eq_Suc)
  ultimately show ?thesis
    using stream_framed_into_queue [OF sample_server_session, of "[?m]"
        "[[take 5 ?m], [take 3 (drop 5 ?m), drop 8 ?m]]"] sample_server_queue RAW_CAPACITY_valid(2)
    by (auto simp: MAX_RAW_MSG_SIZE_def)
qed

text \<open>
  C38. A header that announces zero bytes hangs the epoll thread: once the bytes received so far
  frame up to a complete header with length 0, the callback never returns, whatever the state
  of the queue.
\<close>

theorem zero_length_header_hangs:
  assumes "session_at fd (srv_sessions v) = Some c" and "frames (recvBuffer c @ concat chunks) = (ms, rest)"
    and "sizeof_MsgHeader \<le> length rest" and "header_length (decode_MsgHeader rest) = 0"
  shows "onData fd chunks Would_block v = None"
  using frameLoop_zero [of "recvBuffer c @ concat chunks" "cs_traderId c" "srv_queue v"] assms
  by (simp add: onData_open zero_header_def)

theorem zero_length_header_hangs_witness: "onData 4 [[0, 0, 1]] Would_block sample_server = None"
proof -
  have "frames [0, 0, 1] = ([], [0, 0, 1])" "header_length (decode_MsgHeader [0, 0, 1]) = 0"
    by (simp_all add: frames_stop decode_MsgHeader_def field_def)
  then show ?thesis
    using zero_length_header_hangs [OF sample_server_session, of "[[0, 0, 1]]" "[]" "[0, 0, 1]"]
    by (simp add: sample_session_def sizeof_MsgHeader_def)
qed

lemma getAllFds_with_buffer: "set (getAllFds (with_buffer fd bs s)) = set (getAllFds s)"
  by (rule set_eqI) (auto simp: getAllFds_iff session_at_with_buffer)

end
