(* ===== verification/Composition.thy ===== *)
theory Composition
  imports Typed_Replies Epoll_Thread
begin

text \<open>
  Lemmas for the properties that span the client, the server's threads and the books: requests that
  arrive whole, what one request sends to one descriptor, and an order that rests and is cancelled.
\<close>

section \<open>Requests that arrive whole\<close>

lemma encoded_new_framed:
  assumes "valid_NewOrderRequestMsg n" "header_length (no_header n) = of_nat sizeof_NewOrderRequestMsg"
  shows "framed (encode_NewOrderRequestMsg n)" "length (encode_NewOrderRequestMsg n) = 24"
proof -
  show len: "length (encode_NewOrderRequestMsg n) = 24"
    by (simp add: new_order_msg.encode_length sizeof_NewOrderRequestMsg_def)
  show "framed (encode_NewOrderRequestMsg n)"
    using new_order_msg.decode_header [OF assms(1), of "[]"] assms(2) len
    by (simp add: framed_def sizeof_MsgHeader_def sizeof_NewOrderRequestMsg_def)
qed

lemma parse_framed_new:
  assumes "valid_NewOrderRequestMsg n" "header_type (no_header n) = NewOrderRequest"
  shows "parseRequest now (makeRaw t 24 (encode_NewOrderRequestMsg n)) = Some (toOrderRequest_new now n t)"
proof -
  have "length (encode_NewOrderRequestMsg n) = 24" by (simp add: new_order_msg.encode_length sizeof_NewOrderRequestMsg_def)
  then show ?thesis
    using assms by (simp add: parseRequest_def makeRaw_def new_order_msg.decode_header new_order_msg.decode_encode
        sizeof_MsgHeader_def sizeof_NewOrderRequestMsg_def)
qed

lemma parse_framed_cancel:
  assumes "valid_CancelOrderRequestMsg m" "header_type (co_header m) = CancelOrderRequest"
  shows "parseRequest now (makeRaw t 15 (encode_CancelOrderRequestMsg m)) = Some (toOrderRequest_cancel now m t)"
proof -
  have "length (encode_CancelOrderRequestMsg m) = 15" by (simp add: cancel_order_msg.encode_length sizeof_CancelOrderRequestMsg_def)
  then show ?thesis
    using assms by (simp add: parseRequest_def makeRaw_def cancel_order_msg.decode_header cancel_order_msg.decode_encode
        sizeof_MsgHeader_def sizeof_CancelOrderRequestMsg_def)
qed

lemma valid_client_requests:
  "valid_NewOrderRequestMsg (newOrder i sy sd p q)" "header_type (no_header (newOrder i sy sd p q)) = NewOrderRequest"
  "valid_CancelOrderRequestMsg (cancelRequest e sy)" "header_type (co_header (cancelRequest e sy)) = CancelOrderRequest"
  by (simp_all add: newOrder_def cancelRequest_def valid_NewOrderRequestMsg_def valid_CancelOrderRequestMsg_def valid_MsgHeader_def
      byte_msg_type_def byte_side_def)

section \<open>What one request sends to one descriptor\<close>

lemma sent_to_request:
  assumes "sessions_ok s" "fd \<in> set (getAllFds s)"
  shows "sent_to fd (sendConfirms s cs @ multicast s ms)
    = map confirm_bytes (filter (\<lambda>x. getFd (oc_traderId x) s = fd) cs) @ map update_bytes ms"
proof -
  have "0 \<le> fd" using assms by (auto simp: sessions_ok_def getAllFds_iff)
  then show ?thesis
    by (simp add: sent_to_def sendConfirms_to multicast_to [OF sm.fds_distinct [OF assms(1)] assms(2)] comp_def del: confirm_bytes.simps)
qed

lemma request_replies:
  assumes "list_all typed_confirm cs" "list_all typed_update ms"
  shows "list_all2 reads_as (map confirm_bytes (filter P cs) @ map update_bytes ms)
    (map confirm_reply (filter P cs) @ map update_reply ms)"
  using assms
  by (intro list_all2_appendI) (auto simp: list_all2_map1 list_all2_map2 list_all2_same list_all_iff confirm_reads update_reads
      simp del: confirm_bytes.simps confirm_reply.simps)

section \<open>An order that rests and is taken out again\<close>

lemma spec_match_none: "\<forall>r\<in>set rs. \<not> crosses req r \<Longrightarrow> spec_match req rem rs = (rs, rem, [])"
  by (cases rs) auto

definition resting_order :: "OrderRequest \<Rightarrow> Resting" where
  "resting_order req = \<lparr>r_id = m_orderId req, r_trader = m_traderId req, r_side = m_side req, r_price = m_price req,
     r_qty = m_quantity req, r_recorded = m_quantity req\<rparr>"

lemma spec_add_rests:
  assumes "\<forall>r\<in>set (opposite_list req B). \<not> crosses req r" "m_quantity req \<noteq> 0"
  shows "spec_add req B = (spec_place (resting_order req) B,
    [OrderConfirm NewAck (m_orderId req) (m_clientOrderId req) (m_traderId req) (s_symbol B) 0 0 UnknownOrder],
    [MdUpdate (s_symbol B) (m_orderId req) (m_side req) (m_price req) (m_quantity req) MdNew])"
proof -
  have "B\<lparr>s_asks := s_asks B\<rparr> = B" "B\<lparr>s_bids := s_bids B\<rparr> = B" by simp_all
  with assms spec_match_none [of "opposite_list req B" req "m_quantity req"] show ?thesis
    by (simp add: spec_add_def opposite_list_def resting_order_def split: if_splits)
qed

lemma filter_other_ids: "i \<notin> r_id ` set rs \<Longrightarrow> filter (\<lambda>x. r_id x \<noteq> i) rs = rs"
  by (rule filter_True) auto

lemma filter_spec_insert: "r_id r \<notin> r_id ` set rs \<Longrightarrow> filter (\<lambda>x. r_id x \<noteq> r_id r) (spec_insert lt r rs) = rs"
  by (induction rs) (simp_all add: filter_other_ids, metis)

lemma find_spec_insert: "r_id r \<notin> r_id ` set rs \<Longrightarrow> List.find (\<lambda>x. r_id x = r_id r) (spec_insert lt r rs @ ys) = Some r"
  by (induction rs) auto

lemma find_append_fresh: "i \<notin> r_id ` set xs \<Longrightarrow> List.find (\<lambda>x. r_id x = i) (xs @ ys) = List.find (\<lambda>x. r_id x = i) ys"
  by (induction xs) auto

lemma remove_placed: "r_id r \<notin> r_id ` set (spec_orders B) \<Longrightarrow> spec_remove (r_id r) (spec_place r B) = B"
  by (simp add: spec_remove_def spec_place_def spec_orders_def image_Un filter_spec_insert filter_other_ids)

lemma find_placed: "r_id r \<notin> r_id ` set (spec_orders B) \<Longrightarrow> spec_find (r_id r) (spec_place r B) = Some r"
  using find_spec_insert [of r "s_asks B" "(<)" "[]"]
  by (simp add: spec_find_def spec_place_def spec_orders_def image_Un find_spec_insert find_append_fresh)

lemma spec_cancel_placed:
  assumes "r_id r \<notin> r_id ` set (spec_orders B)"
  shows "spec_cancel (r_id r) (r_trader r) (spec_place r B) =
    (B, [OrderConfirm CancelAck (r_id r) 0 (r_trader r) (s_symbol B) 0 0 UnknownOrder],
     [MdUpdate (s_symbol B) (r_id r) (r_side r) (r_price r) (r_qty r) MdCancel])"
  using assms by (simp add: spec_cancel_def find_placed remove_placed) (simp add: spec_place_def)

text \<open>The server's side of both requests.\<close>

lemma handleRaw_rests:
  assumes ok: "thread_ok th" and b: "books (engine th) (m_symbolId req) = Some b"
    and req: "parseRequest now raw = Some req" "m_requestType req = New" "m_quantity req \<noteq> 0"
    and none: "\<forall>r\<in>set (opposite_list req (abs_book b)). \<not> crosses req r"
  obtains th' b' where "handleRaw now s raw th = Some (th',
      sendConfirms s [OrderConfirm NewAck (nextOrderId (engine th)) (m_clientOrderId req) (m_traderId req) (symbol b) 0 0 UnknownOrder]
        @ multicast s [MdUpdate (symbol b) (nextOrderId (engine th)) (m_side req) (m_price req) (m_quantity req) MdNew])"
    "books (engine th') (m_symbolId req) = Some b'" "book_ok b'"
    "abs_book b' = spec_place (resting_order (req\<lparr>m_orderId := nextOrderId (engine th)\<rparr>)) (abs_book b)"
proof -
  let ?req = "req\<lparr>m_orderId := nextOrderId (engine th)\<rparr>"
  have b_ok: "book_ok b" "\<forall>i\<in>dom (orderMap b). i < nextOrderId (engine th)"
    using ok b by (auto simp: thread_ok_def engine_ok_def books_inv_def book_ids_def)
  then have new: "m_orderId ?req \<notin> dom (orderMap b)" by auto
  have none': "\<forall>r\<in>set (opposite_list ?req (abs_book b)). \<not> crosses ?req r"
    using none by (auto simp: opposite_list_def crosses_def)
  obtain b' where b': "addOrder ?req b [] [] = Some (b',
      [OrderConfirm NewAck (nextOrderId (engine th)) (m_clientOrderId req) (m_traderId req) (symbol b) 0 0 UnknownOrder],
      [MdUpdate (symbol b) (nextOrderId (engine th)) (m_side req) (m_price req) (m_quantity req) MdNew])"
      "book_ok b'" "abs_book b' = spec_place (resting_order ?req) (abs_book b)"
    using addOrder_implements [OF b_ok(1) new, of "[]" "[]"] spec_add_rests [OF none'] req(3)
    by (auto simp: implements_def s_symbol_abs)
  let ?g = "(engine th)\<lparr>nextOrderId := nextOrderId (engine th) + 1, books := (books (engine th))(m_symbolId req \<mapsto> b')\<rparr>"
  show ?thesis
  proof (rule that)
    show "handleRaw now s raw th = Some (\<lparr>engine = ?g, market = updateMarket (m_symbolId req)
        [OrderConfirm NewAck (nextOrderId (engine th)) (m_clientOrderId req) (m_traderId req) (symbol b) 0 0 UnknownOrder] ?g (market th)\<rparr>,
      sendConfirms s [OrderConfirm NewAck (nextOrderId (engine th)) (m_clientOrderId req) (m_traderId req) (symbol b) 0 0 UnknownOrder]
        @ multicast s [MdUpdate (symbol b) (nextOrderId (engine th)) (m_side req) (m_price req) (m_quantity req) MdNew])"
      using req b b'(1) by (simp add: handleRaw_def dispatch_def onOrder_def Let_def del: sendConfirms.simps multicast.simps)
  qed (use b' in simp_all)
qed

lemma handleRaw_cancels:
  assumes "books (engine th) (m_symbolId req) = Some b" "book_ok b" "parseRequest now raw = Some req" "m_requestType req = Cancel"
    and "spec_cancel (m_orderId req) (m_traderId req) (abs_book b) = (B, cs, ms)"
  shows "\<exists>th' b'. handleRaw now s raw th = Some (th', sendConfirms s cs @ multicast s ms)
    \<and> books (engine th') = (books (engine th))(m_symbolId req \<mapsto> b') \<and> abs_book b' = B"
proof -
  obtain b' where "cancelOrder (m_orderId req) (m_traderId req) b [] [] = Some (b', cs, ms)" "abs_book b' = B"
    using cancelOrder_implements [OF assms(2), of "m_orderId req" "m_traderId req" "[]" "[]"] assms(5)
    by (auto simp: implements_def)
  with assms(1,3,4) show ?thesis by (auto simp: handleRaw_def dispatch_def onCancel_def)
qed

lemma handleRaw_cancels_placed:
  assumes "books (engine th) sy = Some b'" "book_ok b'" "abs_book b' = spec_place r B" "r_id r \<notin> r_id ` set (spec_orders B)"
  shows "\<exists>th' acts b2. handleRaw now s (makeRaw (r_trader r) 15 (encode_CancelOrderRequestMsg (cancelRequest (r_id r) sy))) th = Some (th', acts)
    \<and> books (engine th') sy = Some b2 \<and> abs_book b2 = B"
proof -
  let ?req = "toOrderRequest_cancel now (cancelRequest (r_id r) sy) (r_trader r)"
  have f: "m_symbolId ?req = sy" "m_requestType ?req = Cancel" "m_orderId ?req = r_id r" "m_traderId ?req = r_trader r"
    by (simp_all add: toOrderRequest_cancel_def cancelRequest_def)
  have "spec_cancel (m_orderId ?req) (m_traderId ?req) (abs_book b') =
      (B, [OrderConfirm CancelAck (r_id r) 0 (r_trader r) (s_symbol B) 0 0 UnknownOrder],
       [MdUpdate (s_symbol B) (r_id r) (r_side r) (r_price r) (r_qty r) MdCancel])"
    unfolding f assms(3) by (rule spec_cancel_placed [OF assms(4)])
  from handleRaw_cancels [OF _ assms(2) parse_framed_cancel [OF valid_client_requests(3,4)] f(2) this, of th s] assms(1) f(1)
  show ?thesis by fastforce
qed

text \<open>The client reads an acknowledgement and the update that follows it.\<close>

lemma ack_read:
  assumes "sessions_ok s" "fd \<in> set (getAllFds s)" "getFd t s = fd" "fair_recv k" "gRunning c" "typed_side side"
  shows "recvSteps 2 k (concat (sent_to fd (sendConfirms s [OrderConfirm NewAck e i t sy 0 0 UnknownOrder]
      @ multicast s [MdUpdate sy e side p q MdNew]))) c
    = Some (c\<lparr>internalToExchange := (internalToExchange c)(i \<mapsto> e)\<rparr>, [],
        [P_new_confirm (toNewOrderConfirmMsg (OrderConfirm NewAck e i t sy 0 0 UnknownOrder)), update_reply (MdUpdate sy e side p q MdNew)])"
proof -
  let ?ack = "OrderConfirm NewAck e i t sy 0 0 UnknownOrder" and ?md = "MdUpdate sy e side p q MdNew"
  have "list_all typed_confirm [?ack]" "list_all typed_update [?md]"
    using assms(6) by (simp_all add: typed_confirm_def typed_update_def)
  from recvSteps_replies [OF assms(4) request_replies [OF this, of "\<lambda>x. getFd (oc_traderId x) s = fd"] assms(5), of "[]"]
  show ?thesis
    unfolding sent_to_request [OF assms(1,2)]
    by (simp add: assms(3) update_reply_def toNewOrderConfirmMsg_def numeral_2_eq_2
        del: confirm_bytes.simps sendConfirms.simps multicast.simps recvSteps.simps)
qed

section \<open>A connected trader\<close>

text \<open>Trader 9 connected on descriptor 4.\<close>

definition sample_registry :: SessionManager where
  "sample_registry = sessions_add 4 9 SessionManager_new"

lemma sample_registry: "sessions_ok sample_registry" "4 \<in> set (getAllFds sample_registry)" "getFd 9 sample_registry = 4"
proof -
  show "sessions_ok sample_registry" unfolding sample_registry_def
    by (rule sessions_ok_add [OF sessions_ok_new]) (simp_all add: SessionManager_new_def session_at_def)
qed code_simp+

end
