(* ===== verification/Terminal.thy ===== *)
theory Terminal
  imports Market_State
begin

text \<open>
  \<^verbatim>\<open>src/thread_gui.cpp\<close>: the terminal thread. Every half second it clears the screen and prints one
  row for each instrument of the market table that has traded or has a best price.
\<close>

definition gui_symbol :: "nat \<Rightarrow> string" where
  "gui_symbol i =
     (if i < 5 then [''RELIANCE'', ''TCS'', ''INFY'', ''HDFCBANK'', ''ICICIBANK''] ! i else ''UNKNOWN'')"

definition gui_active :: "InstrumentState \<Rightarrow> bool" where
  "gui_active state \<longleftrightarrow> lastTradePrice state \<noteq> 0 \<or> bestBid state \<noteq> 0 \<or> bestAsk state \<noteq> 0"

definition gui_number :: "u32 \<Rightarrow> string" where
  "gui_number w = decimal (unat w)"

definition gui_row :: "nat \<Rightarrow> InstrumentState \<Rightarrow> string" where
  "gui_row i state =
     ''  '' @ gui_symbol i @ '' | ASK: '' @ gui_number (bestAsk state) @ '' x '' @ gui_number (askVolume state)
       @ '' | BID: '' @ gui_number (bestBid state) @ '' x '' @ gui_number (bidVolume state)
       @ '' | LAST: '' @ gui_number (lastTradePrice state) @ '' x '' @ gui_number (lastTradeQty state)
       @ '' | VOL: '' @ gui_number (totalTradedVolume state) @ [CHR 0x0A]"

text \<open>The loop over the snapshot.\<close>

fun gui_rows :: "nat \<Rightarrow> InstrumentState list \<Rightarrow> string list" where
  "gui_rows i [] = []"
| "gui_rows i (state # states) =
     (if gui_active state then [gui_row i state] else []) @ gui_rows (Suc i) states"

definition gui_header :: string where
  "gui_header =
     [CHR 0x1B] @ ''[2J'' @ [CHR 0x1B] @ ''[H'' @ ''market state terminal gui'' @ [CHR 0x0A, CHR 0x0A]
       @ replicate 71 (CHR ''-'') @ [CHR 0x0A]"

definition gui_frame :: "MarketState \<Rightarrow> string" where
  "gui_frame m = gui_header @ concat (gui_rows 0 (market_snapshot m))"

section \<open>Lemmas\<close>

lemma gui_rows_filter:
  "gui_rows i states = map (\<lambda>k. gui_row (i + k) (states ! k)) (filter (\<lambda>k. gui_active (states ! k)) [0..<length states])"
proof (induction states arbitrary: i)
  case (Cons state states)
  have "[0..<length (state # states)] = 0 # map Suc [0..<length states]" by (simp add: map_Suc_upt upt_conv_Cons del: upt_Suc)
  with Cons show ?case by (simp add: filter_map comp_def del: upt_Suc)
qed simp

lemma gui_initially_empty: "gui_frame MarketState_new = gui_header"
proof -
  have "gui_rows i (replicate n InstrumentState_init) = []" for i n
    by (induction n arbitrary: i) (simp_all add: gui_active_def InstrumentState_init_def)
  then show ?thesis by (simp add: gui_frame_def market_snapshot_def MarketState_new_def)
qed

text \<open>An instrument with a best price is on the screen, under its name and with the table's values.\<close>

lemma gui_shows_instrument:
  assumes "market_ok m" "unat sy < MAX_INSTRUMENTS" "gui_active (market_get sy m)"
  shows "gui_row (unat sy) (market_get sy m) \<in> set (gui_rows 0 (market_snapshot m))"
  using assms by (force simp: gui_rows_filter market_snapshot_def market_ok_def market_get_def)

end
