(* ===== verification/Tcp_Socket.thy ===== *)
theory Tcp_Socket
  imports Exchange_Prelude
begin

text \<open>
  \<^verbatim>\<open>net/include/tcp_socket.hpp\<close>, \<^verbatim>\<open>net/src/tcp_socket.cpp\<close>, \<^verbatim>\<open>net/src/tcp_server.cpp\<close> and
  \<^verbatim>\<open>net/src/tcp_client.cpp\<close>: the move-only owner of a descriptor and the two programs that obtain
  descriptors for it.

  The kernel is a small state: the open descriptors, those closed so far in order, and the calls
  of \<^verbatim>\<open>close\<close> on a descriptor that was not open (in a program with several threads such a call can
  close a descriptor that belongs to somebody else). The results of the other system calls are
  inputs. Socket objects live in a store under names, so that moves between objects, and an object
  being assigned to itself, are explicit.
\<close>

section \<open>Kernel\<close>

record os =
  os_open :: "int list"
  os_closed :: "int list"
  os_bad_close :: "int list"
  os_nonblocking :: "int list"
  os_reuseaddr :: "int list"

definition os_init :: os where
  "os_init = \<lparr>os_open = [], os_closed = [], os_bad_close = [], os_nonblocking = [], os_reuseaddr = []\<rparr>"

definition os_close :: "int \<Rightarrow> os \<Rightarrow> os" where
  "os_close fd k =
     (if fd \<in> set (os_open k)
      then k\<lparr>os_open := removeAll fd (os_open k), os_closed := os_closed k @ [fd],
             os_nonblocking := removeAll fd (os_nonblocking k),
             os_reuseaddr := removeAll fd (os_reuseaddr k)\<rparr>
      else k\<lparr>os_bad_close := os_bad_close k @ [fd]\<rparr>)"

definition os_new_fd :: "int \<Rightarrow> os \<Rightarrow> os" where
  "os_new_fd fd k = k\<lparr>os_open := fd # os_open k\<rparr>"

section \<open>TcpSocket\<close>

record TcpSocket =
  mFd :: int

definition TcpSocket_default :: TcpSocket where
  "TcpSocket_default = \<lparr>mFd = - 1\<rparr>"

definition TcpSocket_fd :: "int \<Rightarrow> TcpSocket" where
  "TcpSocket_fd fd = \<lparr>mFd = fd\<rparr>"

definition socket_valid :: "TcpSocket \<Rightarrow> bool" where
  "socket_valid s \<longleftrightarrow> 0 \<le> mFd s"

definition socket_close :: "TcpSocket \<Rightarrow> os \<Rightarrow> TcpSocket \<times> os" where
  "socket_close s k = (if 0 \<le> mFd s then (s\<lparr>mFd := - 1\<rparr>, os_close (mFd s) k) else (s, k))"

text \<open>Move construction gives the new object and what is left of the source.\<close>

definition socket_move :: "TcpSocket \<Rightarrow> TcpSocket \<times> TcpSocket" where
  "socket_move other = (\<lparr>mFd = mFd other\<rparr>, other\<lparr>mFd := - 1\<rparr>)"

text \<open>Move assignment from another object: close, take over, clear the source.\<close>

definition socket_assign :: "TcpSocket \<Rightarrow> TcpSocket \<Rightarrow> os \<Rightarrow> TcpSocket \<times> TcpSocket \<times> os" where
  "socket_assign this other k =
     (case socket_close this k of (this1, k1) \<Rightarrow> (this1\<lparr>mFd := mFd other\<rparr>, other\<lparr>mFd := - 1\<rparr>, k1))"

definition socket_release :: "TcpSocket \<Rightarrow> int \<times> TcpSocket" where
  "socket_release s = (mFd s, s\<lparr>mFd := - 1\<rparr>)"

text \<open>\<open>flags\<close> is the result of \<^verbatim>\<open>fcntl(F_GETFL)\<close>.\<close>

definition socket_setNonBlocking :: "int \<Rightarrow> TcpSocket \<Rightarrow> os \<Rightarrow> os" where
  "socket_setNonBlocking flags s k =
     (if mFd s < 0 then k
      else if 0 \<le> flags then k\<lparr>os_nonblocking := List.insert (mFd s) (os_nonblocking k)\<rparr> else k)"

definition socket_setReuseAddr :: "TcpSocket \<Rightarrow> os \<Rightarrow> os" where
  "socket_setReuseAddr s k =
     (if mFd s < 0 then k else k\<lparr>os_reuseaddr := List.insert (mFd s) (os_reuseaddr k)\<rparr>)"

text \<open>\<open>result\<close> is what the system call would return for the descriptor.\<close>

definition socket_sendRaw :: "(int \<Rightarrow> u8 list \<Rightarrow> int) \<Rightarrow> TcpSocket \<Rightarrow> u8 list \<Rightarrow> int" where
  "socket_sendRaw result s msg = (if mFd s < 0 then - 1 else result (mFd s) msg)"

definition socket_recvRaw :: "(int \<Rightarrow> nat \<Rightarrow> int) \<Rightarrow> TcpSocket \<Rightarrow> nat \<Rightarrow> int" where
  "socket_recvRaw result s msgLen = (if mFd s < 0 then - 1 else result (mFd s) msgLen)"

section \<open>Programs over socket objects\<close>

type_synonym store = "nat \<rightharpoonup> TcpSocket"

datatype socket_op =
    Default_construct nat
  | Construct nat int          \<comment> \<open>of a descriptor the kernel has just opened\<close>
  | Move_construct nat nat     \<comment> \<open>target, source\<close>
  | Move_assign nat nat        \<comment> \<open>target, source; they may be the same object\<close>
  | Close nat
  | Release nat
  | Destroy nat

text \<open>\<open>None\<close> is a use of an object outside its lifetime.\<close>

fun socket_step :: "socket_op \<Rightarrow> store \<times> os \<Rightarrow> (store \<times> os) option" where
  "socket_step (Default_construct i) (st, k) = Some (st(i \<mapsto> TcpSocket_default), k)"
| "socket_step (Construct i fd) (st, k) = Some (st(i \<mapsto> TcpSocket_fd fd), os_new_fd fd k)"
| "socket_step (Move_construct i j) (st, k) =
     (case st j of
        None \<Rightarrow> None
      | Some other \<Rightarrow> (case socket_move other of (s, other') \<Rightarrow> Some (st(j \<mapsto> other', i \<mapsto> s), k)))"
| "socket_step (Move_assign i j) (st, k) =
     (case (st i, st j) of
        (Some this, Some other) \<Rightarrow>
          if i = j then Some (st, k)
          else (case socket_assign this other k of (this', other', k') \<Rightarrow> Some (st(i \<mapsto> this', j \<mapsto> other'), k'))
      | _ \<Rightarrow> None)"
| "socket_step (Close i) (st, k) =
     (case st i of None \<Rightarrow> None | Some s \<Rightarrow> (case socket_close s k of (s', k') \<Rightarrow> Some (st(i \<mapsto> s'), k')))"
| "socket_step (Release i) (st, k) =
     (case st i of None \<Rightarrow> None | Some s \<Rightarrow> Some (st(i \<mapsto> snd (socket_release s)), k))"
| "socket_step (Destroy i) (st, k) =
     (case st i of None \<Rightarrow> None | Some s \<Rightarrow> Some (st(i := None), snd (socket_close s k)))"

fun socket_run :: "socket_op list \<Rightarrow> store \<times> os \<Rightarrow> (store \<times> os) option" where
  "socket_run [] x = Some x"
| "socket_run (a # as) x = (case socket_step a x of None \<Rightarrow> None | Some x' \<Rightarrow> socket_run as x')"

text \<open>What the language guarantees of a program: objects are constructed under fresh names and used
  only while they live; and what the kernel guarantees: a new descriptor is not open yet.\<close>

fun op_allowed :: "socket_op \<Rightarrow> store \<times> os \<Rightarrow> bool" where
  "op_allowed (Default_construct i) (st, k) \<longleftrightarrow> st i = None"
| "op_allowed (Construct i fd) (st, k) \<longleftrightarrow> st i = None \<and> 0 \<le> fd \<and> fd \<notin> set (os_open k)"
| "op_allowed (Move_construct i j) (st, k) \<longleftrightarrow> st i = None \<and> st j \<noteq> None"
| "op_allowed (Move_assign i j) (st, k) \<longleftrightarrow> st i \<noteq> None \<and> st j \<noteq> None"
| "op_allowed (Close i) (st, k) \<longleftrightarrow> st i \<noteq> None"
| "op_allowed (Release i) (st, k) \<longleftrightarrow> st i \<noteq> None"
| "op_allowed (Destroy i) (st, k) \<longleftrightarrow> st i \<noteq> None"

fun run_allowed :: "socket_op list \<Rightarrow> store \<times> os \<Rightarrow> bool" where
  "run_allowed [] x \<longleftrightarrow> True"
| "run_allowed (a # as) x \<longleftrightarrow>
     op_allowed a x \<and> (case socket_step a x of None \<Rightarrow> False | Some x' \<Rightarrow> run_allowed as x')"

section \<open>Ownership\<close>

lemma mFd_update [simp]: "s\<lparr>mFd := a\<rparr> = \<lparr>mFd = a\<rparr>" for s :: TcpSocket
  by (cases s) simp

text \<open>A live object that holds a descriptor holds an open one, no two objects hold the same one, and
  \<^verbatim>\<open>close\<close> has never been called on a descriptor that was not open.\<close>

definition owns :: "store \<times> os \<Rightarrow> bool" where
  "owns x \<longleftrightarrow>
     (\<forall>i s. fst x i = Some s \<longrightarrow> 0 \<le> mFd s \<longrightarrow> mFd s \<in> set (os_open (snd x)))
   \<and> (\<forall>i j s t. fst x i = Some s \<longrightarrow> fst x j = Some t \<longrightarrow> 0 \<le> mFd s \<longrightarrow> mFd s = mFd t \<longrightarrow> i = j)
   \<and> os_bad_close (snd x) = []"

lemma owns_init: "owns (Map.empty, os_init)"
  by (simp add: owns_def os_init_def)

lemma os_close_open: "fd \<in> set (os_open k) \<Longrightarrow> os_bad_close (os_close fd k) = os_bad_close k"
  "fd \<in> set (os_open k) \<Longrightarrow> set (os_open (os_close fd k)) = set (os_open k) - {fd}"
  by (auto simp: os_close_def)

text \<open>Clearing the descriptor of one object, closing it or not.\<close>

lemma owns_clear:
  assumes "owns (st, k)" "st i = Some s"
  shows "owns (st(i \<mapsto> s\<lparr>mFd := - 1\<rparr>), k)"
  using assms by (auto simp: owns_def split: if_splits)

lemma owns_forget: "owns (st, k) \<Longrightarrow> owns (st(i := None), k)"
  by (auto simp: owns_def split: if_splits)

lemma owns_close:
  assumes "owns (st, k)" "st i = Some s"
  shows "owns (st(i \<mapsto> fst (socket_close s k)), snd (socket_close s k))"
proof (cases "0 \<le> mFd s")
  case True
  with assms have fd: "mFd s \<in> set (os_open k)" unfolding owns_def by fastforce
  have "mFd t \<noteq> mFd s" if "st j = Some t" "j \<noteq> i" for j t
    using assms that True unfolding owns_def by fastforce
  with True assms fd show ?thesis
    by (auto simp: owns_def socket_close_def os_close_open split: if_splits)
next
  case False
  with assms show ?thesis by (simp add: socket_close_def fun_upd_idem)
qed

text \<open>Handing a descriptor from one object to another that holds none.\<close>

lemma owns_transfer:
  assumes "owns (st, k)" "st j = Some other" "i \<noteq> j" "\<And>t. st i = Some t \<Longrightarrow> mFd t < 0"
  shows "owns (st(i \<mapsto> \<lparr>mFd = mFd other\<rparr>, j \<mapsto> other\<lparr>mFd := - 1\<rparr>), k)"
proof -
  have "mFd t \<noteq> mFd other" if "st l = Some t" "l \<noteq> j" "0 \<le> mFd t" for l t
    using assms(1,2) that unfolding owns_def by fastforce
  with assms show ?thesis by (auto simp: owns_def split: if_splits)
qed

lemma owns_step:
  assumes "owns x" "op_allowed a x"
  shows "\<exists>x'. socket_step a x = Some x' \<and> owns x'"
proof (cases x)
  case (Pair st k)
  note ow = assms(1) [unfolded Pair] and al = assms(2) [unfolded Pair]
  show ?thesis
  proof (cases a)
    case (Default_construct i)
    with ow show ?thesis by (auto simp: Pair owns_def TcpSocket_default_def split: if_splits)
  next
    case (Construct i fd)
    with ow al show ?thesis
      by (auto simp: Pair owns_def TcpSocket_fd_def os_new_fd_def split: if_splits)
  next
    case (Move_construct i j)
    with al obtain other where s: "st j = Some other" "st i = None" by auto
    then have "i \<noteq> j" by auto
    with s owns_transfer [OF ow, of j other i] Move_construct show ?thesis
      by (auto simp: Pair socket_move_def fun_upd_twist)
  next
    case (Move_assign i j)
    with al obtain this other where s: "st i = Some this" "st j = Some other" by auto
    show ?thesis
    proof (cases "i = j")
      case False
      have closed: "mFd (fst (socket_close this k)) < 0" by (simp add: socket_close_def)
      have "owns (st(i \<mapsto> fst (socket_close this k)), snd (socket_close this k))" by (rule owns_close [OF ow s(1)])
      from owns_transfer [OF this, of j other i] False s closed Move_assign show ?thesis
        by (auto simp: Pair socket_assign_def case_prod_beta)
    qed (use s ow Move_assign in \<open>simp add: Pair\<close>)
  next
    case (Close i)
    with al obtain s where "st i = Some s" by auto
    with owns_close [OF ow, of i s] Close show ?thesis by (auto simp: Pair split: prod.splits)
  next
    case (Release i)
    with al obtain s where "st i = Some s" by auto
    with owns_clear [OF ow, of i s] Release show ?thesis by (auto simp: Pair socket_release_def)
  next
    case (Destroy i)
    with al obtain s where s: "st i = Some s" by auto
    with owns_forget [OF owns_close [OF ow s], of i] Destroy show ?thesis by (auto simp: Pair)
  qed
qed

lemma owns_run: "owns x \<Longrightarrow> run_allowed as x \<Longrightarrow> \<exists>x'. socket_run as x = Some x' \<and> owns x'"
proof (induction as arbitrary: x)
  case (Cons a as)
  from owns_step [OF Cons.prems(1), of a] Cons.prems(2) obtain x' where "socket_step a x = Some x'" "owns x'" by auto
  with Cons show ?case by auto
qed simp

section \<open>Every descriptor is closed once\<close>

text \<open>The descriptors a program was given, and those it holds.\<close>

fun constructed :: "socket_op list \<Rightarrow> int list" where
  "constructed [] = []"
| "constructed (Construct i fd # as) = fd # constructed as"
| "constructed (a # as) = constructed as"

definition held :: "store \<Rightarrow> int set" where
  "held st = {fd. 0 \<le> fd \<and> (\<exists>i s. st i = Some s \<and> mFd s = fd)}"

definition releases :: "socket_op list \<Rightarrow> bool" where
  "releases as \<longleftrightarrow> (\<exists>i. Release i \<in> set as)"

text \<open>How often a descriptor has been closed, plus one while it is open.\<close>

definition lives :: "os \<Rightarrow> int \<Rightarrow> nat" where
  "lives k fd = count_list (os_closed k) fd + of_bool (fd \<in> set (os_open k))"

lemma lives_close: "fd' \<in> set (os_open k) \<Longrightarrow> lives (os_close fd' k) fd = lives k fd"
  by (auto simp: lives_def os_close_def count_list_append)

lemma lives_socket_close:
  assumes "owns (st, k)" "st i = Some s"
  shows "lives (snd (socket_close s k)) fd = lives k fd"
  using assms lives_close [of "mFd s" k fd] unfolding owns_def by (auto simp: socket_close_def)

lemma lives_step:
  assumes "owns x" "op_allowed a x" "socket_step a x = Some x'"
  shows "lives (snd x') fd = lives (snd x) fd + count_list (constructed [a]) fd"
proof (cases x)
  case (Pair st k)
  have close: "st i = Some s \<Longrightarrow> lives (snd (socket_close s k)) fd = lives k fd" for i s
    using lives_socket_close assms(1) by (simp add: Pair)
  show ?thesis
  proof (cases a)
    case (Construct i fd')
    with assms Pair show ?thesis by (auto simp: lives_def os_new_fd_def)
  next
    case (Move_assign i j)
    with assms Pair close [of i] show ?thesis
      by (auto simp: socket_assign_def case_prod_beta split: option.splits if_splits)
  qed (use assms Pair close in \<open>auto simp: socket_move_def case_prod_beta split: option.splits\<close>)
qed

lemma constructed_Cons: "constructed (a # as) = constructed [a] @ constructed as"
  by (cases a) simp_all

lemma lives_run:
  assumes "owns x" "run_allowed as x" "socket_run as x = Some x'"
  shows "lives (snd x') fd = lives (snd x) fd + count_list (constructed as) fd"
  using assms
proof (induction as arbitrary: x)
  case (Cons a as)
  obtain x1 where x1: "socket_step a x = Some x1" "owns x1"
    using owns_step [OF Cons.prems(1), of a] Cons.prems(2) by auto
  with Cons.prems have "lives (snd x') fd = lives (snd x1) fd + count_list (constructed as) fd"
    by (intro Cons.IH) auto
  moreover have "lives (snd x1) fd = lives (snd x) fd + count_list (constructed [a]) fd"
    using lives_step [OF Cons.prems(1) _ x1(1)] Cons.prems(2) by auto
  ultimately show ?case by (simp add: constructed_Cons [of a as] count_list_append)
qed simp

text \<open>Without a release, everything open is held by some object.\<close>

text \<open>What the objects other than one hold.\<close>

definition held_besides :: "nat \<Rightarrow> store \<Rightarrow> int set" where
  "held_besides i st = held (st(i := None))"

lemma held_upd: "held (st(i \<mapsto> s)) = held_besides i st \<union> {fd. 0 \<le> fd \<and> fd = mFd s}"
  by (auto simp: held_def held_besides_def split: if_splits)

lemma held_at: "st i = Some s \<Longrightarrow> held st = held_besides i st \<union> {fd. 0 \<le> fd \<and> fd = mFd s}"
  using held_upd [of st i s] by (simp add: fun_upd_idem)

lemma held_fresh: "st i = None \<Longrightarrow> held_besides i st = held st"
  by (simp add: held_besides_def fun_upd_idem)

lemma held_besides_upd: "i \<noteq> j \<Longrightarrow> held_besides j (st(i \<mapsto> s)) = held_besides i (st(j := None)) \<union> {fd. 0 \<le> fd \<and> fd = mFd s}"
  using held_upd [of "st(j := None)" i s] by (simp add: held_besides_def fun_upd_twist)

lemma open_after_close:
  assumes "owns (st, k)" "st i = Some s" "set (os_open k) \<subseteq> held st"
  shows "set (os_open (snd (socket_close s k))) \<subseteq> held_besides i st"
proof (cases "0 \<le> mFd s")
  case True
  have "mFd s \<in> set (os_open k)" using assms(1,2) True unfolding owns_def by fastforce
  with True assms(3) held_at [of st i s, OF assms(2)] show ?thesis by (auto simp: socket_close_def os_close_open)
next
  case False
  with assms(3) held_at [of st i s, OF assms(2)] show ?thesis by (auto simp: socket_close_def)
qed

lemma held_step:
  assumes "owns x" "op_allowed a x" "socket_step a x = Some x'" "\<And>i. a \<noteq> Release i"
    "set (os_open (snd x)) \<subseteq> held (fst x)"
  shows "set (os_open (snd x')) \<subseteq> held (fst x')"
proof (cases x)
  case (Pair st k)
  note ow = assms(1) [unfolded Pair] and al = assms(2) [unfolded Pair] and op = assms(5) [unfolded Pair, simplified]
  show ?thesis
  proof (cases a)
    case (Move_assign i j)
    then obtain this other where s: "st i = Some this" "st j = Some other" using al by auto
    show ?thesis
    proof (cases "i = j")
      case False
      have "held_besides i st = held_besides i (st(j := None)) \<union> {fd. 0 \<le> fd \<and> fd = mFd other}"
        using held_besides_upd [of j i st other] False s(2) by (simp add: fun_upd_idem held_besides_def fun_upd_twist)
      with open_after_close [OF ow s(1) op] assms(3) False s show ?thesis
        by (auto simp: Pair Move_assign socket_assign_def case_prod_beta held_upd held_besides_upd)
    qed (use assms(3) op s in \<open>auto simp: Pair Move_assign\<close>)
  next
    case (Move_construct i j)
    then obtain other where s: "st j = Some other" "st i = None" using al by auto
    then have "i \<noteq> j" by auto
    have "held_besides i (st(j \<mapsto> TcpSocket_default)) = held_besides j st"
      using s(2) by (auto simp: held_besides_def held_def TcpSocket_default_def split: if_splits)
    with assms(3) op held_at [of st j other] s Move_construct show ?thesis
      by (auto simp: Pair socket_move_def held_upd TcpSocket_default_def)
  next
    case (Default_construct i)
    with assms(3) op al show ?thesis by (auto simp: Pair held_upd held_fresh)
  next
    case (Construct i fd)
    with assms(3) op al show ?thesis by (auto simp: Pair held_upd held_fresh os_new_fd_def TcpSocket_fd_def)
  next
    case (Close i)
    then obtain s where s: "st i = Some s" using al by auto
    with open_after_close [OF ow s op] assms(3) Close show ?thesis by (auto simp: Pair case_prod_beta held_upd)
  next
    case (Destroy i)
    then obtain s where s: "st i = Some s" using al by auto
    with open_after_close [OF ow s op] assms(3) Destroy show ?thesis by (auto simp: Pair held_besides_def)
  qed (use assms(4) in blast)
qed

lemma held_run:
  assumes "owns x" "run_allowed as x" "socket_run as x = Some x'" "\<not> releases as" "set (os_open (snd x)) \<subseteq> held (fst x)"
  shows "set (os_open (snd x')) \<subseteq> held (fst x')"
  using assms
proof (induction as arbitrary: x)
  case (Cons a as)
  obtain x1 where x1: "socket_step a x = Some x1" "owns x1"
    using owns_step [OF Cons.prems(1), of a] Cons.prems(2) by auto
  have "set (os_open (snd x1)) \<subseteq> held (fst x1)"
    using held_step [OF Cons.prems(1) _ x1(1)] Cons.prems(2,4,5) by (auto simp: releases_def)
  with Cons.IH [OF x1(2)] Cons.prems x1 show ?case by (auto simp: releases_def)
qed simp

section \<open>TcpServer\<close>

datatype net_error = Socket_failed | Bind_failed | Listen_failed | Invalid_address | Connect_failed

record TcpServer =
  listenSocket :: TcpSocket
  port :: u16
  running :: bool

definition TcpServer_new :: "u16 \<Rightarrow> TcpServer" where
  "TcpServer_new p = \<lparr>listenSocket = TcpSocket_default, port = p, running = False\<rparr>"

text \<open>\<open>fd\<close>, \<open>bind_ok\<close> and \<open>listen_ok\<close> are the results of the three system calls; \<open>Inl\<close> is the
  exception, with the state the destructor will find.\<close>

definition server_setup ::
  "int \<Rightarrow> bool \<Rightarrow> bool \<Rightarrow> TcpServer \<Rightarrow> os \<Rightarrow> (net_error \<times> TcpServer \<times> os) + (TcpServer \<times> os)" where
  "server_setup fd bind_ok listen_ok srv k =
     (if fd < 0 then Inl (Socket_failed, srv, k)
      else
        case socket_assign (listenSocket srv) (TcpSocket_fd fd) (os_new_fd fd k) of
          (ls, temporary, k1) \<Rightarrow>
            let k2 = socket_setReuseAddr ls (snd (socket_close temporary k1));
                srv' = srv\<lparr>listenSocket := ls\<rparr>
            in if \<not> bind_ok then Inl (Bind_failed, srv', k2)
               else if \<not> listen_ok then Inl (Listen_failed, srv', k2)
               else Inr (srv', k2))"

definition server_stop :: "TcpServer \<Rightarrow> os \<Rightarrow> TcpServer \<times> os" where
  "server_stop srv k =
     (case socket_close (listenSocket srv) k of (ls, k') \<Rightarrow> (srv\<lparr>running := False, listenSocket := ls\<rparr>, k'))"

text \<open>The destructor: its body stops the server, then the member \<^verbatim>\<open>listenSocket\<close> is destroyed.\<close>

definition TcpServer_destroy :: "TcpServer \<Rightarrow> os \<Rightarrow> os" where
  "TcpServer_destroy srv k = (case server_stop srv k of (srv', k') \<Rightarrow> snd (socket_close (listenSocket srv') k'))"

text \<open>The accept loop: each result of \<^verbatim>\<open>accept\<close> comes with the value \<^verbatim>\<open>running\<close> has by then. The
  descriptors are handed to one handler thread each.\<close>

fun accept_loop :: "(int \<times> bool) list \<Rightarrow> bool \<Rightarrow> int list" where
  "accept_loop [] go = []"
| "accept_loop ((clientFd, still) # results) go =
     (if \<not> go then []
      else if clientFd < 0 then (if \<not> still then [] else accept_loop results still)
      else clientFd # accept_loop results still)"

text \<open>\<open>start\<close>: set up, then accept; the second part of the result is the descriptors given to handlers.\<close>

definition server_start ::
  "int \<Rightarrow> bool \<Rightarrow> bool \<Rightarrow> (int \<times> bool) list \<Rightarrow> TcpServer \<Rightarrow> os \<Rightarrow> (net_error \<times> TcpServer \<times> os) + (TcpServer \<times> os \<times> int list)" where
  "server_start fd bind_ok listen_ok results srv k =
     (case server_setup fd bind_ok listen_ok srv k of
        Inl e \<Rightarrow> Inl e
      | Inr (srv', k') \<Rightarrow> Inr (srv'\<lparr>running := True\<rparr>, k', accept_loop results True))"

section \<open>TcpClient\<close>

definition client_connect ::
  "int \<Rightarrow> bool \<Rightarrow> bool \<Rightarrow> os \<Rightarrow> (net_error \<times> os) + (TcpSocket \<times> os)" where
  "client_connect fd address_ok connect_ok k =
     (if fd < 0 then Inl (Socket_failed, k)
      else
        let k1 = os_new_fd fd k
        in if \<not> address_ok then Inl (Invalid_address, os_close fd k1)
           else if \<not> connect_ok then Inl (Connect_failed, os_close fd k1)
           else Inr (TcpSocket_fd fd, k1))"

section \<open>Theorems\<close>

text \<open>
  C31. Descriptors are owned: whatever a program does with socket objects (constructing, moving,
  assigning also to itself, closing, releasing, destroying), it never calls \<^verbatim>\<open>close\<close> on a
  descriptor that is not open; every descriptor it was given has been closed exactly as often as it
  was handed out, not counting the time it is still open; and unless it releases a descriptor,
  everything still open is held by a live object, so destroying the objects closes everything.
\<close>

theorem sockets_close_once:
  assumes "run_allowed ops (Map.empty, os_init)"
  shows "\<exists>st k. socket_run ops (Map.empty, os_init) = Some (st, k) \<and> os_bad_close k = []
    \<and> count_list (constructed ops) fd = count_list (os_closed k) fd + of_bool (fd \<in> set (os_open k))
    \<and> (\<not> releases ops \<longrightarrow> set (os_open k) \<subseteq> held st)"
proof -
  obtain st k where r: "socket_run ops (Map.empty, os_init) = Some (st, k)" "owns (st, k)"
    using owns_run [OF owns_init assms] by force
  from lives_run [OF owns_init assms r(1), of fd] have "lives k fd = count_list (constructed ops) fd"
    by (simp add: lives_def os_init_def)
  moreover have "\<not> releases ops \<Longrightarrow> set (os_open k) \<subseteq> held st"
    using held_run [OF owns_init assms r(1)] by (simp add: os_init_def)
  moreover have "os_bad_close k = []" using r(2) by (simp add: owns_def)
  ultimately show ?thesis using r(1) by (simp add: lives_def)
qed

definition sample_ops :: "socket_op list" where
  "sample_ops = [Construct 0 4, Default_construct 1, Move_assign 1 0, Destroy 0, Destroy 1]"

theorem sockets_close_once_witness:
  "\<exists>st k. socket_run sample_ops (Map.empty, os_init) = Some (st, k) \<and> os_bad_close k = []
    \<and> count_list (constructed sample_ops) 4 = count_list (os_closed k) 4 + of_bool (4 \<in> set (os_open k))
    \<and> (\<not> releases sample_ops \<longrightarrow> set (os_open k) \<subseteq> held st)"
proof -
  have "run_allowed sample_ops (Map.empty, os_init)"
    by (simp add: sample_ops_def os_init_def TcpSocket_fd_def TcpSocket_default_def os_new_fd_def socket_assign_def socket_close_def)
  then show ?thesis by (rule sockets_close_once)
qed

lemma connect_no_leak:
  assumes "fd \<notin> set (os_open k)" "0 \<le> fd"
  shows "case client_connect fd address_ok connect_ok k of
      Inl (e, k') \<Rightarrow> set (os_open k') = set (os_open k) \<and> os_bad_close k' = os_bad_close k
    | Inr (s, k') \<Rightarrow> mFd s = fd \<and> set (os_open k') = insert fd (set (os_open k))"
  using assms by (auto simp: client_connect_def os_new_fd_def os_close_def TcpSocket_fd_def Let_def)

lemma setup_owned:
  assumes "fd \<notin> set (os_open k)" "0 \<le> fd" "mFd (listenSocket srv) = - 1"
  shows "case server_setup fd bind_ok listen_ok srv k of
      Inl (e, srv', k') \<Rightarrow> mFd (listenSocket srv') = fd \<and> set (os_open (snd (server_stop srv' k'))) = set (os_open k)
    | Inr (srv', k') \<Rightarrow> mFd (listenSocket srv') = fd \<and> set (os_open k') = insert fd (set (os_open k))"
  using assms
  by (auto simp: server_setup_def server_stop_def socket_assign_def socket_close_def TcpSocket_fd_def os_new_fd_def os_close_def
      socket_setReuseAddr_def Let_def)

text \<open>The destructor closes the listening descriptor once, whether or not the server was stopped before.\<close>

lemma TcpServer_destroy_once:
  assumes "0 \<le> mFd (listenSocket srv)" "mFd (listenSocket srv) \<in> set (os_open k)"
  shows "TcpServer_destroy srv k = os_close (mFd (listenSocket srv)) k"
    "(case server_stop srv k of (srv', k') \<Rightarrow> TcpServer_destroy srv' k') = TcpServer_destroy srv k"
    "os_bad_close (TcpServer_destroy srv k) = os_bad_close k"
  using assms by (simp_all add: TcpServer_destroy_def server_stop_def socket_close_def os_close_def)

text \<open>A failed \<^verbatim>\<open>accept\<close> does not end the loop while the server runs, and nothing is accepted twice.\<close>

lemma accept_loop_running:
  "\<forall>r \<in> set results. snd r \<Longrightarrow> accept_loop results True = filter (\<lambda>fd. 0 \<le> fd) (map fst results)"
  by (induction results) auto

end
