(* ===== verification/Epoll_Mgr.thy ===== *)
theory Epoll_Mgr
  imports Epoll_Thread Tcp_Socket
begin

unbundle bit_operations_syntax

text \<open>
  \<^verbatim>\<open>net/include/epoll_mgr.hpp\<close>, \<^verbatim>\<open>net/src/epoll_mgr.cpp\<close>: the object that owns the epoll descriptor
  and runs the event loop, for any callbacks. What \<^verbatim>\<open>epoll_wait\<close> reports and whether \<^verbatim>\<open>stop\<close> has been
  called by the next test of the loop condition are inputs. \<open>None\<close> is a callback that does not
  return. The event loop of the server in \<open>Epoll_Thread\<close> is the instance for its two callbacks.
\<close>

section \<open>Object\<close>

record EpollMgr =
  epollFd :: int
  running :: bool

datatype epoll_error = Epoll_create1_failed

definition MAX_EVENTS :: nat where
  "MAX_EVENTS = 64"

text \<open>\<open>fd\<close> is the result of \<^verbatim>\<open>epoll_create1\<close>.\<close>

definition EpollMgr_new :: "int \<Rightarrow> os \<Rightarrow> epoll_error + EpollMgr \<times> os" where
  "EpollMgr_new fd k = (if fd < 0 then Inl Epoll_create1_failed else Inr (\<lparr>epollFd = fd, running = False\<rparr>, os_new_fd fd k))"

definition EpollMgr_destroy :: "EpollMgr \<Rightarrow> os \<Rightarrow> os" where
  "EpollMgr_destroy m k = (if 0 \<le> epollFd m then os_close (epollFd m) k else k)"

definition epoll_stop :: "EpollMgr \<Rightarrow> EpollMgr" where
  "epoll_stop m = m\<lparr>running := False\<rparr>"

section \<open>Event loop\<close>

type_synonym 's callback = "int \<Rightarrow> 's \<Rightarrow> 's option"

text \<open>An empty \<^verbatim>\<open>std::function\<close> is \<open>None\<close>.\<close>

definition call :: "'s callback option \<Rightarrow> 's callback" where
  "call cb fd s = (case cb of None \<Rightarrow> Some s | Some f \<Rightarrow> f fd s)"

fun dispatchEvent :: "'s callback option \<Rightarrow> 's callback option \<Rightarrow> int \<times> u32 \<Rightarrow> 's \<Rightarrow> 's option" where
  "dispatchEvent data disconnect (fd, ev) s =
     (if ev AND (EPOLLHUP OR EPOLLERR) \<noteq> 0 then call disconnect fd s
      else if ev AND EPOLLIN \<noteq> 0 then call data fd s
      else Some s)"

fun dispatchBatch :: "'s callback option \<Rightarrow> 's callback option \<Rightarrow> (int \<times> u32) list \<Rightarrow> 's \<Rightarrow> 's option" where
  "dispatchBatch data disconnect [] s = Some s"
| "dispatchBatch data disconnect (ev # evs) s =
     Option.bind (dispatchEvent data disconnect ev s) (dispatchBatch data disconnect evs)"

text \<open>The loop on what the successive calls of \<^verbatim>\<open>epoll_wait\<close> report, each with whether \<^verbatim>\<open>stop\<close> is called
  before the loop condition is tested again. The flag of the result says that \<^verbatim>\<open>run\<close> has returned;
  otherwise it waits. A failed \<^verbatim>\<open>epoll_wait\<close> reports no events.\<close>

fun runLoop ::
  "'s callback option \<Rightarrow> 's callback option \<Rightarrow> (bool \<times> (int \<times> u32) list) list \<Rightarrow> EpollMgr \<Rightarrow> 's \<Rightarrow> (EpollMgr \<times> 's \<times> bool) option" where
  "runLoop data disconnect [] m s = Some (m, s, \<not> running m)"
| "runLoop data disconnect ((stopped, evs) # waits) m s =
     (if running m
      then Option.bind (dispatchBatch data disconnect (take MAX_EVENTS evs) s)
             (\<lambda>s'. runLoop data disconnect waits (if stopped then epoll_stop m else m) s')
      else Some (m, s, True))"

definition epoll_run ::
  "'s callback option \<Rightarrow> 's callback option \<Rightarrow> (bool \<times> (int \<times> u32) list) list \<Rightarrow> EpollMgr \<Rightarrow> 's \<Rightarrow> (EpollMgr \<times> 's \<times> bool) option" where
  "epoll_run data disconnect waits m s = runLoop data disconnect waits (m\<lparr>running := True\<rparr>) s"

section \<open>Lemmas\<close>

text \<open>The descriptor of an epoll object is closed exactly once, by its destructor.\<close>

lemma EpollMgr_owns:
  assumes "EpollMgr_new fd k = Inr (m, k')" "fd \<notin> set (os_open k)"
  shows "os_open (EpollMgr_destroy m k') = os_open k \<and> os_closed (EpollMgr_destroy m k') = os_closed k @ [fd]
    \<and> os_bad_close (EpollMgr_destroy m k') = os_bad_close k"
  using assms by (auto simp: EpollMgr_new_def EpollMgr_destroy_def os_close_def os_new_fd_def split: if_splits)

lemma dispatchBatch_append:
  "dispatchBatch f g (evs @ evs') s = Option.bind (dispatchBatch f g evs s) (dispatchBatch f g evs')"
proof (induction evs arbitrary: s)
  case (Cons ev evs)
  then show ?case by (cases "dispatchEvent f g ev s") simp_all
qed simp

text \<open>Until \<^verbatim>\<open>stop\<close> is called every reported event is dispatched, in order; the batch during which it is
  called is still dispatched, and nothing after it.\<close>

lemma epoll_run_stops:
  assumes "\<forall>b\<in>set bs. length b \<le> MAX_EVENTS" "length evs \<le> MAX_EVENTS"
  shows "epoll_run f g (map (Pair False) bs @ (True, evs) # waits) m s
    = map_option (\<lambda>s'. (epoll_stop m, s', True)) (dispatchBatch f g (concat bs @ evs) s)"
proof -
  have "runLoop f g (map (Pair False) bs @ (True, evs) # waits) m s
      = map_option (\<lambda>s'. (epoll_stop m, s', True)) (dispatchBatch f g (concat bs @ evs) s)" if "running m" for m
    using assms(1)
  proof (induction bs arbitrary: s)
    case Nil
    have "runLoop f g waits (epoll_stop m) s' = Some (epoll_stop m, s', True)" for s'
      by (cases waits) (auto simp: epoll_stop_def)
    with that assms(2) show ?case by (cases "dispatchBatch f g evs s") auto
  next
    case (Cons b bs)
    with that show ?case by (cases "dispatchBatch f g b s") (auto simp: dispatchBatch_append)
  qed
  then show ?thesis by (simp add: epoll_run_def epoll_stop_def)
qed

text \<open>A call of \<^verbatim>\<open>stop\<close> that comes before \<^verbatim>\<open>run\<close> is lost: \<^verbatim>\<open>run\<close> sets the flag again.\<close>

lemma stop_before_run_lost: "epoll_run f g waits (epoll_stop m) s = epoll_run f g waits m s"
  by (simp add: epoll_run_def epoll_stop_def)

section \<open>The server's callbacks\<close>

definition after_return :: "(int \<Rightarrow> Server \<Rightarrow> outcome option) \<Rightarrow> outcome callback" where
  "after_return f fd r = (case r of Returned v \<Rightarrow> f fd v | Dangling v \<Rightarrow> Some (Dangling v))"

lemma handleEvent_dispatch:
  "handleEvent ev v = dispatchEvent (Some (after_return (\<lambda>fd. onData fd (ev_chunks ev) (ev_how ev))))
     (Some (after_return (\<lambda>fd v. Some (Returned (onDisconnect fd v))))) (ev_fd ev, ev_events ev) (Returned v)"
  by (simp add: handleEvent_def call_def after_return_def)

section \<open>Registration that fails\<close>

text \<open>\<^verbatim>\<open>add\<close> only prints a failure of \<^verbatim>\<open>epoll_ctl\<close>, and the login handler goes on to release the descriptor.
  Then the trader is told it is logged in and is registered, but the event loop will never read from it
  and nothing closes the descriptor.\<close>

lemma failed_registration_strands:
  assumes "onAccept False fd (Some bs) v = (v', acts)" "acts \<noteq> []" "fd \<notin> set (srv_epoll v)"
  shows "session_at fd (srv_sessions v') \<noteq> None \<and> fd \<notin> set (srv_epoll v') \<and> srv_closed v' = srv_closed v"
  using assms by (auto simp: onAccept_def epoll_add_def Let_def split: if_splits)

end
