(* ===== verification/Login_Handler.thy ===== *)
theory Login_Handler
  imports Epoll_Mgr
begin

text \<open>
  \<^verbatim>\<open>src/thread_accept.cpp\<close>: the handler of a new connection, step by step. \<^verbatim>\<open>TcpServer::start\<close> runs it
  on a detached thread of its own, so several handlers interleave with each other and with the other
  threads. Each step makes one system call or takes one lock. Run without interruption the steps are
  \<open>onAccept\<close>.
\<close>

section \<open>The handler\<close>

text \<open>Before \<^verbatim>\<open>recvRaw\<close>, before the login response, before \<^verbatim>\<open>sessions.add\<close>, before \<^verbatim>\<open>setNonBlocking\<close>, before
  \<^verbatim>\<open>epoll.add\<close>, before \<^verbatim>\<open>release\<close>.\<close>

datatype login_pc = L_recv | L_response TraderId | L_register TraderId | L_nonblock | L_epoll | L_release

text \<open>\<open>received\<close> is the result of \<^verbatim>\<open>recvRaw\<close>, \<open>ctl_ok\<close> that of \<^verbatim>\<open>epoll_ctl\<close>. \<open>None\<close> is the end of the thread;
  the socket object closes its descriptor unless it was released.\<close>

fun loginMicro :: "u8 list option \<Rightarrow> bool \<Rightarrow> int \<Rightarrow> login_pc \<Rightarrow> Server \<Rightarrow> login_pc option \<times> Server \<times> action list" where
  "loginMicro received ctl_ok fd L_recv v =
     (case received of
        None \<Rightarrow> (None, close_fd fd v, [])
      | Some bs \<Rightarrow>
          if length bs \<noteq> sizeof_LoginRequestMsg then (None, close_fd fd v, [])
          else
            let login = decode_LoginRequestMsg bs
            in if header_type (lr_header login) \<noteq> LoginRequest then (None, close_fd fd v, [])
               else (Some (L_response (lr_traderId login)), v, []))"
| "loginMicro received ctl_ok fd (L_response t) v = (Some (L_register t), v, [Send fd (encode_LoginResponseMsg loginResponse)])"
| "loginMicro received ctl_ok fd (L_register t) v = (Some L_nonblock, v\<lparr>srv_sessions := sessions_add fd t (srv_sessions v)\<rparr>, [])"
| "loginMicro received ctl_ok fd L_nonblock v = (Some L_epoll, v, [])"
| "loginMicro received ctl_ok fd L_epoll v = (Some L_release, epoll_add ctl_ok fd v, [])"
| "loginMicro received ctl_ok fd L_release v = (None, v, [])"

text \<open>The handler threads, each with its descriptor, after one of them has taken a step.\<close>

definition handler_after :: "int \<Rightarrow> login_pc option \<Rightarrow> (int \<times> login_pc) list" where
  "handler_after fd r = (case r of None \<Rightarrow> [] | Some pc \<Rightarrow> [(fd, pc)])"

text \<open>Up to \<open>n\<close> steps of one handler with nothing in between.\<close>

fun loginRun :: "nat \<Rightarrow> u8 list option \<Rightarrow> bool \<Rightarrow> int \<Rightarrow> login_pc \<Rightarrow> Server \<Rightarrow> Server \<times> action list" where
  "loginRun 0 received ctl_ok fd pc v = (v, [])"
| "loginRun (Suc n) received ctl_ok fd pc v =
     (case loginMicro received ctl_ok fd pc v of
        (None, v', acts) \<Rightarrow> (v', acts)
      | (Some pc', v', acts) \<Rightarrow> (case loginRun n received ctl_ok fd pc' v' of (v'', acts') \<Rightarrow> (v'', acts @ acts')))"

lemma loginRun_onAccept: "loginRun 6 received ctl_ok fd L_recv v = onAccept ctl_ok fd received v"
  by (simp add: eval_nat_numeral onAccept_def Let_def split: option.split)

section \<open>Tables\<close>

text \<open>The handler owns a descriptor nobody else knows; it has registered the session but not yet the
  descriptor with epoll; it has not yet given up the descriptor.\<close>

fun fresh_pc :: "login_pc \<Rightarrow> bool" where
  "fresh_pc L_recv \<longleftrightarrow> True" | "fresh_pc (L_response t) \<longleftrightarrow> True" | "fresh_pc (L_register t) \<longleftrightarrow> True" | "fresh_pc pc \<longleftrightarrow> False"

definition waiting :: "(int \<times> login_pc) list \<Rightarrow> int set" where
  "waiting hs = {fd. \<exists>pc. (fd, pc) \<in> set hs \<and> fresh_pc pc}"

definition registering :: "(int \<times> login_pc) list \<Rightarrow> int set" where
  "registering hs = {fd. (fd, L_nonblock) \<in> set hs \<or> (fd, L_epoll) \<in> set hs}"

definition owned :: "(int \<times> login_pc) list \<Rightarrow> int list" where
  "owned hs = map fst (filter (\<lambda>h. snd h \<noteq> L_release) hs)"

text \<open>Between the steps of the handlers \<open>hs\<close>, with \<open>us\<close> the descriptors whose registration with epoll
  failed: a session is registered exactly if its descriptor is watched by the event loop, about to be, or
  in \<open>us\<close>; no two handlers own the same descriptor; a descriptor still waiting for its login is not
  registered.\<close>

definition tables_ok :: "(int \<times> login_pc) list \<Rightarrow> int list \<Rightarrow> Server \<Rightarrow> bool" where
  "tables_ok hs us v \<longleftrightarrow> sessions_ok (srv_sessions v)
     \<and> set (getAllFds (srv_sessions v)) = set (srv_epoll v) \<union> registering hs \<union> set us
     \<and> set (srv_epoll v) \<inter> (registering hs \<union> set us) = {} \<and> registering hs \<inter> set us = {}
     \<and> distinct (owned hs) \<and> waiting hs \<inter> set (getAllFds (srv_sessions v)) = {} \<and> (\<forall>fd\<in>waiting hs. 0 \<le> fd)"

lemma owned_simps [simp]:
  "owned [] = []" "owned (h # hs) = (if snd h = L_release then owned hs else fst h # owned hs)" "owned (hs @ hs') = owned hs @ owned hs'"
  by (auto simp: owned_def)

lemma waiting_simps [simp]:
  "waiting [] = {}" "waiting ((fd, pc) # hs) = (if fresh_pc pc then insert fd (waiting hs) else waiting hs)"
  "waiting (hs @ hs') = waiting hs \<union> waiting hs'"
  by (auto simp: waiting_def)

lemma registering_simps [simp]:
  "registering [] = {}" "registering ((fd, pc) # hs) = (if pc = L_nonblock \<or> pc = L_epoll then insert fd (registering hs) else registering hs)"
  "registering (hs @ hs') = registering hs \<union> registering hs'"
  by (auto simp: registering_def)

lemma owned_parts: "set (owned hs) = waiting hs \<union> registering hs"
proof (induction hs)
  case (Cons h hs)
  obtain fd pc where "h = (fd, pc)" by (cases h)
  with Cons show ?case by (cases pc) auto
qed simp

lemma tables_ok_connect:
  assumes "tables_ok hs us v" "0 \<le> fd" "session_at fd (srv_sessions v) = None" "fd \<notin> set (owned hs)"
  shows "tables_ok (hs @ [(fd, L_recv)]) us v"
proof -
  have "fd \<notin> set (getAllFds (srv_sessions v))" using assms(3) by (simp add: getAllFds_iff)
  with assms(1,2,4) show ?thesis by (auto simp: tables_ok_def)
qed

lemma tables_ok_closed:
  assumes "tables_ok (as @ (fd, pc) # bs) us v" "fresh_pc pc"
  shows "tables_ok (as @ bs) us (close_fd fd v)"
  using assms by (cases pc) (auto simp: tables_ok_def close_fd_def)

lemma tables_ok_login:
  assumes "tables_ok (as @ (fd, pc) # bs) us v" "loginMicro received ctl_ok fd pc v = (r, v', acts)"
  shows "tables_ok (as @ handler_after fd r @ bs) (if pc = L_epoll \<and> \<not> ctl_ok then fd # us else us) v'"
proof (cases pc)
  case L_recv
  with assms tables_ok_closed [OF assms(1)] show ?thesis
    by (auto simp: handler_after_def Let_def tables_ok_def split: option.splits if_splits)
next
  case (L_register t)
  have "fd \<notin> set (owned (as @ bs))" using assms(1) L_register by (auto simp: tables_ok_def)
  then have "fd \<notin> waiting (as @ bs)" by (simp add: owned_parts)
  moreover have "fd \<notin> registering (as @ bs)" using \<open>fd \<notin> set (owned (as @ bs))\<close> by (simp add: owned_parts)
  moreover have fd: "0 \<le> fd" "fd \<notin> set (getAllFds (srv_sessions v))"
    using assms(1) L_register by (auto simp: tables_ok_def)
  moreover have "session_at fd (srv_sessions v) = None" using fd(2) by (simp add: getAllFds_iff)
  ultimately show ?thesis using assms L_register
    by (auto simp: tables_ok_def handler_after_def sm.reg_fds sessions_ok_add)
next
  case L_epoll
  have "fd \<notin> set (owned (as @ bs))" using assms(1) L_epoll by (auto simp: tables_ok_def)
  then have "fd \<notin> registering as" "fd \<notin> registering bs" by (simp_all add: owned_parts)
  with assms L_epoll show ?thesis by (auto simp: tables_ok_def handler_after_def epoll_add_def split: if_splits)
qed (use assms in \<open>auto simp: tables_ok_def handler_after_def\<close>)

lemma tables_ok_remove:
  assumes "tables_ok hs us v" "fd \<in> set (srv_epoll v)"
    and "srv_sessions v' = sessions_remove fd (srv_sessions v)" "srv_epoll v' = removeAll fd (srv_epoll v)"
  shows "tables_ok hs us v'"
  using assms by (auto simp: tables_ok_def sessions_ok_remove sm.unreg_fds)

lemma tables_ok_buffer: "tables_ok hs us v \<Longrightarrow> tables_ok hs us (v\<lparr>srv_sessions := with_buffer fd bs (srv_sessions v)\<rparr>)"
  by (auto simp: tables_ok_def sessions_ok_with_buffer getAllFds_with_buffer)

lemma tables_ok_queue [simp]:
  "tables_ok hs us (v\<lparr>srv_queue := q\<rparr>) = tables_ok hs us v"
  "tables_ok hs us (v\<lparr>srv_queue := q, srv_sessions := s\<rparr>) = tables_ok hs us (v\<lparr>srv_sessions := s\<rparr>)"
  by (simp_all add: tables_ok_def)

lemma tables_ok_new: "tables_ok [] [] (v\<lparr>srv_sessions := SessionManager_new, srv_epoll := []\<rparr>)"
  using sessions_ok_new by (simp add: tables_ok_def SessionManager_new_def getAllFds_def)

text \<open>A descriptor the event loop watches is registered and no handler has it.\<close>

lemma watched_alone:
  assumes "tables_ok hs us v" "fd \<in> set (srv_epoll v)"
  shows "session_at fd (srv_sessions v) \<noteq> None" "fd \<notin> set (owned hs)"
proof -
  have "fd \<in> set (getAllFds (srv_sessions v))" using assms by (simp add: tables_ok_def)
  then show "session_at fd (srv_sessions v) \<noteq> None" by (simp add: getAllFds_iff)
  show "fd \<notin> set (owned hs)" using assms by (auto simp: tables_ok_def owned_parts)
qed

end
