(* ===== verification/Exchange_Process.thy ===== *)
theory Exchange_Process
  imports Composition Terminal Login_Handler
begin

text \<open>
  \<^verbatim>\<open>src/main.cpp\<close>: the server process. Its threads (accept handlers, event loop, matching, terminal)
  and the signal handler interleave in the step relation \<open>exchange_step\<close>. A step is one action of a
  login handler, one event of the event loop, one iteration of the framing loop, one iteration of
  the matching loop or of the terminal loop. Session registry and market table are protected by
  mutexes; that the queue between the event loop and the matching thread may be treated as one
  atomic operation per call is the content of \<open>Spsc_Release_Acquire\<close>; a spurious
  result of a stale load there is here a step that leaves the queue as it is.
  \<open>Exchange_Interleaved\<close> takes the iteration of the matching loop apart.

  What clients send and when the kernel reports it is input to the steps; the kernel gives a new
  connection a descriptor that is not open, and reports events for descriptors registered with epoll.
\<close>

section \<open>Framing, one iteration at a time\<close>

text \<open>One iteration of the framing loop on the object that \<open>session\<close> points to; the flag says that the
  loop is left. \<^verbatim>\<open>push\<close> spins on a full queue: then nothing changes and the iteration is tried again.
  \<open>None\<close> is an access to a destroyed object or outside the ring buffer.\<close>

definition frameIteration :: "SessionPtr \<Rightarrow> Server \<Rightarrow> (Server \<times> bool) option" where
  "frameIteration session v = do {
     c \<leftarrow> deref session (srv_sessions v);
     let buf = recvBuffer c;
     let n = header_length (decode_MsgHeader buf);
     if length buf < sizeof_MsgHeader \<or> length buf < unat n then Some (v, True)
     else if MAX_RAW_MSG_SIZE < unat n then do {
       s \<leftarrow> setRecvBuffer session (drop (unat n) buf) (srv_sessions v);
       Some (v\<lparr>srv_sessions := s\<rparr>, False)
     }
     else do {
       (pushed, q) \<leftarrow> try_push RAW_CAPACITY (makeRaw (cs_traderId c) n buf) (srv_queue v);
       if pushed then do {
         s \<leftarrow> setRecvBuffer session (drop (unat n) buf) (srv_sessions v);
         Some (v\<lparr>srv_queue := q, srv_sessions := s\<rparr>, False)
       }
       else Some (v\<lparr>srv_queue := q\<rparr>, False)
     }
   }"

section \<open>The process\<close>

text \<open>Where the event loop is: between events, or at the condition of the framing loop of a data callback,
  with the callback's pointer and how its last \<^verbatim>\<open>recv\<close> ended.\<close>

datatype loop_pc = Waiting | Framing SessionPtr recv_end

record Exchange =
  x_server :: Server
  x_pc :: loop_pc
  x_logins :: "(int \<times> login_pc) list"   \<comment> \<open>the handler threads, each with its descriptor\<close>
  x_unwatched :: "int list"   \<comment> \<open>history: the descriptors for which \<^verbatim>\<open>epoll_ctl\<close> failed\<close>
  x_thread :: MatchingThread
  x_gRunning :: bool        \<comment> \<open>\<^verbatim>\<open>gRunning\<close> of \<^verbatim>\<open>main.cpp\<close>\<close>
  x_loopRunning :: bool     \<comment> \<open>\<^verbatim>\<open>EpollMgr::running\<close>\<close>
  x_matching :: bool        \<comment> \<open>the matching thread is in its loop\<close>
  x_gui :: bool             \<comment> \<open>the terminal thread is in its loop\<close>
  x_left :: bool            \<comment> \<open>\<^verbatim>\<open>runEpollThread\<close> has returned to \<^verbatim>\<open>main\<close>\<close>
  x_screen :: string
  x_sent :: "action list"

definition Server_new :: Server where
  "Server_new =
     \<lparr>srv_sessions = SessionManager_new, srv_epoll = [], srv_queue = SPSCQueue_new RAW_CAPACITY RawMessage_init, srv_closed = []\<rparr>"

text \<open>After the threads have been started and \<^verbatim>\<open>EpollMgr::run\<close> has set its flag.\<close>

definition Exchange_init :: Exchange where
  "Exchange_init =
     \<lparr>x_server = Server_new, x_pc = Waiting, x_logins = [], x_unwatched = [], x_thread = MatchingThread_init, x_gRunning = True, x_loopRunning = True,
      x_matching = True, x_gui = True, x_left = False, x_screen = [], x_sent = []\<rparr>"

unbundle bit_operations_syntax

text \<open>An event up to the framing loop. \<open>None\<close> is an access to a destroyed object.\<close>

definition loopEvent :: "epoll_event \<Rightarrow> Exchange \<Rightarrow> Exchange option" where
  "loopEvent ev x =
     (let fd = ev_fd ev; v = x_server x
      in if ev_events ev AND (EPOLLHUP OR EPOLLERR) \<noteq> 0 then Some (x\<lparr>x_server := onDisconnect fd v\<rparr>)
         else if ev_events ev AND EPOLLIN \<noteq> 0 then
           (case getSession fd (srv_sessions v) of
              None \<Rightarrow> Some x
            | Some session \<Rightarrow> do {
                s \<leftarrow> appendChunks session (ev_chunks ev) (srv_sessions v);
                let v1 = v\<lparr>srv_sessions := s\<rparr>;
                Some (x\<lparr>x_server := if ev_how ev = Would_block then v1 else endConnection fd v1, x_pc := Framing session (ev_how ev)\<rparr>)
              })
         else Some x)"

text \<open>The steps of all threads but the matching thread, and of the signal handler. The language gives an access
  to a destroyed object no meaning: the event loop has no step there, while the other threads go on.\<close>

inductive other_step :: "Exchange \<Rightarrow> Exchange \<Rightarrow> bool" where
  connect: "0 \<le> fd \<Longrightarrow> session_at fd (srv_sessions (x_server x)) = None \<Longrightarrow> fd \<notin> set (owned (x_logins x)) \<Longrightarrow>
    other_step x (x\<lparr>x_logins := x_logins x @ [(fd, L_recv)]\<rparr>)"
| login: "x_logins x = as @ (fd, pc) # bs \<Longrightarrow> loginMicro received ctl_ok fd pc (x_server x) = (r, v, acts) \<Longrightarrow>
    other_step x (x\<lparr>x_server := v, x_sent := x_sent x @ acts, x_logins := as @ handler_after fd r @ bs,
      x_unwatched := if pc = L_epoll \<and> \<not> ctl_ok then fd # x_unwatched x else x_unwatched x\<rparr>)"
| loop_event: "x_loopRunning x \<Longrightarrow> x_pc x = Waiting \<Longrightarrow> ev_fd ev \<in> set (srv_epoll (x_server x)) \<Longrightarrow>
    loopEvent ev x = Some x' \<Longrightarrow> other_step x x'"
| loop_frame: "x_pc x = Framing p how \<Longrightarrow> frameIteration p (x_server x) = Some (v, fin) \<Longrightarrow>
    other_step x (x\<lparr>x_server := v, x_pc := if fin then Waiting else Framing p how\<rparr>)"
| loop_leave: "\<not> x_loopRunning x \<Longrightarrow> x_pc x = Waiting \<Longrightarrow> other_step x (x\<lparr>x_left := True, x_gRunning := False\<rparr>)"
| gui: "x_gui x \<Longrightarrow> x_gRunning x \<Longrightarrow> other_step x (x\<lparr>x_screen := gui_frame (market (x_thread x))\<rparr>)"
| gui_leave: "x_gui x \<Longrightarrow> \<not> x_gRunning x \<Longrightarrow> other_step x (x\<lparr>x_gui := False\<rparr>)"
| signal: "other_step x (x\<lparr>x_gRunning := False\<rparr>)"

inductive exchange_step :: "Exchange \<Rightarrow> Exchange \<Rightarrow> bool" where
  other: "other_step x x' \<Longrightarrow> exchange_step x x'"
| match: "x_matching x \<Longrightarrow> x_gRunning x \<Longrightarrow>
    matchingIteration now (srv_sessions (x_server x)) (srv_queue (x_server x)) (x_thread x) = Some (q, th, acts) \<Longrightarrow>
    exchange_step x (x\<lparr>x_server := (x_server x)\<lparr>srv_queue := q\<rparr>, x_thread := th, x_sent := x_sent x @ acts\<rparr>)"
| match_leave: "x_matching x \<Longrightarrow> \<not> x_gRunning x \<Longrightarrow> exchange_step x (x\<lparr>x_matching := False\<rparr>)"

inductive_cases exchange_stepE: "exchange_step x x'"

text \<open>The process can be in state \<open>x\<close> after \<open>n\<close> steps.\<close>

abbreviation exchange_reach :: "nat \<Rightarrow> Exchange \<Rightarrow> bool" where
  "exchange_reach \<equiv> reach_in exchange_step Exchange_init"

section \<open>Invariant\<close>

definition good_message :: "u8 list \<Rightarrow> bool" where
  "good_message bs \<longleftrightarrow> bs = encode_LoginResponseMsg loginResponse \<or> well_formed_reply bs"

text \<open>The pointer of a callback is valid unless the callback has ended the connection itself; then it dangles.\<close>

definition pointer_ok :: "recv_end \<Rightarrow> SessionPtr \<Rightarrow> SessionManager \<Rightarrow> bool" where
  "pointer_ok how p s \<longleftrightarrow> (if how = Would_block then deref p s \<noteq> None else dangling p s)"

definition exchange_inv :: "nat \<Rightarrow> Exchange \<Rightarrow> bool" where
  "exchange_inv n x \<longleftrightarrow> tables_ok (x_logins x) (x_unwatched x) (x_server x) \<and> queue_ok RAW_CAPACITY (srv_queue (x_server x))
     \<and> thread_ok (x_thread x) \<and> engine_typed (engine (x_thread x)) \<and> unat (nextOrderId (engine (x_thread x))) \<le> Suc n
     \<and> (\<forall>p how. x_pc x = Framing p how \<longrightarrow> pointer_ok how p (srv_sessions (x_server x)))
     \<and> (\<forall>a\<in>set (x_sent x). good_message (send_bytes a)) \<and> x_loopRunning x \<and> \<not> x_left x"

lemma exchange_inv_init: "exchange_inv 0 Exchange_init"
  using queue_new [OF RAW_CAPACITY_valid(1), of RawMessage_init] tables_ok_new [of Server_new] thread_ok_init engine_typed_init
  by (simp add: exchange_inv_def Exchange_init_def Server_new_def)

lemma pointer_ok_kept:
  assumes "pointer_ok how p s"
  shows "pointer_ok how p (sessions_add fd t s)" "pointer_ok how p (with_buffer fd bs s)"
  using assms dangling_for_ever [of p s] deref_kept [of p s] by (simp_all add: pointer_ok_def split: if_splits)

text \<open>The handlers do not touch what belongs to others.\<close>

lemma loginMicro_keeps:
  assumes "loginMicro received ctl_ok fd pc v = (r, v', acts)"
  shows "srv_queue v' = srv_queue v" "pointer_ok how p (srv_sessions v) \<Longrightarrow> pointer_ok how p (srv_sessions v')"
    "a \<in> set acts \<Longrightarrow> good_message (send_bytes a)"
  using assms by (cases pc; auto simp: close_fd_def epoll_add_def good_message_def pointer_ok_kept Let_def split: option.splits if_splits)+

lemma getSession_ex: "session_at fd s \<noteq> None \<longleftrightarrow> (\<exists>p. getSession fd s = Some p)"
  using getSession_None [of fd s] by (cases "getSession fd s") auto

text \<open>What the read loop of a callback on a registered descriptor leaves.\<close>

lemma loopEvent_data:
  assumes "ev_events ev AND (EPOLLHUP OR EPOLLERR) = 0" "ev_events ev AND EPOLLIN \<noteq> 0" "getSession (ev_fd ev) (srv_sessions (x_server x)) = Some p"
  obtains s where "loopEvent ev x = Some (x\<lparr>x_server := if ev_how ev = Would_block then (x_server x)\<lparr>srv_sessions := s\<rparr>
      else endConnection (ev_fd ev) ((x_server x)\<lparr>srv_sessions := s\<rparr>), x_pc := Framing p (ev_how ev)\<rparr>)"
    "s = srv_sessions (x_server x) \<or> (\<exists>bs. s = with_buffer (ev_fd ev) bs (srv_sessions (x_server x)))"
proof -
  obtain c where c: "session_at (ev_fd ev) (srv_sessions (x_server x)) = Some c" using getSession_Some(4) [OF assms(3)] by blast
  let ?s = "if ev_chunks ev = [] then srv_sessions (x_server x)
      else with_buffer (ev_fd ev) (recvBuffer c @ concat (ev_chunks ev)) (srv_sessions (x_server x))"
  have "appendChunks p (ev_chunks ev) (srv_sessions (x_server x)) = Some ?s" by (rule appendChunks_session [OF assms(3) c])
  with assms show thesis by (intro that [of ?s]) (simp_all add: loopEvent_def Let_def, blast)
qed

lemma endConnection_simps [simp]:
  "srv_sessions (endConnection fd v) = sessions_remove fd (srv_sessions v)" "srv_epoll (endConnection fd v) = removeAll fd (srv_epoll v)"
  "srv_queue (endConnection fd v) = srv_queue v" "srv_closed (endConnection fd v) = srv_closed v @ [fd]"
  by (simp_all add: endConnection_def epoll_remove_def close_fd_def Let_def)

lemma read_pointer_ok:
  assumes "nodes_ok s" "getSession fd s = Some p"
  shows "pointer_ok how p (if how = Would_block then s else sessions_remove fd s)"
  using dangling_remove [OF assms] getSession_Some(1,4) [OF assms(2)] by (auto simp: pointer_ok_def)

lemma loopEvent_inv:
  assumes "exchange_inv n x" "x_pc x = Waiting" "ev_fd ev \<in> set (srv_epoll (x_server x))"
  shows "\<exists>x'. loopEvent ev x = Some x' \<and> exchange_inv n x'"
proof -
  let ?v = "x_server x" and ?fd = "ev_fd ev"
  have t: "tables_ok (x_logins x) (x_unwatched x) ?v" using assms(1) by (simp add: exchange_inv_def)
  consider (hup) "ev_events ev AND (EPOLLHUP OR EPOLLERR) \<noteq> 0"
    | (data) "ev_events ev AND (EPOLLHUP OR EPOLLERR) = 0" "ev_events ev AND EPOLLIN \<noteq> 0"
    | (none) "ev_events ev AND (EPOLLHUP OR EPOLLERR) = 0" "ev_events ev AND EPOLLIN = 0" by blast
  then show ?thesis
  proof cases
    case hup
    have "tables_ok (x_logins x) (x_unwatched x) (onDisconnect ?fd ?v)"
      by (rule tables_ok_remove [OF t assms(3)]) (simp_all add: onDisconnect_def close_fd_def)
    with hup assms(1,2) show ?thesis by (auto simp: loopEvent_def Let_def exchange_inv_def onDisconnect_def close_fd_def)
  next
    case data
    obtain p where p: "getSession ?fd (srv_sessions ?v) = Some p"
      using watched_alone(1) [OF t assms(3)] getSession_ex by blast
    obtain s where s: "loopEvent ev x = Some (x\<lparr>x_server := if ev_how ev = Would_block then ?v\<lparr>srv_sessions := s\<rparr>
        else endConnection ?fd (?v\<lparr>srv_sessions := s\<rparr>), x_pc := Framing p (ev_how ev)\<rparr>)"
      "s = srv_sessions ?v \<or> (\<exists>bs. s = with_buffer ?fd bs (srv_sessions ?v))" by (rule loopEvent_data [OF data p])
    have ts: "tables_ok (x_logins x) (x_unwatched x) (?v\<lparr>srv_sessions := s\<rparr>)" using s(2) t tables_ok_buffer [OF t] by auto
    have "nodes_ok s" using ts by (simp add: tables_ok_def sessions_ok_def)
    moreover have "getSession ?fd s = Some p" using s(2) p by auto
    ultimately have "pointer_ok (ev_how ev) p (if ev_how ev = Would_block then s else sessions_remove ?fd s)" by (rule read_pointer_ok)
    moreover have "tables_ok (x_logins x) (x_unwatched x) (endConnection ?fd (?v\<lparr>srv_sessions := s\<rparr>))"
      by (rule tables_ok_remove [OF ts]) (use assms(3) in simp_all)
    ultimately show ?thesis using ts s(1) assms(1) by (auto simp: exchange_inv_def)
  next
    case none
    with assms(1) show ?thesis by (simp add: loopEvent_def Let_def)
  qed
qed

text \<open>An iteration through the pointer of a registered session works on the registered object.\<close>

lemma frameIteration_session:
  assumes "getSession fd (srv_sessions v) = Some p" "session_at fd (srv_sessions v) = Some c"
  shows "frameIteration p v =
    (let buf = recvBuffer c; n = header_length (decode_MsgHeader buf); s = with_buffer fd (drop (unat n) buf) (srv_sessions v)
     in if length buf < sizeof_MsgHeader \<or> length buf < unat n then Some (v, True)
        else if MAX_RAW_MSG_SIZE < unat n then Some (v\<lparr>srv_sessions := s\<rparr>, False)
        else map_option (\<lambda>(pushed, q). (if pushed then v\<lparr>srv_queue := q, srv_sessions := s\<rparr> else v\<lparr>srv_queue := q\<rparr>, False))
          (try_push RAW_CAPACITY (makeRaw (cs_traderId c) n buf) (srv_queue v)))"
  using getSession_Some [OF assms(1)] assms(2)
  by (auto simp: frameIteration_def Let_def map_conv_bind_option split: prod.split intro!: bind_option_cong)

lemma frameIteration_dangling: "dangling p (srv_sessions v) \<Longrightarrow> frameIteration p v = None"
  by (simp add: dangling_def frameIteration_def)

lemma frameIteration_inv:
  assumes "tables_ok hs us v" "queue_ok RAW_CAPACITY (srv_queue v)" "deref p (srv_sessions v) \<noteq> None"
  shows "\<exists>v' fin. frameIteration p v = Some (v', fin) \<and> tables_ok hs us v' \<and> queue_ok RAW_CAPACITY (srv_queue v')
    \<and> (\<forall>how p'. pointer_ok how p' (srv_sessions v) \<longrightarrow> pointer_ok how p' (srv_sessions v'))"
proof -
  let ?fd = "node_key p"
  have p: "getSession ?fd (srv_sessions v) = Some p" using assms(3) deref_getSession by blast
  then obtain c where c: "session_at ?fd (srv_sessions v) = Some c" using getSession_Some(4) by blast
  let ?buf = "recvBuffer c" and ?n = "header_length (decode_MsgHeader (recvBuffer c))"
  obtain pushed q' where "try_push RAW_CAPACITY (makeRaw (cs_traderId c) ?n ?buf) (srv_queue v) = Some (pushed, q')" "queue_ok RAW_CAPACITY q'"
    by (rule spsc.push_total [OF assms(2)])
  with assms show ?thesis
    using tables_ok_buffer [OF assms(1), of ?fd "drop (unat ?n) ?buf"]
    by (auto simp: frameIteration_session [OF p c] Let_def pointer_ok_kept)
qed

lemma nextOrderId_room: "unat (nextOrderId g) \<le> Suc n \<Longrightarrow> n < 2 ^ 64 - 2 \<Longrightarrow> nextOrderId g \<noteq> - 1" for g :: MatchingEngine
proof
  assume "unat (nextOrderId g) \<le> Suc n" "n < 2 ^ 64 - 2" "nextOrderId g = - 1"
  moreover have "unat (- 1 :: OrderId) = 2 ^ 64 - 1" by (simp add: unsigned_minus_1_eq_mask mask_eq_exp_minus_1)
  ultimately show False by simp
qed

lemma matchingIteration_inv:
  assumes "queue_ok RAW_CAPACITY q" "thread_ok th" "engine_typed (engine th)" "nextOrderId (engine th) \<noteq> - 1"
  shows "\<exists>q' th' acts. matchingIteration now s q th = Some (q', th', acts) \<and> queue_ok RAW_CAPACITY q' \<and> thread_ok th'
    \<and> engine_typed (engine th') \<and> unat (nextOrderId (engine th')) \<le> Suc (unat (nextOrderId (engine th)))
    \<and> (\<forall>a\<in>set acts. good_message (send_bytes a))"
proof -
  obtain r q' where r: "try_pop RAW_CAPACITY q = Some (r, q')" "queue_ok RAW_CAPACITY q'"
    by (rule spsc.pop_total [OF assms(1)])
  show ?thesis
  proof (cases r)
    case (Some raw)
    obtain th' acts where h: "handleRaw now s raw th = Some (th', acts)" "thread_ok th'"
      "nextOrderId (engine th') \<in> {nextOrderId (engine th), nextOrderId (engine th) + 1}"
      using handleRaw_ok [OF assms(2,4), of now s raw] by blast
    have "unat (nextOrderId (engine th) + 1) \<le> Suc (unat (nextOrderId (engine th)))" by (simp add: unat_word_ariths)
    with h r Some handleRaw_typed [OF assms(2,3) h(1)] show ?thesis
      by (auto simp: matchingIteration_def good_message_def)
  qed (use r assms in \<open>simp add: matchingIteration_def\<close>)
qed

lemma exchange_inv_mono: "exchange_inv n x \<Longrightarrow> exchange_inv (Suc n) x"
  by (simp add: exchange_inv_def)

lemma exchange_inv_other:
  assumes "other_step x x'" "exchange_inv n x"
  shows "exchange_inv n x'"
  using assms(1)
proof (cases rule: other_step.cases)
  case (connect fd)
  then show ?thesis using assms(2) tables_ok_connect by (auto simp: exchange_inv_def)
next
  case (login as fd pc bs received ctl_ok r v acts)
  have "tables_ok (as @ (fd, pc) # bs) (x_unwatched x) (x_server x)" using assms(2) login(2) by (simp add: exchange_inv_def)
  from tables_ok_login [OF this login(3)] loginMicro_keeps [OF login(3)] login(1) assms(2) show ?thesis
    by (auto simp: exchange_inv_def)
next
  case (loop_event ev)
  then show ?thesis using loopEvent_inv [OF assms(2)] by fastforce
next
  case (loop_frame p how v fin)
  have v: "tables_ok (x_logins x) (x_unwatched x) (x_server x)" "queue_ok RAW_CAPACITY (srv_queue (x_server x))"
    "pointer_ok how p (srv_sessions (x_server x))"
    using assms(2) loop_frame(2) by (simp_all add: exchange_inv_def)
  have "deref p (srv_sessions (x_server x)) \<noteq> None" using loop_frame(3) by (cases "deref p (srv_sessions (x_server x))") (simp_all add: frameIteration_def)
  from frameIteration_inv [OF v(1,2) this] loop_frame v(3) assms(2) show ?thesis
    by (auto simp: exchange_inv_def)
qed (use assms(2) in \<open>auto simp: exchange_inv_def\<close>)

lemma exchange_inv_step:
  assumes "exchange_step x x'" "exchange_inv n x" "n < 2 ^ 64 - 2"
  shows "exchange_inv (Suc n) x'"
  using assms(1)
proof (cases rule: exchange_step.cases)
  case other
  then show ?thesis using exchange_inv_mono [OF exchange_inv_other [OF _ assms(2)]] by blast
next
  case (match now q th acts)
  have "queue_ok RAW_CAPACITY (srv_queue (x_server x))" "thread_ok (x_thread x)" "engine_typed (engine (x_thread x))"
    "nextOrderId (engine (x_thread x)) \<noteq> - 1"
    using assms(2) nextOrderId_room [OF _ assms(3)] by (simp_all add: exchange_inv_def)
  from matchingIteration_inv [OF this, of now "srv_sessions (x_server x)"] match assms(2) show ?thesis
    by (auto simp: exchange_inv_def)
qed (use exchange_inv_mono [OF assms(2)] in \<open>auto simp: exchange_inv_def\<close>)

interpretation process: counted_invariant exchange_step Exchange_init exchange_inv "2 ^ 64 - 2"
  by unfold_locales (rule exchange_inv_init, rule exchange_inv_step)

section \<open>The iterations make up the framing loop\<close>

lemma push_Some: "try_push c x q = Some (True, q')" if "push c x q = Some q'"
proof (rule push.raw_induct [OF _ that], goal_cases)
  case (1 f c x q r)
  then obtain ok q1 where q1: "try_push c x q = Some (ok, q1)" by (auto simp: bind_eq_Some_conv)
  then have "\<not> ok \<Longrightarrow> q1 = q" by (auto simp: try_push_def Let_def split: if_splits)
  with 1 q1 show ?case by (cases ok) auto
qed

text \<open>Repeating the iteration until it leaves the loop.\<close>

definition iterates_to :: "SessionPtr \<Rightarrow> Server \<Rightarrow> ClientSession \<Rightarrow> u8 list \<Rightarrow> RawMessage SPSCQueue \<Rightarrow> bool" where
  "iterates_to p v c rest q \<longleftrightarrow>
     (\<exists>v'. (\<lambda>v v'. frameIteration p v = Some (v', False))\<^sup>*\<^sup>* v v' \<and> frameIteration p v' = Some (v', True)
       \<and> deref p (srv_sessions v') = Some (c\<lparr>recvBuffer := rest\<rparr>) \<and> srv_queue v' = q)"

lemma iterates_stop:
  "deref p (srv_sessions v) = Some c \<Longrightarrow> frameIteration p v = Some (v, True) \<Longrightarrow> iterates_to p v c (recvBuffer c) (srv_queue v)"
  unfolding iterates_to_def by (rule exI [of _ v]) simp

lemma iterates_step:
  assumes "frameIteration p v = Some (v1, False)" "iterates_to p v1 (c\<lparr>recvBuffer := buf\<rparr>) rest q"
  shows "iterates_to p v c rest q"
  using assms unfolding iterates_to_def by (auto intro: converse_rtranclp_into_rtranclp)

text \<open>Left alone, the framing loop of a callback is the repetition of \<open>frameIteration\<close>: both end with
  the same buffer and the same queue.\<close>

lemma frameLoop_iterates:
  assumes "frameLoop (cs_traderId c) (recvBuffer c) (srv_queue v) = Some (rest, q')" "deref p (srv_sessions v) = Some c"
  shows "iterates_to p v c rest q'"
proof -
  have "\<forall>v c. deref p (srv_sessions v) = Some c \<longrightarrow> recvBuffer c = buf \<longrightarrow> cs_traderId c = t \<longrightarrow> srv_queue v = q
      \<longrightarrow> iterates_to p v c (fst r) (snd r)" if "frameLoop t buf q = Some r" for t buf q r
  proof (rule frameLoop.raw_induct [OF _ that], goal_cases)
    case (1 f t buf q r)
    let ?n = "header_length (decode_MsgHeader buf)"
    show ?case
    proof (intro allI impI)
      fix v :: Server and c :: ClientSession
      assume c: "deref p (srv_sessions v) = Some c" "recvBuffer c = buf" "cs_traderId c = t" "srv_queue v = q"
      let ?fd = "node_key p" and ?s = "with_buffer (node_key p) (drop (unat ?n) buf) (srv_sessions v)"
      have p: "getSession ?fd (srv_sessions v) = Some p" using c(1) deref_getSession [of p "srv_sessions v"] by simp
      then have c': "session_at ?fd (srv_sessions v) = Some c" using getSession_Some(1) [OF p] c(1) by simp
      have s: "deref p ?s = Some (c\<lparr>recvBuffer := drop (unat ?n) buf\<rparr>)"
        using getSession_Some(1) [of ?fd ?s p] p c' by (simp add: session_at_with_buffer)
      note frame = frameIteration_session [OF p c']
      consider (stop) "length buf < sizeof_MsgHeader \<or> length buf < unat ?n"
        | (big) "\<not> (length buf < sizeof_MsgHeader \<or> length buf < unat ?n)" "MAX_RAW_MSG_SIZE < unat ?n"
        | (ok) "\<not> (length buf < sizeof_MsgHeader \<or> length buf < unat ?n)" "\<not> MAX_RAW_MSG_SIZE < unat ?n" by blast
      then show "iterates_to p v c (fst r) (snd r)"
      proof cases
        case stop
        with 1(2) have "r = (buf, q)" by (auto simp: Let_def split: if_splits)
        with stop c iterates_stop [OF c(1)] show ?thesis by (simp add: frame Let_def)
      next
        case big
        with 1(2) have step: "f t (drop (unat ?n) buf) q = Some r" by (simp add: Let_def split: if_splits)
        have "iterates_to p (v\<lparr>srv_sessions := ?s\<rparr>) (c\<lparr>recvBuffer := drop (unat ?n) buf\<rparr>) (fst r) (snd r)"
          by (rule 1(1) [OF step, rule_format]) (simp_all add: s c(3,4))
        then show ?thesis by (rule iterates_step [rotated]) (use big c in \<open>simp add: frame Let_def\<close>)
      next
        case ok
        with 1(2) obtain q1 where q1: "push RAW_CAPACITY (makeRaw t ?n buf) q = Some q1" "f t (drop (unat ?n) buf) q1 = Some r"
          by (auto simp: Let_def bind_eq_Some_conv split: if_splits)
        have "iterates_to p (v\<lparr>srv_queue := q1, srv_sessions := ?s\<rparr>) (c\<lparr>recvBuffer := drop (unat ?n) buf\<rparr>) (fst r) (snd r)"
          by (rule 1(1) [OF q1(2), rule_format]) (simp_all add: s c(3))
        then show ?thesis
          by (rule iterates_step [rotated]) (use ok c push_Some [OF q1(1)] in \<open>simp add: frame Let_def\<close>)
      qed
    qed
  qed
  with assms show ?thesis by fastforce
qed

end
