(* ===== verification/Exchange_Interleaved.thy ===== *)
theory Exchange_Interleaved
  imports Exchange_Process
begin

text \<open>
  The server process with the matching thread taken apart as the login handlers are: one iteration of its loop is a sequence
  of steps, each of which takes a lock or makes a system call at most once. Logins, disconnects and
  the terminal may come in between, so the session registry that a confirmation or a market update
  is sent by may change within one iteration. \<open>Exchange_Process\<close> is the special case in which nothing
  comes in between.
\<close>

section \<open>The matching thread, step by step\<close>

text \<open>The local variables of the loop body once a request has been executed: the request, all its
  confirmations, those not yet sent, and the market updates not yet sent.\<close>

record match_job =
  j_req :: OrderRequest
  j_confirms :: "OrderConfirm list"
  j_todo :: "OrderConfirm list"
  j_updates :: "MdUpdate list"

text \<open>Where the thread is: at the loop condition, before \<^verbatim>\<open>getFd\<close>, before \<^verbatim>\<open>send\<close> of a confirmation,
  before \<^verbatim>\<open>getAllFds\<close> (or, with no update left, before the market table), before the sends of one
  update to the descriptors that are left.\<close>

datatype match_pc =
    M_top
  | M_lookup match_job
  | M_reply int "u8 list" match_job
  | M_snapshot match_job
  | M_cast "int list" "u8 list" match_job

definition send_one :: "int \<Rightarrow> u8 list \<Rightarrow> Exchange \<Rightarrow> Exchange" where
  "send_one fd bs x = x\<lparr>x_sent := x_sent x @ [Send fd bs]\<rparr>"

text \<open>\<open>None\<close> is undefined behaviour.\<close>

fun matchMicro :: "Timestamp \<Rightarrow> match_pc \<Rightarrow> Exchange \<Rightarrow> (match_pc \<times> Exchange) option" where
  "matchMicro now M_top x = do {
     (r, q) \<leftarrow> try_pop RAW_CAPACITY (srv_queue (x_server x));
     let x1 = x\<lparr>x_server := (x_server x)\<lparr>srv_queue := q\<rparr>\<rparr>;
     case Option.bind r (parseRequest now) of
       None \<Rightarrow> Some (M_top, x1)
     | Some req \<Rightarrow> do {
         (g, cs, ms) \<leftarrow> dispatch req (engine (x_thread x));
         Some (M_lookup \<lparr>j_req = req, j_confirms = cs, j_todo = cs, j_updates = ms\<rparr>, x1\<lparr>x_thread := (x_thread x)\<lparr>engine := g\<rparr>\<rparr>)
       }
   }"
| "matchMicro now (M_lookup j) x =
     (case j_todo j of
        [] \<Rightarrow> Some (M_snapshot j, x)
      | confirm # todo \<Rightarrow>
          let fd = getFd (oc_traderId confirm) (srv_sessions (x_server x)); j' = j\<lparr>j_todo := todo\<rparr>
          in Some (if fd < 0 then M_lookup j' else M_reply fd (confirm_bytes confirm) j', x))"
| "matchMicro now (M_reply fd bs j) x = Some (M_lookup j, send_one fd bs x)"
| "matchMicro now (M_snapshot j) x =
     (case j_updates j of
        [] \<Rightarrow> Some (M_top, x\<lparr>x_thread := (x_thread x)
                \<lparr>market := updateMarket (m_symbolId (j_req j)) (j_confirms j) (engine (x_thread x)) (market (x_thread x))\<rparr>\<rparr>)
      | md # updates \<Rightarrow> Some (M_cast (getAllFds (srv_sessions (x_server x))) (update_bytes md) (j\<lparr>j_updates := updates\<rparr>), x))"
| "matchMicro now (M_cast [] bs j) x = Some (M_snapshot j, x)"
| "matchMicro now (M_cast (fd # fds) bs j) x = Some (M_cast fds bs j, send_one fd bs x)"

text \<open>The process. The flag is read only at the loop condition.\<close>

inductive process_step :: "match_pc \<times> Exchange \<Rightarrow> match_pc \<times> Exchange \<Rightarrow> bool" where
  by_other: "other_step x x' \<Longrightarrow> process_step (pc, x) (pc, x')"
| by_match: "x_matching x \<Longrightarrow> (pc = M_top \<longrightarrow> x_gRunning x) \<Longrightarrow> matchMicro now pc x = Some (pc', x') \<Longrightarrow>
    process_step (pc, x) (pc', x')"
| matching_ends: "x_matching x \<Longrightarrow> \<not> x_gRunning x \<Longrightarrow> process_step (M_top, x) (M_top, x\<lparr>x_matching := False\<rparr>)"

abbreviation process_reach :: "nat \<Rightarrow> match_pc \<times> Exchange \<Rightarrow> bool" where
  "process_reach \<equiv> reach_in process_step (M_top, Exchange_init)"

section \<open>Invariant\<close>

definition job_ok :: "match_job \<Rightarrow> bool" where
  "job_ok j \<longleftrightarrow> list_all typed_confirm (j_todo j) \<and> list_all typed_update (j_updates j)"

fun pc_ok :: "match_pc \<Rightarrow> bool" where
  "pc_ok M_top \<longleftrightarrow> True"
| "pc_ok (M_lookup j) \<longleftrightarrow> job_ok j"
| "pc_ok (M_reply fd bs j) \<longleftrightarrow> well_formed_reply bs \<and> job_ok j"
| "pc_ok (M_snapshot j) \<longleftrightarrow> job_ok j"
| "pc_ok (M_cast fds bs j) \<longleftrightarrow> well_formed_reply bs \<and> job_ok j"

definition process_inv :: "nat \<Rightarrow> match_pc \<times> Exchange \<Rightarrow> bool" where
  "process_inv n s \<longleftrightarrow> pc_ok (fst s) \<and> exchange_inv n (snd s) \<and> (fst s = M_top \<or> x_matching (snd s))"

lemma exchange_inv_send: "exchange_inv n x \<Longrightarrow> well_formed_reply bs \<Longrightarrow> exchange_inv n (send_one fd bs x)"
  by (auto simp: exchange_inv_def send_one_def good_message_def)

lemma micro_top:
  assumes "exchange_inv n x" "n < 2 ^ 64 - 2"
  shows "\<exists>pc' x'. matchMicro now M_top x = Some (pc', x') \<and> pc_ok pc' \<and> exchange_inv (Suc n) x'"
proof -
  let ?g = "engine (x_thread x)"
  have q: "queue_ok RAW_CAPACITY (srv_queue (x_server x))" and th: "thread_ok (x_thread x)" "engine_typed ?g"
    and room: "nextOrderId ?g \<noteq> - 1"
    using assms(1) nextOrderId_room [OF _ assms(2)] by (simp_all add: exchange_inv_def)
  obtain r q' where r: "try_pop RAW_CAPACITY (srv_queue (x_server x)) = Some (r, q')" "queue_ok RAW_CAPACITY q'"
    by (rule spsc.pop_total [OF q])
  let ?x1 = "x\<lparr>x_server := (x_server x)\<lparr>srv_queue := q'\<rparr>\<rparr>"
  have x1: "exchange_inv (Suc n) ?x1"
    using exchange_inv_mono [OF assms(1)] r(2) by (simp add: exchange_inv_def)
  show ?thesis
  proof (cases "Option.bind r (parseRequest now)")
    case (Some req)
    have ok: "engine_ok ?g" using th(1) by (simp add: thread_ok_def)
    obtain g cs ms where g: "dispatch req ?g = Some (g, cs, ms)" "engine_ok g"
      "nextOrderId g = nextOrderId ?g + (if m_requestType req = New then 1 else 0)"
      by (rule dispatch_ok [OF ok room])
    obtain raw where "parseRequest now raw = Some req" using Some by (auto simp: bind_eq_Some_conv)
    from dispatch_typed [OF ok th(2) parseRequest_typed [OF this] g(1)]
    have t: "engine_typed g" "list_all typed_confirm cs" "list_all typed_update ms" by auto
    have "unat (nextOrderId ?g + 1) \<le> Suc (unat (nextOrderId ?g))" by (simp add: unat_word_ariths)
    then have "exchange_inv (Suc n) (?x1\<lparr>x_thread := (x_thread x)\<lparr>engine := g\<rparr>\<rparr>)"
      using x1 assms(1) g(2,3) t(1) by (auto simp: exchange_inv_def thread_ok_def split: if_splits)
    with r(1) Some g(1) t show ?thesis by (simp add: job_ok_def)
  qed (use r(1) x1 in simp)
qed

lemma micro_inv:
  assumes "pc_ok pc" "exchange_inv n x" "n < 2 ^ 64 - 2"
  shows "\<exists>pc' x'. matchMicro now pc x = Some (pc', x') \<and> pc_ok pc' \<and> exchange_inv (Suc n) x'"
proof (cases pc)
  case M_top
  then show ?thesis using micro_top [OF assms(2,3)] by simp
next
  case (M_lookup j)
  with assms(1) exchange_inv_mono [OF assms(2)] show ?thesis
    by (cases "j_todo j") (auto simp: job_ok_def Let_def confirm_well_formed simp del: confirm_bytes.simps)
next
  case (M_reply fd bs j)
  with assms(1) exchange_inv_send [OF exchange_inv_mono [OF assms(2)], of bs fd] show ?thesis by simp
next
  case (M_snapshot j)
  have "exchange_inv (Suc n) (x\<lparr>x_thread := (x_thread x)\<lparr>market := updateMarket sy cs (engine (x_thread x)) (market (x_thread x))\<rparr>\<rparr>)" for sy cs
    using exchange_inv_mono [OF assms(2)] by (auto simp: exchange_inv_def thread_ok_def)
  with M_snapshot assms(1) exchange_inv_mono [OF assms(2)] show ?thesis
    by (cases "j_updates j") (auto simp: job_ok_def update_well_formed)
next
  case (M_cast fds bs j)
  with assms(1) exchange_inv_mono [OF assms(2)] exchange_inv_send [OF exchange_inv_mono [OF assms(2)], of bs] show ?thesis
    by (cases fds) auto
qed

lemma keeps_matching:
  "other_step x x' \<Longrightarrow> x_matching x' = x_matching x"
  "matchMicro now pc x = Some (pc', x') \<Longrightarrow> x_matching x' = x_matching x"
proof -
  show "other_step x x' \<Longrightarrow> x_matching x' = x_matching x"
    by (cases rule: other_step.cases) (auto simp: loopEvent_def Let_def split: option.splits if_splits Option.bind_splits)
  show "matchMicro now pc x = Some (pc', x') \<Longrightarrow> x_matching x' = x_matching x"
    by (induction now pc x rule: matchMicro.induct)
      (auto simp: send_one_def Let_def split: list.splits option.splits Option.bind_splits)
qed

lemma matchMicro_keeps:
  "matchMicro now pc x = Some (pc', x') \<Longrightarrow> x_pc x' = x_pc x \<and> srv_sessions (x_server x') = srv_sessions (x_server x)"
  by (induction now pc x rule: matchMicro.induct)
    (auto simp: send_one_def Let_def split: list.splits option.splits Option.bind_splits)

lemma process_inv_step:
  assumes "process_step s s'" "process_inv n s" "n < 2 ^ 64 - 2"
  shows "process_inv (Suc n) s'"
  using assms(1)
proof (cases rule: process_step.cases)
  case (by_other x x' pc)
  then show ?thesis using assms(2) exchange_inv_mono [OF exchange_inv_other] keeps_matching(1) by (simp add: process_inv_def)
next
  case (by_match x pc now pc' x')
  then show ?thesis using micro_inv [of pc n x now] keeps_matching(2) assms(2,3) by (simp add: process_inv_def)
next
  case (matching_ends x)
  then show ?thesis using assms(2) exchange_inv_mono by (auto simp: process_inv_def exchange_inv_def)
qed

interpretation interleaved: counted_invariant process_step "(M_top, Exchange_init)" process_inv "2 ^ 64 - 2"
  by unfold_locales (simp add: process_inv_def exchange_inv_init, rule process_inv_step)

section \<open>A pointer that dangles\<close>

text \<open>The event loop is stopped by a dangling pointer, and no step of another thread repairs it.\<close>

lemma other_step_stuck:
  assumes "other_step x x'" "x_pc x = Framing p how" "dangling p (srv_sessions (x_server x))"
  shows "x_pc x' = Framing p how \<and> dangling p (srv_sessions (x_server x'))"
  using assms(1)
proof (cases rule: other_step.cases)
  case (login as fd pc bs received ctl_ok r v acts)
  have "dangling p (srv_sessions v)"
    using login(3) assms(3) dangling_for_ever(1) [OF assms(3)]
    by (cases pc) (auto simp: close_fd_def epoll_add_def Let_def split: option.splits if_splits)
  with login(1) assms(2) show ?thesis by simp
next
  case (loop_frame p' how' v fin)
  with assms frameIteration_dangling [of p "x_server x"] show ?thesis by simp
qed (use assms(2,3) in auto)

lemma stuck_for_ever:
  assumes "reach_in process_step (pc, x) m (pc', x')" "x_pc x = Framing p how" "dangling p (srv_sessions (x_server x))"
  shows "x_pc x' = Framing p how \<and> dangling p (srv_sessions (x_server x'))"
  using assms(1)
proof (induction m "(pc', x')" arbitrary: pc' x' rule: reach_in.induct)
  case (reach_next m s')
  obtain pc1 x1 where s': "s' = (pc1, x1)" by (cases s')
  with reach_next have "x_pc x1 = Framing p how" "dangling p (srv_sessions (x_server x1))" by blast+
  with reach_next(3) s' show ?case
    by (cases rule: process_step.cases) (auto dest: other_step_stuck matchMicro_keeps)
qed (use assms(2,3) in simp)

section \<open>An iteration that nothing disturbs\<close>

text \<open>A step of the matching thread inside an iteration.\<close>

lemma micro_stepI:
  "x_matching x \<Longrightarrow> pc \<noteq> M_top \<Longrightarrow> matchMicro 0 pc x = Some (pc', x') \<Longrightarrow> process_step\<^sup>*\<^sup>* (pc', x') s \<Longrightarrow> process_step\<^sup>*\<^sup>* (pc, x) s"
  by (blast intro: by_match converse_rtranclp_into_rtranclp)

lemma confirms_sent:
  "x_matching x \<Longrightarrow> process_step\<^sup>*\<^sup>* (M_lookup j, x) (M_snapshot (j\<lparr>j_todo := []\<rparr>),
     x\<lparr>x_sent := x_sent x @ sendConfirms (srv_sessions (x_server x)) (j_todo j)\<rparr>)"
proof (induction "j_todo j" arbitrary: j x)
  case Nil
  then have e: "j\<lparr>j_todo := []\<rparr> = j" by simp
  show ?case unfolding e using Nil by (intro micro_stepI [of x]) (auto split: list.splits)
next
  case (Cons c todo)
  let ?j = "j\<lparr>j_todo := todo\<rparr>" and ?fd = "getFd (oc_traderId c) (srv_sessions (x_server x))"
  show ?case
  proof (cases "?fd < 0")
    case True
    then have "process_step\<^sup>*\<^sup>* (M_lookup ?j, x) (M_snapshot (j\<lparr>j_todo := []\<rparr>),
        x\<lparr>x_sent := x_sent x @ sendConfirms (srv_sessions (x_server x)) (j_todo j)\<rparr>)"
      using Cons(1) [of ?j x] Cons(3) by (simp add: Cons(2) [symmetric])
    then show ?thesis
      by (rule micro_stepI [rotated 3]) (use Cons(3) True in \<open>simp_all add: Cons(2) [symmetric] Let_def\<close>)
  next
    case False
    let ?x = "send_one ?fd (confirm_bytes c) x"
    have "process_step\<^sup>*\<^sup>* (M_lookup ?j, ?x) (M_snapshot (j\<lparr>j_todo := []\<rparr>),
        x\<lparr>x_sent := x_sent x @ sendConfirms (srv_sessions (x_server x)) (j_todo j)\<rparr>)"
      using Cons(1) [of ?j ?x] Cons(2,3) False by (simp add: send_one_def Cons(2) [symmetric] del: confirm_bytes.simps)
    then have "process_step\<^sup>*\<^sup>* (M_reply ?fd (confirm_bytes c) ?j, x) (M_snapshot (j\<lparr>j_todo := []\<rparr>),
        x\<lparr>x_sent := x_sent x @ sendConfirms (srv_sessions (x_server x)) (j_todo j)\<rparr>)"
      by (rule micro_stepI [rotated 3]) (use Cons(3) in simp_all)
    then show ?thesis
      by (rule micro_stepI [rotated 3]) (use Cons(2,3) False in \<open>simp_all add: Cons(2) [symmetric] Let_def del: confirm_bytes.simps\<close>)
  qed
qed

lemma update_sent:
  "x_matching x \<Longrightarrow> process_step\<^sup>*\<^sup>* (M_cast fds bs j, x) (M_snapshot j, x\<lparr>x_sent := x_sent x @ map (\<lambda>fd. Send fd bs) fds\<rparr>)"
proof (induction fds arbitrary: x)
  case Nil
  then show ?case by (intro micro_stepI [of x]) auto
next
  case (Cons fd fds)
  have "process_step\<^sup>*\<^sup>* (M_cast fds bs j, send_one fd bs x) (M_snapshot j, x\<lparr>x_sent := x_sent x @ map (\<lambda>fd. Send fd bs) (fd # fds)\<rparr>)"
    using Cons.IH [of "send_one fd bs x"] Cons.prems by (simp add: send_one_def)
  then show ?case by (rule micro_stepI [rotated 3]) (use Cons.prems in simp_all)
qed

lemma updates_sent:
  "x_matching x \<Longrightarrow> process_step\<^sup>*\<^sup>* (M_snapshot j, x) (M_snapshot (j\<lparr>j_updates := []\<rparr>),
     x\<lparr>x_sent := x_sent x @ multicast (srv_sessions (x_server x)) (j_updates j)\<rparr>)"
proof (induction "j_updates j" arbitrary: j x)
  case Nil
  then have e: "j\<lparr>j_updates := []\<rparr> = j" by simp
  show ?case unfolding e by (simp flip: Nil(1))
next
  case (Cons md mds)
  let ?j = "j\<lparr>j_updates := mds\<rparr>" and ?fds = "getAllFds (srv_sessions (x_server x))"
  let ?x = "x\<lparr>x_sent := x_sent x @ map (\<lambda>fd. Send fd (update_bytes md)) ?fds\<rparr>"
  have "process_step\<^sup>*\<^sup>* (M_snapshot ?j, ?x) (M_snapshot (j\<lparr>j_updates := []\<rparr>),
      x\<lparr>x_sent := x_sent x @ multicast (srv_sessions (x_server x)) (j_updates j)\<rparr>)"
    using Cons(1) [of ?j ?x] Cons(2,3) by (simp add: Cons(2) [symmetric])
  with update_sent [OF Cons(3), of ?fds "update_bytes md" ?j]
  have "process_step\<^sup>*\<^sup>* (M_cast ?fds (update_bytes md) ?j, x) (M_snapshot (j\<lparr>j_updates := []\<rparr>),
      x\<lparr>x_sent := x_sent x @ multicast (srv_sessions (x_server x)) (j_updates j)\<rparr>)" by (rule rtranclp_trans)
  then show ?case by (rule micro_stepI [rotated 3]) (use Cons(2,3) in \<open>simp_all add: Cons(2) [symmetric]\<close>)
qed

text \<open>The steps of one iteration, run without interruption, are \<open>matchingIteration\<close>.\<close>

lemma iteration_steps:
  assumes "x_matching x" "x_gRunning x"
    "matchingIteration now (srv_sessions (x_server x)) (srv_queue (x_server x)) (x_thread x) = Some (q, th, acts)"
  shows "process_step\<^sup>*\<^sup>* (M_top, x) (M_top, x\<lparr>x_server := (x_server x)\<lparr>srv_queue := q\<rparr>, x_thread := th, x_sent := x_sent x @ acts\<rparr>)"
proof -
  let ?s = "srv_sessions (x_server x)" and ?x1 = "x\<lparr>x_server := (x_server x)\<lparr>srv_queue := q\<rparr>\<rparr>"
  obtain r where r: "try_pop RAW_CAPACITY (srv_queue (x_server x)) = Some (r, q)"
    using assms(3) by (auto simp: matchingIteration_def bind_eq_Some_conv split: option.splits)
  show ?thesis
  proof (cases "Option.bind r (parseRequest now)")
    case None
    then have "th = x_thread x" "acts = []"
      using assms(3) r by (auto simp: matchingIteration_def handleRaw_def split: option.splits)
    moreover have "process_step (M_top, x) (M_top, ?x1)" by (rule by_match [of x M_top now]) (use assms(1,2) r None in simp_all)
    ultimately show ?thesis by simp
  next
    case (Some req)
    then obtain raw where raw: "r = Some raw" "parseRequest now raw = Some req" by (auto simp: bind_eq_Some_conv)
    from assms(3) obtain g cs ms where g: "dispatch req (engine (x_thread x)) = Some (g, cs, ms)"
      by (cases "dispatch req (engine (x_thread x))") (auto simp: matchingIteration_def handleRaw_def r raw)
    with assms(3) have th: "th = \<lparr>engine = g, market = updateMarket (m_symbolId req) cs g (market (x_thread x))\<rparr>"
      "acts = sendConfirms ?s cs @ multicast ?s ms"
      by (simp_all add: matchingIteration_def handleRaw_def r raw)
    let ?x2 = "?x1\<lparr>x_thread := (x_thread x)\<lparr>engine := g\<rparr>\<rparr>" and ?j = "\<lambda>todo ms. \<lparr>j_req = req, j_confirms = cs, j_todo = todo, j_updates = ms\<rparr>"
    let ?x3 = "?x2\<lparr>x_sent := x_sent x @ acts\<rparr>"
    have "process_step (M_top, x) (M_lookup (?j cs ms), ?x2)"
      by (rule by_match [of x M_top now]) (use assms(1,2) r Some g in simp_all)
    also have "process_step\<^sup>*\<^sup>* (M_lookup (?j cs ms), ?x2) (M_snapshot (?j [] ms), ?x2\<lparr>x_sent := x_sent x @ sendConfirms ?s cs\<rparr>)"
      using confirms_sent [of ?x2 "?j cs ms"] assms(1) by simp
    also have "process_step\<^sup>*\<^sup>* \<dots> (M_snapshot (?j [] []), ?x3)"
      using updates_sent [of "?x2\<lparr>x_sent := x_sent x @ sendConfirms ?s cs\<rparr>" "?j [] ms"] assms(1) th(2) by simp
    also have "process_step\<^sup>*\<^sup>* \<dots> (M_top, ?x3\<lparr>x_thread := th\<rparr>)"
      using by_match [of ?x3 "M_snapshot (?j [] [])" 0 M_top "?x3\<lparr>x_thread := th\<rparr>"] assms(1) th(1) by (intro r_into_rtranclp) simp
    also have "?x3\<lparr>x_thread := th\<rparr> = x\<lparr>x_server := (x_server x)\<lparr>srv_queue := q\<rparr>, x_thread := th, x_sent := x_sent x @ acts\<rparr>"
      by simp
    finally show ?thesis .
  qed
qed

text \<open>So every state of the process of \<open>Exchange_Process\<close> is one of this one.\<close>

interpretation whole: simulation exchange_step Exchange_init process_step "(M_top, Exchange_init)" "\<lambda>x s. s = (M_top, x)"
proof unfold_locales
  fix x x' s
  assume step: "exchange_step x x'" and "s = (M_top, x)"
  from step have "process_step\<^sup>*\<^sup>* (M_top, x) (M_top, x')"
  proof (cases rule: exchange_step.cases)
    case (match now q th acts)
    then show ?thesis using iteration_steps by blast
  qed (blast intro: by_other matching_ends)+
  with \<open>s = (M_top, x)\<close> show "\<exists>s'. process_step\<^sup>*\<^sup>* s s' \<and> s' = (M_top, x')" by blast
qed simp

lemma exchange_reach_interleaved: "exchange_reach n x \<Longrightarrow> \<exists>m. process_reach m (M_top, x)"
  using whole.reach_followed by blast

section \<open>A descriptor that changes hands\<close>

definition hangup :: "int \<Rightarrow> epoll_event" where
  "hangup fd = \<lparr>ev_fd = fd, ev_events = EPOLLHUP, ev_chunks = [], ev_how = Would_block\<rparr>"

lemma loopEvent_hangup: "loopEvent (hangup fd) x = Some (x\<lparr>x_server := onDisconnect fd (x_server x)\<rparr>)"
proof -
  have "EPOLLHUP AND (EPOLLHUP OR EPOLLERR) \<noteq> 0" by code_simp
  then show ?thesis by (simp add: loopEvent_def hangup_def Let_def)
qed

definition login_bytes :: "TraderId \<Rightarrow> u8 list" where
  "login_bytes t = encode_LoginRequestMsg (loginRequest t)"

lemma loginMicro_accepts: "loginMicro (Some (login_bytes t)) ctl_ok fd L_recv v = (Some (L_response t), v, [])"
proof -
  have v: "valid_LoginRequestMsg (loginRequest t)"
    by (simp add: loginRequest_def valid_LoginRequestMsg_def valid_MsgHeader_def byte_msg_type_def)
  have "length (login_bytes t) = sizeof_LoginRequestMsg" unfolding login_bytes_def by (rule login_request_msg.encode_length)
  moreover have "decode_LoginRequestMsg (login_bytes t) = loginRequest t"
    using login_request_msg.decode_encode [OF v, of "[]"] by (simp add: login_bytes_def)
  ultimately show ?thesis by (simp add: loginRequest_def)
qed

lemma other_nextI: "reach_in process_step s n (pc, x) \<Longrightarrow> other_step x x' \<Longrightarrow> reach_in process_step s (Suc n) (pc, x')"
  by (blast intro: reach_next by_other)

text \<open>A step of the handler that was started last.\<close>

lemma last_handler_step:
  assumes "x_logins x = hs @ [(fd, pc)]" "loginMicro received True fd pc (x_server x) = (Some pc', v, acts)"
  shows "other_step x (x\<lparr>x_server := v, x_sent := x_sent x @ acts, x_logins := hs @ [(fd, pc')]\<rparr>)"
  using login [OF assms] by (simp add: handler_after_def)

text \<open>Trader \<open>t\<close> connects on a free descriptor, and its handler runs up to the registration of the session.\<close>

definition registered :: "int \<Rightarrow> TraderId \<Rightarrow> Exchange \<Rightarrow> Exchange" where
  "registered fd t x =
     x\<lparr>x_server := (x_server x)\<lparr>srv_sessions := sessions_add fd t (srv_sessions (x_server x))\<rparr>,
       x_sent := x_sent x @ [Send fd (encode_LoginResponseMsg loginResponse)], x_logins := x_logins x @ [(fd, L_nonblock)]\<rparr>"

lemma login_steps:
  assumes r: "reach_in process_step s n (pc, x)"
    and "0 \<le> fd" "session_at fd (srv_sessions (x_server x)) = None" "fd \<notin> set (owned (x_logins x))"
  shows "reach_in process_step s (n + 4) (pc, registered fd t x)"
proof -
  let ?x = "\<lambda>lp sent. x\<lparr>x_sent := x_sent x @ sent, x_logins := x_logins x @ [(fd, lp)]\<rparr>"
    and ?resp = "[Send fd (encode_LoginResponseMsg loginResponse)]"
  have "other_step x (?x L_recv [])" using connect [OF assms(2-4)] by simp
  note r = other_nextI [OF r this]
  have "other_step (?x L_recv []) (?x (L_response t) [])"
    using last_handler_step [of "?x L_recv []", OF _ loginMicro_accepts] by simp
  note r = other_nextI [OF r this]
  have "other_step (?x (L_response t) []) (?x (L_register t) ?resp)"
    using last_handler_step [of "?x (L_response t) []" "x_logins x" fd "L_response t" None] by simp
  note r = other_nextI [OF r this]
  have "other_step (?x (L_register t) ?resp) (registered fd t x)"
    using last_handler_step [of "?x (L_register t) ?resp" "x_logins x" fd "L_register t" None] by (simp add: registered_def)
  from other_nextI [OF r this] show ?thesis by (simp add: eval_nat_numeral)
qed

text \<open>Between the lookup of a descriptor and the send on it, its connection ends and another trader
  gets it.\<close>

lemma hand_over_steps:
  assumes r: "reach_in process_step s n (pc, x)" and "x_loopRunning x" "x_pc x = Waiting" "0 \<le> fd"
    and "tables_ok (x_logins x) (x_unwatched x) (x_server x)" "fd \<in> set (srv_epoll (x_server x))"
  shows "reach_in process_step s (n + 5) (pc, registered fd t (x\<lparr>x_server := onDisconnect fd (x_server x)\<rparr>))"
proof -
  let ?x1 = "x\<lparr>x_server := onDisconnect fd (x_server x)\<rparr>"
  have "other_step x ?x1" using loop_event [OF assms(2,3), of "hangup fd"] assms(6) loopEvent_hangup by (simp add: hangup_def)
  note r = other_nextI [OF r this]
  have "session_at fd (srv_sessions (x_server ?x1)) = None" by (simp add: onDisconnect_def close_fd_def)
  moreover have "fd \<notin> set (owned (x_logins ?x1))" using watched_alone(2) [OF assms(5,6)] by simp
  ultimately show ?thesis using login_steps [OF r assms(4)] by (simp add: eval_nat_numeral)
qed

section \<open>Theorems\<close>

text \<open>
  C8. What the threads of the server keep among them, interleaved step by step: in every state the process
  can reach (in fewer than \<open>2^64 - 2\<close> steps, so that order ids do not run out), whatever clients send and
  however many login handlers are under way, the queue is consistent and so are the session and epoll
  tables (a session is registered exactly if the event loop watches its descriptor, its handler is
  about to have it watched, or \<^verbatim>\<open>epoll_ctl\<close> failed for it; no descriptor has two owners, and one whose
  login is pending is in no table), all books are well formed, everything sent so far is a login
  response or a reply the client understands, the next step of the matching thread is defined, and so is
  the handling of any event of a watched descriptor up to its framing loop. The framing loop itself is
  defined if the last read of the callback found no more data, and \<^emph>\<open>only\<close> then: after any read that ended
  the connection (which every ordinary disconnect does) its condition reads the destroyed session, and from
  there on the theorem speaks of the other threads, with the event loop stopped at that read. The
  flag of \<^verbatim>\<open>EpollMgr\<close> is never cleared, so \<^verbatim>\<open>main\<close> never gets past \<^verbatim>\<open>runEpollThread\<close> to its shutdown code.
\<close>

theorem process_consistent:
  assumes "process_reach n (pc, x)" and "n < 2 ^ 64 - 2"
  shows "tables_ok (x_logins x) (x_unwatched x) (x_server x) \<and> queue_ok RAW_CAPACITY (srv_queue (x_server x))
    \<and> engine_ok (engine (x_thread x))
    \<and> (\<forall>a\<in>set (x_sent x). send_bytes a = encode_LoginResponseMsg loginResponse \<or> well_formed_reply (send_bytes a))
    \<and> (\<exists>s'. matchMicro now pc x = Some s')
    \<and> (x_pc x = Waiting \<longrightarrow> ev_fd ev \<in> set (srv_epoll (x_server x)) \<longrightarrow> (\<exists>x'. loopEvent ev x = Some x'))
    \<and> (x_pc x = Framing p how \<longrightarrow> ((\<exists>r. frameIteration p (x_server x) = Some r) \<longleftrightarrow> how = Would_block))
    \<and> x_loopRunning x \<and> \<not> x_left x"
proof -
  have inv: "pc_ok pc" "exchange_inv n x"
    using interleaved.reach_inv [OF assms(1)] assms(2) by (simp_all add: process_inv_def)
  then have v: "tables_ok (x_logins x) (x_unwatched x) (x_server x)" "queue_ok RAW_CAPACITY (srv_queue (x_server x))"
    by (simp_all add: exchange_inv_def)
  have "\<exists>s'. matchMicro now pc x = Some s'" using micro_inv [OF inv assms(2)] by blast
  moreover have "(\<exists>r. frameIteration p (x_server x) = Some r) \<longleftrightarrow> how = Would_block" if "x_pc x = Framing p how"
  proof -
    have p: "pointer_ok how p (srv_sessions (x_server x))" using inv(2) that by (simp add: exchange_inv_def)
    show ?thesis
    proof (cases "how = Would_block")
      case True
      then have "deref p (srv_sessions (x_server x)) \<noteq> None" using p by (simp add: pointer_ok_def)
      from frameIteration_inv [OF v this] True show ?thesis by blast
    next
      case False
      with p frameIteration_dangling [of p "x_server x"] show ?thesis by (simp add: pointer_ok_def)
    qed
  qed
  moreover have "\<exists>x'. loopEvent ev x = Some x'" if "x_pc x = Waiting" "ev_fd ev \<in> set (srv_epoll (x_server x))"
    using loopEvent_inv [OF inv(2) that] by blast
  ultimately show ?thesis
    using inv(2) by (simp add: exchange_inv_def thread_ok_def good_message_def)
qed

text \<open>
  C37. The event loop reads a destroyed session: in any reachable state in which it waits, when a watched
  client closes its connection or its read fails (an event without the hang-up flags), the data callback
  removes the session and then goes on to the framing loop with the pointer it had got before. The object is
  gone, the iteration is undefined, and it remains so in every state reachable afterwards: nothing the
  other threads do, not even another login that is given the same descriptor, makes the pointer
  valid again.
\<close>

theorem disconnect_reads_destroyed_session:
  assumes "process_reach n (pc, x)" and "n < 2 ^ 64 - 2" and "x_pc x = Waiting" and "ev_fd ev \<in> set (srv_epoll (x_server x))"
    and "ev_events ev AND (EPOLLHUP OR EPOLLERR) = 0" and "ev_events ev AND EPOLLIN \<noteq> 0" and "ev_how ev \<noteq> Would_block"
  shows "\<exists>p x1. getSession (ev_fd ev) (srv_sessions (x_server x)) = Some p \<and> deref p (srv_sessions (x_server x)) \<noteq> None
    \<and> loopEvent ev x = Some x1 \<and> process_step (pc, x) (pc, x1)
    \<and> (\<forall>m pc' x'. reach_in process_step (pc, x1) m (pc', x') \<longrightarrow>
         x_pc x' = Framing p (ev_how ev) \<and> deref p (srv_sessions (x_server x')) = None \<and> frameIteration p (x_server x') = None)"
proof -
  have inv: "exchange_inv n x" using interleaved.reach_inv [OF assms(1)] assms(2) by (simp add: process_inv_def)
  then have run: "x_loopRunning x" "tables_ok (x_logins x) (x_unwatched x) (x_server x)" by (simp_all add: exchange_inv_def)
  obtain p where p: "getSession (ev_fd ev) (srv_sessions (x_server x)) = Some p"
    using watched_alone(1) [OF run(2) assms(4)] getSession_ex by blast
  obtain s where x1: "loopEvent ev x = Some (x\<lparr>x_server := if ev_how ev = Would_block then (x_server x)\<lparr>srv_sessions := s\<rparr>
      else endConnection (ev_fd ev) ((x_server x)\<lparr>srv_sessions := s\<rparr>), x_pc := Framing p (ev_how ev)\<rparr>)" (is "_ = Some ?x1")
    by (rule loopEvent_data [OF assms(5,6) p])
  have "exchange_inv n ?x1" using loopEvent_inv [OF inv assms(3,4)] x1 by simp
  then have "dangling p (srv_sessions (x_server ?x1))" using assms(7) by (simp add: exchange_inv_def pointer_ok_def)
  then have "x_pc x' = Framing p (ev_how ev) \<and> dangling p (srv_sessions (x_server x'))"
    if "reach_in process_step (pc, ?x1) m (pc', x')" for m pc' x'
    using stuck_for_ever [OF that] by simp
  moreover have "process_step (pc, x) (pc, ?x1)" by (intro by_other loop_event [OF run(1) assms(3,4) x1])
  ultimately show ?thesis
    using p x1 getSession_Some(1,4) [OF p] frameIteration_dangling
    by (intro exI [of _ p] exI [of _ ?x1]) (auto simp: dangling_def)
qed

text \<open>
  C36. A private reply can go to another trader: in any reachable state in which the matching thread
  has looked up the descriptor for a confirmation and has not sent it yet, while the event loop
  waits and watches that descriptor, five steps of other threads (the client hangs up; another trader
  connects, is given the same descriptor and logs in) make the next step of the matching thread send
  the confirmation to that trader.
\<close>

theorem reply_to_new_owner:
  assumes "process_reach n (M_reply fd bs j, x)" and "n < 2 ^ 64 - 2" and "x_pc x = Waiting" and "0 \<le> fd"
    and "fd \<in> set (srv_epoll (x_server x))"
  shows "\<exists>x1. process_reach (n + 5) (M_reply fd bs j, x1) \<and> getTraderId fd (srv_sessions (x_server x1)) = t
    \<and> getFd t (srv_sessions (x_server x1)) = fd
    \<and> process_step (M_reply fd bs j, x1) (M_lookup j, x1\<lparr>x_sent := x_sent x1 @ [Send fd bs]\<rparr>)"
proof -
  let ?x1 = "registered fd t (x\<lparr>x_server := onDisconnect fd (x_server x)\<rparr>)"
  have inv: "process_inv n (M_reply fd bs j, x)" using interleaved.reach_inv [OF assms(1)] assms(2) by simp
  then have run: "x_loopRunning x" "x_matching x" "tables_ok (x_logins x) (x_unwatched x) (x_server x)"
    by (simp_all add: process_inv_def exchange_inv_def)
  have "process_reach (n + 5) (M_reply fd bs j, ?x1)"
    by (rule hand_over_steps [OF assms(1) run(1) assms(3,4) run(3) assms(5)])
  moreover have "getTraderId fd (srv_sessions (x_server ?x1)) = t" "getFd t (srv_sessions (x_server ?x1)) = fd"
    by (simp_all add: registered_def getTraderId_session getFd_def)
  moreover have "process_step (M_reply fd bs j, ?x1) (M_lookup j, ?x1\<lparr>x_sent := x_sent ?x1 @ [Send fd bs]\<rparr>)"
    by (rule by_match [of _ _ 0]) (use run(2) in \<open>simp_all add: registered_def send_one_def\<close>)
  ultimately show ?thesis by blast
qed

section \<open>A socket that still blocks\<close>

text \<open>A session is registered before its socket is made non-blocking: a market update that comes in
  between is sent on a blocking socket, and a client that does not read can hold up the matching
  thread.\<close>

lemma update_to_blocking_socket:
  assumes "process_reach n (M_snapshot j, x)" "n < 2 ^ 64 - 2" "(fd, L_nonblock) \<in> set (x_logins x)" "j_updates j \<noteq> []"
  shows "\<exists>fds bs j'. process_step (M_snapshot j, x) (M_cast fds bs j', x) \<and> fd \<in> set fds"
proof -
  have inv: "process_inv n (M_snapshot j, x)" using interleaved.reach_inv [OF assms(1)] assms(2) by simp
  then have x: "x_matching x" "tables_ok (x_logins x) (x_unwatched x) (x_server x)" by (simp_all add: process_inv_def exchange_inv_def)
  then have "fd \<in> set (getAllFds (srv_sessions (x_server x)))" using assms(3) by (simp add: tables_ok_def registering_def)
  moreover obtain md updates where "j_updates j = md # updates" using assms(4) by (cases "j_updates j") auto
  ultimately show ?thesis using by_match [of x "M_snapshot j" 0] x(1) by fastforce
qed

section \<open>A session of the process\<close>

lemma loopEvent_readable:
  assumes "getSession fd (srv_sessions (x_server x)) = Some p" "session_at fd (srv_sessions (x_server x)) = Some c" "chunks \<noteq> []"
  shows "loopEvent (readable fd chunks) x = Some (x\<lparr>x_server := (x_server x)\<lparr>srv_sessions :=
      with_buffer fd (recvBuffer c @ concat chunks) (srv_sessions (x_server x))\<rparr>, x_pc := Framing p Would_block\<rparr>)"
proof -
  have "EPOLLIN AND (EPOLLHUP OR EPOLLERR) = 0" "EPOLLIN AND EPOLLIN \<noteq> 0" by code_simp+
  with assms appendChunks_session [OF assms(1,2), of chunks] show ?thesis by (simp add: loopEvent_def readable_def Let_def)
qed

text \<open>Trader 8 logs in on descriptor 5 and its first order is executed: the matching thread has looked
  up the descriptor for the acknowledgement.\<close>

lemma process_nextI: "process_reach n s \<Longrightarrow> process_step s s' \<Longrightarrow> process_reach (Suc n) s'"
  by (rule reach_next)

lemma queued_order_reachable:
  assumes "valid_NewOrderRequestMsg m" "header_length (no_header m) = of_nat sizeof_NewOrderRequestMsg" "0 \<le> fd"
  obtains x where "process_reach 9 (M_top, x)" "x_pc x = Waiting" "x_matching x" "x_gRunning x" "x_thread x = MatchingThread_init"
    "fd \<in> set (srv_epoll (x_server x))" "queue_ok RAW_CAPACITY (srv_queue (x_server x))" "getFd t (srv_sessions (x_server x)) = fd"
    "queue_list RAW_CAPACITY (srv_queue (x_server x)) = [makeRaw t 24 (encode_NewOrderRequestMsg m)]"
proof -
  let ?bs = "encode_NewOrderRequestMsg m" and ?s = "sessions_add fd t SessionManager_new"
  let ?x = "\<lambda>buf pc q. Exchange_init\<lparr>x_sent := [Send fd (encode_LoginResponseMsg loginResponse)], x_logins := [(fd, L_release)],
      x_server := \<lparr>srv_sessions = with_buffer fd buf ?s, srv_epoll = [fd], srv_queue = q, srv_closed = []\<rparr>, x_pc := pc\<rparr>"
  let ?q = "SPSCQueue_new RAW_CAPACITY RawMessage_init" and ?raw = "makeRaw t 24 ?bs"
  let ?p = "Node fd 0"
  let ?F = "Framing ?p Would_block"
  have buf: "with_buffer fd b (with_buffer fd b' ?s) = with_buffer fd b ?s" "with_buffer fd [] ?s = ?s" for b b'
    by (simp_all add: with_buffer_twice) (simp add: with_buffer_def sessions_add_def SessionManager_new_def)
  have s: "session_at fd (with_buffer fd b ?s) = Some \<lparr>cs_fd = fd, cs_traderId = t, recvBuffer = b\<rparr>"
    "getSession fd (with_buffer fd b ?s) = Some ?p" for b
    by (simp add: session_at_with_buffer) (simp, simp add: getSession_def sessions_add_def SessionManager_new_def)
  have len: "length ?bs = 24" by (rule encoded_new_framed(2) [OF assms(1,2)])
  have hd: "header_length (decode_MsgHeader ?bs) = 24"
    using new_order_msg.decode_header [OF assms(1), of "[]"] assms(2) by (simp add: sizeof_NewOrderRequestMsg_def)
  obtain q where q: "try_push RAW_CAPACITY ?raw ?q = Some (True, q)" "queue_ok RAW_CAPACITY q" "queue_list RAW_CAPACITY q = [?raw]"
    using spsc.push_room [OF queue_new(1) [OF RAW_CAPACITY_valid(1)], of RawMessage_init ?raw]
      queue_new(2) [OF RAW_CAPACITY_valid(1), of RawMessage_init] RAW_CAPACITY_valid(2) by auto
  have frame: "frameIteration ?p (x_server (?x ?bs ?F ?q)) = Some (x_server (?x [] ?F q), False)"
    "frameIteration ?p (x_server (?x [] ?F q)) = Some (x_server (?x [] ?F q), True)"
    using s [of ?bs] s [of "[]"] q(1) buf(1) len hd frameIteration_session [of fd "x_server (?x ?bs ?F ?q)" ?p]
      frameIteration_session [of fd "x_server (?x [] ?F q)" ?p]
    by (simp_all add: sizeof_MsgHeader_def MAX_RAW_MSG_SIZE_def Let_def)
  let ?x4 = "registered fd t Exchange_init"
  let ?x5 = "?x4\<lparr>x_logins := [(fd, L_epoll)]\<rparr>"
  have r4: "process_reach (0 + 4) (M_top, ?x4)"
    by (rule login_steps [OF reach_start assms(3)]) (simp_all add: Exchange_init_def Server_new_def session_at_def SessionManager_new_def)
  have "other_step ?x4 ?x5"
    using last_handler_step [of ?x4 "[]" fd L_nonblock None] by (simp add: registered_def Exchange_init_def)
  note r5 = other_nextI [OF r4 this]
  have "other_step ?x5 (?x [] Waiting ?q)"
    using last_handler_step [of ?x5 "[]" fd L_epoll None] buf(2)
    by (simp add: registered_def Exchange_init_def Server_new_def epoll_add_def)
  from other_nextI [OF r5 this] have "process_reach 6 (M_top, ?x [] Waiting ?q)" by (simp add: eval_nat_numeral)
  moreover have "process_step (M_top, ?x [] Waiting ?q) (M_top, ?x ?bs ?F ?q)"
    using by_other [OF loop_event [of "?x [] Waiting ?q" "readable fd [?bs]"], of "?x ?bs ?F ?q" M_top] s [of "[]"] buf(1)
      readable_def [of fd "[?bs]"] loopEvent_readable [of fd "?x [] Waiting ?q" ?p "\<lparr>cs_fd = fd, cs_traderId = t, recvBuffer = []\<rparr>" "[?bs]"]
    by (simp add: Exchange_init_def)
  ultimately have "process_reach (Suc 6) (M_top, ?x ?bs ?F ?q)" by (rule process_nextI)
  moreover have "process_step (M_top, ?x ?bs ?F ?q) (M_top, ?x [] ?F q)"
    using by_other [OF loop_frame [of "?x ?bs ?F ?q", OF _ frame(1)], where pc = M_top] by simp
  ultimately have "process_reach (Suc (Suc 6)) (M_top, ?x [] ?F q)" by (rule process_nextI)
  moreover have "process_step (M_top, ?x [] ?F q) (M_top, ?x [] Waiting q)"
    using by_other [OF loop_frame [of "?x [] ?F q", OF _ frame(2)], where pc = M_top] by simp
  ultimately have "process_reach 9 (M_top, ?x [] Waiting q)" using process_nextI by (simp add: eval_nat_numeral)
  with q(2,3) buf(2) show ?thesis
    by (intro that [of "?x [] Waiting q"]) (simp_all add: Exchange_init_def getFd_def)
qed

text \<open>The acknowledgement is the first confirmation of a new order.\<close>

lemma ack_first:
  assumes "thread_ok th" "dispatch req (engine th) = Some (g, cs, ms)" "m_requestType req = New" "m_symbolId req \<in> dom (books (engine th))"
  shows "\<exists>c cs'. cs = c # cs' \<and> oc_traderId c = m_traderId req \<and> oc_type c = NewAck"
proof -
  let ?req = "req\<lparr>m_orderId := nextOrderId (engine th)\<rparr>"
  obtain b where b: "books (engine th) (m_symbolId req) = Some b" using assms(4) by blast
  have "book_ok b" "orderMap b (m_orderId ?req) = None"
    using assms(1) b by (auto simp: thread_ok_def engine_ok_def books_inv_def book_ids_def)
  then obtain b' ms' where "addOrder ?req b [] [] = Some (b', [] @ OrderConfirm NewAck (m_orderId ?req) (m_clientOrderId ?req)
      (m_traderId ?req) (symbol b) 0 0 UnknownOrder # concat (map (event_confirms (symbol b) ?req) (executions ?req (abs_book b))), [] @ ms')"
    by (rule addOrder_outcome)
  with assms(2,3) b show ?thesis by (auto simp: dispatch_def onOrder_def Let_def)
qed

lemma reply_reachable:
  assumes "valid_NewOrderRequestMsg m" "no_header m = \<lparr>header_length = of_nat sizeof_NewOrderRequestMsg, header_type = NewOrderRequest\<rparr>"
    "0 \<le> fd" "no_symbolId m \<in> dom (books (engine MatchingThread_init))"
  shows "\<exists>c j x. process_reach 11 (M_reply fd (confirm_bytes c) j, x) \<and> x_pc x = Waiting \<and> fd \<in> set (srv_epoll (x_server x)) \<and> oc_traderId c = t \<and> oc_type c = NewAck"
proof -
  let ?raw = "makeRaw t 24 (encode_NewOrderRequestMsg m)" and ?req = "toOrderRequest_new 0 m t"
  have h: "header_length (no_header m) = of_nat sizeof_NewOrderRequestMsg" "header_type (no_header m) = NewOrderRequest"
    using assms(2) by simp_all
  obtain x where x: "process_reach 9 (M_top, x)" "x_pc x = Waiting" "x_matching x" "x_gRunning x" "x_thread x = MatchingThread_init"
    "fd \<in> set (srv_epoll (x_server x))" "queue_ok RAW_CAPACITY (srv_queue (x_server x))" "getFd t (srv_sessions (x_server x)) = fd"
    "queue_list RAW_CAPACITY (srv_queue (x_server x)) = [?raw]"
    by (rule queued_order_reachable [OF assms(1) h(1) assms(3)])
  obtain q where q: "try_pop RAW_CAPACITY (srv_queue (x_server x)) = Some (Some ?raw, q)"
    using spsc.pop_item [OF x(7,9)] by blast
  obtain g cs ms where g: "dispatch ?req (engine MatchingThread_init) = Some (g, cs, ms)"
    by (rule dispatch_ok [of "engine MatchingThread_init" ?req]) (use thread_ok_init in \<open>auto simp: thread_ok_def\<close>)
  have req: "m_requestType ?req = New" "m_symbolId ?req = no_symbolId m" "m_traderId ?req = t" by (simp_all add: toOrderRequest_new_def)
  obtain c cs' where c: "cs = c # cs'" "oc_traderId c = t" "oc_type c = NewAck"
    using ack_first [OF thread_ok_init(1) g req(1)] assms(4) req by auto
  let ?j = "\<lambda>todo. \<lparr>j_req = ?req, j_confirms = cs, j_todo = todo, j_updates = ms\<rparr>"
  let ?x = "x\<lparr>x_server := (x_server x)\<lparr>srv_queue := q\<rparr>, x_thread := MatchingThread_init\<lparr>engine := g\<rparr>\<rparr>"
  have "process_step (M_top, x) (M_lookup (?j cs), ?x)"
    by (rule by_match [of _ _ 0]) (use x q g parse_framed_new [OF assms(1) h(2), of 0 t] in simp_all)
  with x(1) have "process_reach (Suc 9) (M_lookup (?j cs), ?x)" by (rule process_nextI)
  moreover have "process_step (M_lookup (?j cs), ?x) (M_reply fd (confirm_bytes c) (?j cs'), ?x)"
    by (rule by_match [of _ _ 0]) (use x(3,8) c assms(3) in \<open>simp_all add: Let_def del: confirm_bytes.simps\<close>)
  ultimately have "process_reach (Suc (Suc 9)) (M_reply fd (confirm_bytes c) (?j cs'), ?x)" by (rule process_nextI)
  moreover have "Suc (Suc 9) = 11" "x_pc ?x = Waiting" "fd \<in> set (srv_epoll (x_server ?x))" using x(2,6) by simp_all
  ultimately show ?thesis using c(2,3) by (metis (no_types, lifting))
qed

lemma sample_reply_reachable:
  "\<exists>c j x. process_reach 11 (M_reply 5 (confirm_bytes c) j, x) \<and> x_pc x = Waiting \<and> 5 \<in> set (srv_epoll (x_server x)) \<and> oc_traderId c = 8 \<and> oc_type c = NewAck"
  by (rule reply_reachable [of sample_new])
    (simp_all add: sample_new_def wire_simps byte_msg_type_def byte_side_def MatchingThread_init_def)

theorem process_consistent_witness:
  "\<exists>c j x. process_reach 11 (M_reply 5 (confirm_bytes c) j, x) \<and> (\<exists>s'. matchMicro 0 (M_reply 5 (confirm_bytes c) j) x = Some s')
    \<and> (\<exists>x'. loopEvent (hangup 5) x = Some x')
    \<and> tables_ok (x_logins x) (x_unwatched x) (x_server x) \<and> engine_ok (engine (x_thread x))"
proof -
  obtain c j x where r: "process_reach 11 (M_reply 5 (confirm_bytes c) j, x)" "x_pc x = Waiting" "5 \<in> set (srv_epoll (x_server x))"
    using sample_reply_reachable by blast
  have "(11 :: nat) < 2 ^ 64 - 2" "ev_fd (hangup 5) = 5" by (simp_all add: hangup_def)
  from process_consistent [OF r(1) this(1), of 0 "hangup 5"] this(2) r show ?thesis by metis
qed

text \<open>Trader 8 logs in on descriptor 5, sends an order and closes the connection while the matching thread is
  about to acknowledge it.\<close>

definition peer_closes :: "int \<Rightarrow> epoll_event" where
  "peer_closes fd = \<lparr>ev_fd = fd, ev_events = EPOLLIN, ev_chunks = [], ev_how = Peer_closed\<rparr>"

theorem disconnect_reads_destroyed_session_witness:
  "\<exists>pc x p x1. process_reach 11 (pc, x) \<and> loopEvent (peer_closes 5) x = Some x1 \<and> process_step (pc, x) (pc, x1)
    \<and> x_pc x1 = Framing p Peer_closed \<and> frameIteration p (x_server x1) = None"
proof -
  obtain pc x where r: "process_reach 11 (pc, x)" "x_pc x = Waiting" "5 \<in> set (srv_epoll (x_server x))"
    using sample_reply_reachable by blast
  have n: "(11 :: nat) < 2 ^ 64 - 2" by simp
  have ev: "ev_fd (peer_closes 5) = 5" "ev_events (peer_closes 5) AND (EPOLLHUP OR EPOLLERR) = 0"
    "ev_events (peer_closes 5) AND EPOLLIN \<noteq> 0" "ev_how (peer_closes 5) = Peer_closed" by code_simp+
  have watched: "ev_fd (peer_closes 5) \<in> set (srv_epoll (x_server x))" "ev_how (peer_closes 5) \<noteq> Would_block" using ev(1,4) r(3) by simp_all
  from disconnect_reads_destroyed_session [OF r(1) n r(2) watched(1) ev(2,3) watched(2)] r(1) reach_start [of process_step]
  show ?thesis unfolding ev(4) by (elim exE conjE) (intro exI conjI, assumption+, blast+)
qed

text \<open>The acknowledgement meant for trader 8 is sent to trader 9.\<close>

theorem reply_to_new_owner_witness:
  "\<exists>c j x1. oc_traderId c = 8 \<and> process_reach 16 (M_reply 5 (confirm_bytes c) j, x1) \<and> getTraderId 5 (srv_sessions (x_server x1)) = 9
    \<and> process_step (M_reply 5 (confirm_bytes c) j, x1) (M_lookup j, x1\<lparr>x_sent := x_sent x1 @ [Send 5 (confirm_bytes c)]\<rparr>)"
proof -
  obtain c j x where r: "process_reach 11 (M_reply 5 (confirm_bytes c) j, x)" "x_pc x = Waiting" "oc_traderId c = 8" "5 \<in> set (srv_epoll (x_server x))"
    using sample_reply_reachable by blast
  have "(11 :: nat) < 2 ^ 64 - 2" "(0 :: int) \<le> 5" by simp_all
  from reply_to_new_owner [OF r(1) this(1) r(2) this(2) r(4), of 9] obtain x1 where "process_reach (11 + 5) (M_reply 5 (confirm_bytes c) j, x1)"
    "getTraderId 5 (srv_sessions (x_server x1)) = 9"
    "process_step (M_reply 5 (confirm_bytes c) j, x1) (M_lookup j, x1\<lparr>x_sent := x_sent x1 @ [Send 5 (confirm_bytes c)]\<rparr>)"
    by blast
  with r(3) show ?thesis by (intro exI [of _ c] exI [of _ j] exI [of _ x1]) (simp del: confirm_bytes.simps)
qed

end
