(* ===== verification/Order_Ownership.thy ===== *)
theory Order_Ownership
  imports Fill_Ledger
begin

text \<open>
  Who owns an order id: over a run of the engine every resting order was acknowledged as new to the
  trader who owns it, and no id is acknowledged to two traders. Kept on the abstract book and carried
  to the engine by the refinement.
\<close>

section \<open>Issued ids\<close>

text \<open>The confirmations acknowledge order \<open>i\<close> as a new order of trader \<open>t\<close>.\<close>

definition issued :: "OrderConfirm list \<Rightarrow> OrderId \<Rightarrow> TraderId \<Rightarrow> bool" where
  "issued cs i t \<longleftrightarrow> (\<exists>c\<in>set cs. oc_type c = NewAck \<and> oc_orderId c = i \<and> oc_traderId c = t)"

definition holders :: "SpecBook \<Rightarrow> (OrderId \<times> TraderId) set" where
  "holders B = (\<lambda>r. (r_id r, r_trader r)) ` set (spec_orders B)"

lemma issued_simps [simp]:
  "\<not> issued [] i t" "issued (c # cs) i t \<longleftrightarrow> oc_type c = NewAck \<and> oc_orderId c = i \<and> oc_traderId c = t \<or> issued cs i t"
  "issued (cs @ ds) i t \<longleftrightarrow> issued cs i t \<or> issued ds i t"
  by (auto simp: issued_def)

section \<open>Operations of the abstract book\<close>

lemma holders_place: "holders (spec_place r B) = insert (r_id r, r_trader r) (holders B)"
  by (auto simp: holders_def spec_place_def spec_orders_def)

lemma holders_remove: "holders (spec_remove i B) \<subseteq> holders B"
  by (auto simp: holders_def spec_remove_def spec_orders_def)

lemma holders_shrink: "holders (spec_shrink i q B) = holders B"
proof -
  have "(\<lambda>r. (r_id r, r_trader r)) \<circ> set_qty i q = (\<lambda>r. (r_id r, r_trader r))" by (auto simp: set_qty_def)
  then show ?thesis by (simp add: holders_def spec_shrink_def spec_orders_def image_Un image_comp)
qed

lemma match_holders:
  "spec_match req rem rs = (rs', rem', evs) \<Longrightarrow> (\<lambda>r. (r_id r, r_trader r)) ` set rs' \<subseteq> (\<lambda>r. (r_id r, r_trader r)) ` set rs"
  by (induction req rem rs arbitrary: rs' rem' evs rule: spec_match.induct) (fastforce split: if_splits prod.splits)+

lemma event_not_issued: "\<not> issued (concat (map (event_confirms s req) evs)) i t"
proof (induction evs)
  case (Cons ev evs)
  then show ?case by (cases ev) auto
qed simp

lemma holders_survivors: "holders (with_survivors req B) \<subseteq> holders B"
  using match_holders [OF spec_match_parts [of req B]]
  by (auto simp: holders_def with_survivors_def spec_orders_def opposite_list_def image_Un split: if_splits)

lemma add_holders:
  assumes "spec_add req B = (B', cs, ms)"
  shows "holders B' \<subseteq> insert (m_orderId req, m_traderId req) (holders B)"
    "issued cs i t \<longleftrightarrow> i = m_orderId req \<and> t = m_traderId req"
proof -
  have "B' = (if unfilled req B = 0 then with_survivors req B else spec_place (residual req B) (with_survivors req B))"
    using assms spec_add_book [of req B] by simp
  then show "holders B' \<subseteq> insert (m_orderId req, m_traderId req) (holders B)"
    using holders_survivors [of req B] by (auto simp: holders_place residual_def)
  show "issued cs i t \<longleftrightarrow> i = m_orderId req \<and> t = m_traderId req"
    using assms spec_add_confirms [of req B] by (auto simp: event_not_issued)
qed

lemma cancel_holders:
  assumes "spec_cancel j t B = (B', cs, ms)"
  shows "holders B' \<subseteq> holders B \<and> \<not> issued cs i t'"
  using assms holders_remove [of j B] by (auto simp: spec_cancel_def spec_reject_def split: option.splits if_splits)

lemma modify_holders:
  assumes "spec_modify j t p q B = (B', cs, ms)"
  shows "holders B' \<subseteq> holders B \<and> \<not> issued cs i t'"
proof (cases "spec_find j B")
  case (Some r)
  then have "(r_id r, r_trader r) \<in> holders B" using spec_find_id [of j B r] by (auto simp: holders_def)
  with Some assms holders_remove [of j B] show ?thesis
    by (auto simp: spec_modify_def spec_reject_def holders_place holders_shrink split: if_splits)
qed (use assms in \<open>auto simp: spec_modify_def spec_reject_def\<close>)

section \<open>Books\<close>

text \<open>The owner the book compares the requesting trader with.\<close>

lemma owner_view:
  assumes "book_ok b"
  shows "owner b i = map_option r_trader (spec_find i (abs_book b))"
proof (cases "orderMap b i")
  case (Some p)
  obtain e r where "elems b p = Some e" "spec_find i (abs_book b) = Some r" "r_trader r = el_traderId e"
    by (rule found_order [OF assms Some]) blast
  with Some show ?thesis by (simp add: owner_def)
next
  case None
  then have "spec_find i (abs_book b) = None"
    using orderMap_dom [OF assms] spec_find_absent by blast
  with None show ?thesis by (simp add: owner_def)
qed

lemma owner_holder: "book_ok b \<Longrightarrow> owner b i = Some t \<Longrightarrow> (i, t) \<in> holders (abs_book b)"
  using spec_find_id by (fastforce simp: owner_view holders_def)

section \<open>The engine\<close>

text \<open>The confirmations \<open>cs\<close> sent so far account for every owner, and name one owner per id.\<close>

definition engine_owned :: "OrderConfirm list \<Rightarrow> MatchingEngine \<Rightarrow> bool" where
  "engine_owned cs g \<longleftrightarrow>
     (\<forall>sy b i t. books g sy = Some b \<longrightarrow> (i, t) \<in> holders (abs_book b) \<longrightarrow> issued cs i t)
   \<and> (\<forall>i t. issued cs i t \<longrightarrow> i < nextOrderId g) \<and> (\<forall>i t t'. issued cs i t \<longrightarrow> issued cs i t' \<longrightarrow> t = t')"

lemma engine_owned_owner:
  assumes "engine_ok g" "engine_owned cs g" "issued cs i t" "books g sy = Some b"
  shows "owner b i \<in> {None, Some t}"
proof (cases "owner b i")
  case (Some t')
  have "book_ok b" using assms(1,4) by (auto simp: engine_ok_def books_inv_def)
  from owner_holder [OF this Some] assms(2,4) have "issued cs i t'" by (auto simp: engine_owned_def)
  with assms(2,3) Some show ?thesis by (auto simp: engine_owned_def)
qed simp

lemma engine_owned_none: "nextOrderId g \<noteq> - 1 \<Longrightarrow> engine_owned cs g \<Longrightarrow> engine_owned cs (g\<lparr>nextOrderId := nextOrderId g + 1\<rparr>)"
  using next_id_less [of "nextOrderId g"] unfolding engine_owned_def by (fastforce intro: less_trans)

text \<open>A request for an instrument of the engine is the operation of the abstract book.\<close>

definition spec_dispatch :: "OrderRequest \<Rightarrow> OrderId \<Rightarrow> SpecBook \<Rightarrow> SpecBook \<times> OrderConfirm list \<times> MdUpdate list" where
  "spec_dispatch req new B =
     (case m_requestType req of
        New \<Rightarrow> spec_add (req\<lparr>m_orderId := new\<rparr>) B
      | Cancel \<Rightarrow> spec_cancel (m_orderId req) (m_traderId req) B
      | Modify \<Rightarrow> spec_modify (m_orderId req) (m_traderId req) (m_price req) (m_quantity req) B)"

lemma dispatch_spec:
  assumes "engine_ok g" "dispatch req g = Some (g', cs, ms)" "books g (m_symbolId req) = Some b"
  obtains b' where "books g' = (books g)(m_symbolId req \<mapsto> b')"
    "nextOrderId g' = nextOrderId g + (if m_requestType req = New then 1 else 0)"
    "spec_dispatch req (nextOrderId g) (abs_book b) = (abs_book b', cs, ms)"
proof -
  have b: "book_ok b" "nextOrderId g \<notin> dom (orderMap b)"
    using assms(1,3) by (auto simp: engine_ok_def books_inv_def book_ids_def)
  let ?req = "req\<lparr>m_orderId := nextOrderId g\<rparr>"
  have new: "m_orderId ?req \<notin> dom (orderMap b)" using b(2) by simp
  note impl = implements_outcome [OF addOrder_implements [OF b(1) new]] implements_outcome [OF cancelOrder_implements [OF b(1)]]
    implements_outcome [OF modifyOrder_implements [OF b(1)]]
  have "\<exists>b'. books g' = (books g)(m_symbolId req \<mapsto> b')
      \<and> nextOrderId g' = nextOrderId g + (if m_requestType req = New then 1 else 0)
      \<and> spec_dispatch req (nextOrderId g) (abs_book b) = (abs_book b', cs, ms)"
    using assms(2,3)
    by (cases "m_requestType req")
      (auto simp: dispatch_def spec_dispatch_def onOrder_def onCancel_def onModify_def Let_def dest: impl split: Option.bind_splits)
  then show ?thesis using that by blast
qed

lemma spec_dispatch_holders:
  assumes "spec_dispatch req new B = (B', cs, ms)"
  shows "holders B' \<subseteq> holders B \<union> {(i, t). issued cs i t}"
    "issued cs i t \<longleftrightarrow> m_requestType req = New \<and> i = new \<and> t = m_traderId req"
proof -
  have "holders B' \<subseteq> holders B \<union> {(i, t). issued cs i t}
      \<and> (\<forall>i t. issued cs i t \<longleftrightarrow> m_requestType req = New \<and> i = new \<and> t = m_traderId req)"
  proof (cases "m_requestType req")
    case New
    with assms add_holders [of "req\<lparr>m_orderId := new\<rparr>" B B' cs ms] show ?thesis by (auto simp: spec_dispatch_def)
  next
    case Cancel
    with assms cancel_holders [of _ _ B B' cs ms] show ?thesis by (auto simp: spec_dispatch_def)
  next
    case Modify
    with assms modify_holders [of _ _ _ _ B B' cs ms] show ?thesis by (auto simp: spec_dispatch_def)
  qed
  then show "holders B' \<subseteq> holders B \<union> {(i, t). issued cs i t}"
    "issued cs i t \<longleftrightarrow> m_requestType req = New \<and> i = new \<and> t = m_traderId req" by blast+
qed

lemma dispatch_owned:
  assumes "engine_ok g" "nextOrderId g \<noteq> - 1" "engine_owned L g" "dispatch req g = Some (g', cs, ms)"
  shows "engine_owned (L @ cs) g'"
proof (cases "books g (m_symbolId req)")
  case None
  with assms show ?thesis using engine_owned_none [OF assms(2,3)]
    by (cases "m_requestType req") (auto simp: dispatch_def onOrder_def onCancel_def onModify_def)
next
  case (Some b)
  obtain b' where b': "books g' = (books g)(m_symbolId req \<mapsto> b')"
    "nextOrderId g' = nextOrderId g + (if m_requestType req = New then 1 else 0)"
    "spec_dispatch req (nextOrderId g) (abs_book b) = (abs_book b', cs, ms)"
    by (rule dispatch_spec [OF assms(1,4) Some])
  have iss: "issued cs i t \<longleftrightarrow> m_requestType req = New \<and> i = nextOrderId g \<and> t = m_traderId req"
    and sub: "holders (abs_book b') \<subseteq> holders (abs_book b) \<union> {(i, t). issued cs i t}" for i t
    using spec_dispatch_holders [OF b'(3)] by auto
  have less: "i < nextOrderId g + 1" if "i \<le> nextOrderId g" for i
    using that next_id_less [OF assms(2)] by (rule order.strict_trans1)
  have "issued (L @ cs) i t" if "books g' sy = Some b0" "(i, t) \<in> holders (abs_book b0)" for sy b0 i t
    using that assms(3) Some sub by (auto simp: b'(1) engine_owned_def split: if_splits)
  moreover have "i < nextOrderId g'" if "issued (L @ cs) i t" for i t
    using that assms(3) less by (auto simp: b'(2) iss engine_owned_def order.strict_implies_order)
  moreover have "t = t'" if "issued (L @ cs) i t" "issued (L @ cs) i t'" for i t t'
    using that assms(3) by (auto simp: iss engine_owned_def)
  ultimately show ?thesis unfolding engine_owned_def by blast
qed

lemma engine_owned_init: "engine_owned [] (engine MatchingThread_init)"
proof -
  have "holders (abs_book (OrderBook_new s)) = {}" for s
    by (simp add: holders_def spec_orders_def abs_book_def abs_side_def OrderBook_new_def)
  then show ?thesis
    by (auto simp: engine_owned_def MatchingThread_init_def MatchingEngine_new_def split: if_splits)
qed

section \<open>Rejections\<close>

text \<open>A request of the owner is not rejected.\<close>

definition rejects :: "OrderConfirm list \<Rightarrow> bool" where
  "rejects cs \<longleftrightarrow> (\<exists>c\<in>set cs. oc_type c = Reject)"

lemma add_not_rejected:
  assumes "spec_add req B = (B', cs, ms)"
  shows "\<not> rejects cs"
proof -
  have "oc_type c \<noteq> Reject" if "c \<in> set (event_confirms s req ev)" for c s ev
    using that by (cases ev) auto
  then have "\<not> rejects (concat (map (event_confirms s req) evs))" for s evs by (auto simp: rejects_def)
  then show ?thesis using assms spec_add_confirms [of req B] by (auto simp: rejects_def)
qed

lemma cancel_rejected: "spec_cancel i t B = (B', cs, ms) \<Longrightarrow> rejects cs \<longleftrightarrow> map_option r_trader (spec_find i B) \<noteq> Some t"
  by (auto simp: spec_cancel_def spec_reject_def rejects_def split: option.splits if_splits)

lemma modify_rejected: "spec_modify i t p q B = (B', cs, ms) \<Longrightarrow> rejects cs \<longleftrightarrow> map_option r_trader (spec_find i B) \<noteq> Some t"
  by (auto simp: spec_modify_def spec_reject_def rejects_def split: option.splits if_splits)

lemma dispatch_rejected:
  assumes "engine_ok g" "dispatch req g = Some (g', cs, ms)"
  shows "rejects cs \<longleftrightarrow> m_requestType req \<noteq> New
    \<and> (\<exists>b. books g (m_symbolId req) = Some b \<and> owner b (m_orderId req) \<noteq> Some (m_traderId req))"
proof (cases "books g (m_symbolId req)")
  case None
  with assms(2) show ?thesis
    by (cases "m_requestType req") (auto simp: dispatch_def onOrder_def onCancel_def onModify_def rejects_def)
next
  case (Some b)
  have "book_ok b" using assms(1) Some by (auto simp: engine_ok_def books_inv_def)
  obtain b' where "spec_dispatch req (nextOrderId g) (abs_book b) = (abs_book b', cs, ms)"
    by (rule dispatch_spec [OF assms Some])
  with Some show ?thesis
    by (cases "m_requestType req")
      (simp_all add: spec_dispatch_def add_not_rejected cancel_rejected modify_rejected owner_view [OF \<open>book_ok b\<close>])
qed

end
