(* ===== verification/Client_Main.thy ===== *)
theory Client_Main
  imports Client_Session Tcp_Socket Epoll_Thread
begin

text \<open>
  The start of the client's \<^verbatim>\<open>main\<close>: the first line, the connection and the login, with the socket
  object that owns the connection; and the login as the server answers it.
\<close>

datatype start_result =
    Invalid_input
  | Connection_failed net_error
  | Not_logged_in login_result
  | Ready "u8 list"             \<comment> \<open>logged in, with the bytes of the stream that follow\<close>

text \<open>The results of the system calls are arguments: \<open>fd\<close> of \<^verbatim>\<open>socket\<close>, \<open>address_ok\<close> of \<^verbatim>\<open>inet_pton\<close>,
  \<open>connect_ok\<close> of \<^verbatim>\<open>connect\<close>, \<open>sent\<close> of \<^verbatim>\<open>send\<close>. Returning from \<^verbatim>\<open>main\<close> destroys the socket object.\<close>

definition clientStart ::
  "string \<Rightarrow> int \<Rightarrow> (string \<Rightarrow> bool) \<Rightarrow> bool \<Rightarrow> bool \<Rightarrow> (u8 list \<Rightarrow> nat \<Rightarrow> nat) \<Rightarrow> u8 list \<Rightarrow> os \<Rightarrow> start_result \<times> TcpSocket \<times> os" where
  "clientStart initLine fd address_ok connect_ok sent recv_size bs k =
     (case parseInit initLine of
        None \<Rightarrow> (Invalid_input, TcpSocket_default, k)
      | Some (hostStr, portNumber, traderId) \<Rightarrow>
          case client_connect fd (address_ok hostStr) connect_ok k of
            Inl (e, k1) \<Rightarrow> (Connection_failed e, TcpSocket_default, snd (socket_close TcpSocket_default k1))
          | Inr (connected, k1) \<Rightarrow>
              case socket_assign TcpSocket_default connected k1 of
                (sock, moved_from, k2) \<Rightarrow>
                  let k3 = snd (socket_close moved_from k2)
                  in case loginHandshake sent recv_size bs of
                       Login_accepted rest \<Rightarrow> (Ready rest, sock, k3)
                     | failed \<Rightarrow> (case socket_close sock k3 of (sock', k4) \<Rightarrow> (Not_logged_in failed, sock', k4)))"

text \<open>Whatever fails, the client leaves no descriptor open and closes none twice; once it is ready,
  its socket object owns the new descriptor.\<close>

lemma clientStart_no_leak:
  assumes "fd \<notin> set (os_open k)" "0 \<le> fd" "clientStart initLine fd address_ok connect_ok sent recv_size bs k = (r, s, k')"
  shows "os_bad_close k' = os_bad_close k
    \<and> (if \<exists>rest. r = Ready rest then mFd s = fd \<and> set (os_open k') = insert fd (set (os_open k))
       else mFd s = - 1 \<and> set (os_open k') = set (os_open k))"
  using assms
  by (auto simp: clientStart_def client_connect_def socket_assign_def socket_close_def os_close_def os_new_fd_def
      TcpSocket_default_def TcpSocket_fd_def Let_def split: option.splits login_result.splits if_splits)

lemma loginHandshake_accepted:
  assumes "fair_recv recv_size"
  shows "loginHandshake True recv_size (encode_LoginResponseMsg loginResponse @ rest) = Login_accepted rest"
proof -
  have "length (encode_LoginResponseMsg loginResponse) = sizeof_LoginResponseMsg" by (rule login_response_msg.encode_length)
  then have "recvAll recv_size sizeof_LoginResponseMsg (encode_LoginResponseMsg loginResponse @ rest)
      = Inr (encode_LoginResponseMsg loginResponse, rest)"
    by (simp add: recvAll_append [OF assms])
  moreover have "lp_accepted (decode_LoginResponseMsg (encode_LoginResponseMsg loginResponse))" by code_simp
  ultimately show ?thesis by (simp add: loginHandshake_def)
qed

text \<open>The login a client sends is accepted: the server registers the trader on the connection, and
  the client reads the server's answer as an acceptance and leaves the rest of the stream.\<close>

lemma login_succeeds:
  assumes "fair_recv recv_size" "onAccept True fd (Some (encode_LoginRequestMsg (loginRequest traderId))) v = (v', acts)"
  shows "getFd traderId (srv_sessions v') = fd \<and> fd \<in> set (srv_epoll v')
    \<and> loginHandshake True recv_size (concat (map send_bytes acts) @ rest) = Login_accepted rest"
proof -
  let ?bs = "encode_LoginRequestMsg (loginRequest traderId)"
  have v: "valid_LoginRequestMsg (loginRequest traderId)"
    by (simp add: loginRequest_def valid_LoginRequestMsg_def valid_MsgHeader_def byte_msg_type_def)
  have "length ?bs = sizeof_LoginRequestMsg" by (rule login_request_msg.encode_length)
  moreover have "decode_LoginRequestMsg ?bs = loginRequest traderId"
    using login_request_msg.decode_encode [OF v, of "[]"] by simp
  ultimately have "v' = epoll_add True fd (v\<lparr>srv_sessions := sessions_add fd traderId (srv_sessions v)\<rparr>)"
    "acts = [Send fd (encode_LoginResponseMsg loginResponse)]"
    using assms(2) by (simp_all add: onAccept_def loginRequest_def)
  then show ?thesis
    using loginHandshake_accepted [OF assms(1)] by (simp add: epoll_add_def getFd_def)
qed

end
