(* ===== verification/Client_Process.thy ===== *)
theory Client_Process
  imports Client_Main
begin

text \<open>
  The client as a process: \<^verbatim>\<open>main\<close>'s command loop, the receive thread and the signal handler of
  \<^verbatim>\<open>client/src/main.cpp\<close> as one step relation. A step is one action of a thread on what the two share
  (\<^verbatim>\<open>gRunning\<close>, the id table under its mutex, the socket) or one action of the environment: bytes
  arrive, the connection ends, a signal is delivered. What is written to the terminal is modelled
  character by character.
\<close>

section \<open>Texts of the command loop\<close>

definition greeting :: string where
  "greeting = ''=== Interactive Exchange Client ==='' @ newline
     @ ''Enter server IP, port, traderId (e.g. 127.0.0.1, 9001, 1):'' @ newline @ ''> ''"

text \<open>The lines printed up to the login, given how the start ended; errors go to \<^verbatim>\<open>stderr\<close>.\<close>

definition startText :: "string \<Rightarrow> int \<Rightarrow> start_result \<Rightarrow> string" where
  "startText initLine fd r = greeting @
     (case parseInit initLine of
        None \<Rightarrow> []
      | Some (hostStr, portNumber, traderId) \<Rightarrow>
          ''Connecting to '' @ hostStr @ '':'' @ decimal (unat portNumber) @ '' as trader '' @ decimal (unat traderId)
            @ ''...'' @ newline @
          (let connected = ''Connected (fd='' @ decimal (nat fd) @ '')'' @ newline
           in case r of
                Not_logged_in failed \<Rightarrow> connected @ (if failed = Login_rejected then ''Login: REJECTED'' @ newline @ newline else [])
              | Ready rest \<Rightarrow> connected @ ''Login: ACCEPTED'' @ newline @ newline
              | _ \<Rightarrow> []))"

definition usage :: string where
  "usage = ''Ready. Enter requests (N/M/C format) or '' @ [CHR 0x27] @ ''quit'' @ [CHR 0x27] @ '' to exit.'' @ newline
     @ ''Formats:'' @ newline
     @ ''  N, internal_orderid, symbol_id, BUY|SELL, price, qty'' @ newline
     @ ''  M, internal_orderid, symbol_id, price, qty'' @ newline
     @ ''  C, internal_orderid, symbol_id'' @ newline"

definition text_or_invalid :: "string \<Rightarrow> string option \<Rightarrow> string" where
  "text_or_invalid action r = (case r of None \<Rightarrow> ''Invalid format for '' @ action @ newline | Some t \<Rightarrow> t)"

definition unknown_id_text :: "OrderId \<Rightarrow> string" where
  "unknown_id_text internalId =
     ''Error: Unknown internalOrderId '' @ decimal (unat internalId) @ '' (Not accepted by exchange yet?)'' @ newline"

definition echoNew :: "string \<Rightarrow> string" where
  "echoNew ss = text_or_invalid ''N'' (do {
     (internalId :: OrderId, s1) \<leftarrow> read_unsigned ss;
     (symId :: SymbolId, s2) \<leftarrow> read_unsigned s1;
     (sideStr, s3) \<leftarrow> read_word s2;
     (price :: u32, s4) \<leftarrow> read_unsigned s3;
     (qty :: Quantity, s5) \<leftarrow> read_unsigned s4;
     Some (''Sending: NEW internalId='' @ decimal (unat internalId) @ '' '' @ symbol_name ''?'' symId @ '' '' @ sideStr
       @ '' '' @ decimal (unat price) @ '' x '' @ decimal (unat qty) @ newline)
   })"

definition echoModify :: "string \<Rightarrow> Client \<Rightarrow> string" where
  "echoModify ss c = text_or_invalid ''M'' (do {
     (internalId, s1) \<leftarrow> read_unsigned ss;
     (symId :: SymbolId, s2) \<leftarrow> read_unsigned s1;
     (price :: u32, s3) \<leftarrow> read_unsigned s2;
     (qty :: Quantity, s4) \<leftarrow> read_unsigned s3;
     let exchId = lookupExchangeId internalId c;
     Some (if exchId = 0 then unknown_id_text internalId
           else ''Sending: MOD internalId='' @ decimal (unat internalId) @ '' exchId='' @ decimal (unat exchId) @ '' ''
             @ symbol_name ''?'' symId @ '' '' @ decimal (unat price) @ '' x '' @ decimal (unat qty) @ newline)
   })"

definition echoCancel :: "string \<Rightarrow> Client \<Rightarrow> string" where
  "echoCancel ss c = text_or_invalid ''C'' (do {
     (internalId, s1) \<leftarrow> read_unsigned ss;
     (symId :: SymbolId, s2) \<leftarrow> read_unsigned s1;
     let exchId = lookupExchangeId internalId c;
     Some (if exchId = 0 then unknown_id_text internalId
           else ''Sending: CXL internalId='' @ decimal (unat internalId) @ '' exchId='' @ decimal (unat exchId) @ '' ''
             @ symbol_name ''?'' symId @ newline)
   })"

text \<open>What handling a line prints.\<close>

definition echo :: "string \<Rightarrow> Client \<Rightarrow> string" where
  "echo line c =
     (if line = [] \<or> hd line = CHR ''#'' \<or> line = ''quit'' \<or> line = ''q'' \<or> line = ''exit'' then []
      else case read_word (clean_commas line) of
             None \<Rightarrow> ''Unknown action: '' @ newline
           | Some (a, ss) \<Rightarrow>
               if a = ''N'' then echoNew ss
               else if a = ''M'' then echoModify ss c
               else if a = ''C'' then echoCancel ss c
               else ''Unknown action: '' @ a @ newline)"

text \<open>The client announces exactly the lines it sends a request for.\<close>

lemma echoNew_sending: "take 9 (echoNew ss) = ''Sending: '' \<longleftrightarrow> (\<exists>bs. cmdNew ss = Request bs)"
  by (auto simp: echoNew_def cmdNew_def text_or_invalid_def or_invalid_def split: option.split Option.bind_split)

lemma echoModify_sending: "take 9 (echoModify ss c) = ''Sending: '' \<longleftrightarrow> (\<exists>bs. cmdModify ss c = Request bs)"
  by (auto simp: echoModify_def cmdModify_def text_or_invalid_def unknown_id_text_def or_invalid_def Let_def
      split: option.split Option.bind_split)

lemma echoCancel_sending: "take 9 (echoCancel ss c) = ''Sending: '' \<longleftrightarrow> (\<exists>bs. cmdCancel ss c = Request bs)"
  by (auto simp: echoCancel_def cmdCancel_def text_or_invalid_def unknown_id_text_def or_invalid_def Let_def
      split: option.split Option.bind_split)

lemma echo_sending: "take 9 (echo line c) = ''Sending: '' \<longleftrightarrow> (\<exists>bs. command line c = Request bs)"
  by (simp add: echo_def command_def echoNew_sending echoModify_sending echoCancel_sending split: option.split)

section \<open>State machine\<close>

text \<open>\<open>Leaving\<close> is after the command loop, \<open>Joining\<close> after \<^verbatim>\<open>shutdown\<close>.\<close>

datatype main_pc = Loop_top | Reading | Leaving | Joining | Exited

text \<open>The receive thread: at the loop condition, inside \<^verbatim>\<open>recvMsg\<close> for the header or the loop for the
  body with the bytes read so far, before the \<^verbatim>\<open>switch\<close>, between printing a reply and entering it in
  the table, returned, or past a read of uninitialised bytes.\<close>

datatype recv_pc =
    R_top
  | R_header "u8 list"
  | R_body MsgHeader "u8 list"
  | R_switch MsgHeader "u8 list"
  | R_note printed
  | R_done
  | R_undefined

record ClientProcess =
  client :: Client
  main_pc :: main_pc
  recv_pc :: recv_pc
  incoming :: "u8 list"        \<comment> \<open>received by the kernel and not read yet\<close>
  ended :: bool                \<comment> \<open>no more bytes will arrive\<close>
  outgoing :: "u8 list"        \<comment> \<open>taken by \<^verbatim>\<open>send\<close>\<close>
  stdout :: string
  requests :: "u8 list list"   \<comment> \<open>history: the requests composed and the replies printed\<close>
  handled :: "printed list"
  consumed :: "u8 list"        \<comment> \<open>history: the bytes read\<close>

text \<open>When the receive thread starts, after an accepted login that left \<open>rest\<close> in the stream.\<close>

definition ClientProcess_init :: "u8 list \<Rightarrow> ClientProcess" where
  "ClientProcess_init rest =
     \<lparr>client = Client_init, main_pc = Loop_top, recv_pc = R_top, incoming = rest, ended = False, outgoing = [],
      stdout = usage, requests = [], handled = [], consumed = []\<rparr>"

text \<open>\<open>n\<close> is the result of \<^verbatim>\<open>sendRaw\<close>.\<close>

definition sendMsg :: "int \<Rightarrow> u8 list \<Rightarrow> bool" where
  "sendMsg n msg \<longleftrightarrow> n = int (length msg)"

definition request_of :: "client_action \<Rightarrow> u8 list list" where
  "request_of a = (case a of Request bs \<Rightarrow> [bs] | _ \<Rightarrow> [])"

definition signalHandler :: "Client \<Rightarrow> Client" where
  "signalHandler c = c\<lparr>gRunning := False\<rparr>"

text \<open>One line of input in the command loop.\<close>

definition mainLine :: "int \<Rightarrow> string \<Rightarrow> ClientProcess \<Rightarrow> ClientProcess" where
  "mainLine n line s =
     (let bs = concat (request_of (command line (client s)));
          (c', a) = commandStep (sendMsg n bs) line (client s)
      in s\<lparr>client := c', stdout := stdout s @ echo line (client s), requests := requests s @ request_of a,
           outgoing := outgoing s @ take (nat n) bs,
           main_pc := (case a of Quit \<Rightarrow> Leaving | Request bs \<Rightarrow> if sendMsg n bs then Loop_top else Leaving | _ \<Rightarrow> Loop_top)\<rparr>)"

text \<open>\<open>n\<close> bytes are read into the header or the body; the next position when all have been.\<close>

definition after_header :: "u8 list \<Rightarrow> recv_pc" where
  "after_header got =
     (if length got < sizeof_MsgHeader then R_header got
      else let h = decode_MsgHeader got in if 0 < bodySize h \<and> bodySize h \<le> 256 then R_body h [] else R_switch h [])"

definition after_body :: "MsgHeader \<Rightarrow> u8 list \<Rightarrow> recv_pc" where
  "after_body h got = (if length got < unat (bodySize h) then R_body h got else R_switch h got)"

inductive main_step :: "ClientProcess \<Rightarrow> ClientProcess \<Rightarrow> bool" where
  main_prompt: "main_pc s = Loop_top \<Longrightarrow> gRunning (client s) \<Longrightarrow>
    main_step s (s\<lparr>main_pc := Reading, stdout := stdout s @ ''> ''\<rparr>)"
| main_stop: "main_pc s = Loop_top \<Longrightarrow> \<not> gRunning (client s) \<Longrightarrow> main_step s (s\<lparr>main_pc := Leaving\<rparr>)"
| main_eof: "main_pc s = Reading \<Longrightarrow> main_step s (s\<lparr>main_pc := Leaving\<rparr>)"
| main_line: "main_pc s = Reading \<Longrightarrow> n \<le> int (length (concat (request_of (command line (client s))))) \<Longrightarrow>
    main_step s (mainLine n line s)"
| main_shutdown: "main_pc s = Leaving \<Longrightarrow> main_step s (s\<lparr>main_pc := Joining, ended := True\<rparr>)"
| main_join: "main_pc s = Joining \<Longrightarrow> recv_pc s = R_done \<Longrightarrow>
    main_step s (s\<lparr>main_pc := Exited, stdout := stdout s @ newline @ ''Client exiting.'' @ newline\<rparr>)"

inductive recv_step :: "ClientProcess \<Rightarrow> ClientProcess \<Rightarrow> bool" where
  recv_loop: "recv_pc s = R_top \<Longrightarrow>
    recv_step s (s\<lparr>recv_pc := (if gRunning (client s) then R_header [] else R_done)\<rparr>)"
| recv_header: "recv_pc s = R_header got \<Longrightarrow> 0 < n \<Longrightarrow> n \<le> sizeof_MsgHeader - length got \<Longrightarrow> n \<le> length (incoming s) \<Longrightarrow>
    recv_step s (s\<lparr>recv_pc := after_header (got @ take n (incoming s)), incoming := drop n (incoming s),
      consumed := consumed s @ take n (incoming s)\<rparr>)"
| recv_no_header: "recv_pc s = R_header got \<Longrightarrow> ended s \<Longrightarrow>
    recv_step s (s\<lparr>recv_pc := R_done, client := (client s)\<lparr>gRunning := False\<rparr>,
      stdout := stdout s @ printed_text P_disconnected\<rparr>)"
| recv_body: "recv_pc s = R_body h got \<Longrightarrow> 0 < n \<Longrightarrow> n \<le> unat (bodySize h) - length got \<Longrightarrow> n \<le> length (incoming s) \<Longrightarrow>
    recv_step s (s\<lparr>recv_pc := after_body h (got @ take n (incoming s)), incoming := drop n (incoming s),
      consumed := consumed s @ take n (incoming s)\<rparr>)"
| recv_no_body: "recv_pc s = R_body h got \<Longrightarrow> ended s \<Longrightarrow>
    recv_step s (s\<lparr>recv_pc := R_switch h got, client := (client s)\<lparr>gRunning := False\<rparr>\<rparr>)"
| recv_print: "recv_pc s = R_switch h body \<Longrightarrow> handleReply h body (client s) = Some (c', p) \<Longrightarrow>
    recv_step s (s\<lparr>recv_pc := R_note p, stdout := stdout s @ printed_text p, handled := handled s @ [p]\<rparr>)"
| recv_uninitialised: "recv_pc s = R_switch h body \<Longrightarrow> handleReply h body (client s) = None \<Longrightarrow>
    recv_step s (s\<lparr>recv_pc := R_undefined\<rparr>)"
| recv_note: "recv_pc s = R_note p \<Longrightarrow>
    recv_step s (s\<lparr>recv_pc := R_top,
      client := (client s)\<lparr>internalToExchange := note_reply p (internalToExchange (client s))\<rparr>\<rparr>)"

inductive client_step :: "ClientProcess \<Rightarrow> ClientProcess \<Rightarrow> bool" where
  by_main: "main_step s s' \<Longrightarrow> client_step s s'"
| by_recv: "recv_step s s' \<Longrightarrow> client_step s s'"
| arrive: "\<not> ended s \<Longrightarrow> client_step s (s\<lparr>incoming := incoming s @ bs\<rparr>)"
| server_ends: "client_step s (s\<lparr>ended := True\<rparr>)"
| interrupt: "client_step s (s\<lparr>client := signalHandler (client s)\<rparr>)"

abbreviation client_reach :: "u8 list \<Rightarrow> nat \<Rightarrow> ClientProcess \<Rightarrow> bool" where
  "client_reach rest \<equiv> reach_in client_step (ClientProcess_init rest)"

text \<open>Between the test of \<^verbatim>\<open>exchId == 0\<close> and the message, the receive thread may enter other ids;
  the lookup under the mutex is the only access of a command to the table, so a line is one step.\<close>

lemma handleReply_note:
  "handleReply h body c = Some (c', p) \<Longrightarrow>
     c' = c\<lparr>internalToExchange := note_reply p (internalToExchange c)\<rparr>"
  by (auto simp: handleReply_def Let_def split: MsgType.splits Option.bind_splits)

section \<open>Requests name orders that were acknowledged\<close>

definition confirmed :: "printed list \<Rightarrow> OrderId \<Rightarrow> OrderId \<Rightarrow> bool" where
  "confirmed ps internalId exchId \<longleftrightarrow>
     (\<exists>msg. P_new_confirm msg \<in> set ps \<and> nc_clientOrderId msg = internalId \<and> nc_orderId msg = exchId)"

text \<open>A request that a client may send after having printed the replies \<open>ps\<close>.\<close>

definition known_request :: "printed list \<Rightarrow> u8 list \<Rightarrow> bool" where
  "known_request ps bs \<longleftrightarrow>
     (\<exists>i sy sd p q. bs = encode_NewOrderRequestMsg (newOrder i sy sd p q))
   \<or> (\<exists>i e sy p q. e \<noteq> 0 \<and> confirmed ps i e \<and> bs = encode_ModifyOrderRequestMsg (modifyRequest e sy p q))
   \<or> (\<exists>i e sy. e \<noteq> 0 \<and> confirmed ps i e \<and> bs = encode_CancelOrderRequestMsg (cancelRequest e sy))"

lemma confirmed_append: "confirmed ps i e \<Longrightarrow> confirmed (ps @ qs) i e"
  by (auto simp: confirmed_def)

lemma known_request_append: "known_request ps bs \<Longrightarrow> known_request (ps @ qs) bs"
  unfolding known_request_def by (blast intro: confirmed_append)

lemma note_reply_confirmed: "fold note_reply ps Map.empty i = Some e \<Longrightarrow> confirmed ps i e"
proof (induction ps rule: rev_induct)
  case (snoc p ps)
  then show ?case
    by (cases p) (auto simp: confirmed_def split: if_splits)
qed simp

lemma lookup_confirmed:
  assumes "internalToExchange c = fold note_reply ps Map.empty" "lookupExchangeId i c \<noteq> 0"
  shows "confirmed ps i (lookupExchangeId i c)"
  using assms note_reply_confirmed [of ps i] by (auto simp: lookupExchangeId_def split: option.splits)

text \<open>A command sends at most one request, and that names an entry of the table.\<close>

lemma command_known:
  assumes "command line c = Request bs" "internalToExchange c = fold note_reply ps Map.empty"
  shows "known_request ps bs"
proof -
  consider ss where "cmdNew ss = Request bs" | ss where "cmdModify ss c = Request bs" | ss where "cmdCancel ss c = Request bs"
    using assms(1) by (auto simp: command_def split: option.splits if_splits)
  then show ?thesis
  proof cases
    case 1
    then obtain i sy sd p q where "bs = encode_NewOrderRequestMsg (newOrder i sy sd p q)"
      by (auto simp: cmdNew_def or_invalid_def split: option.splits Option.bind_splits)
    then show ?thesis unfolding known_request_def by blast
  next
    case 2
    then obtain i sy p q where "lookupExchangeId i c \<noteq> 0" "bs = encode_ModifyOrderRequestMsg (modifyRequest (lookupExchangeId i c) sy p q)"
      by (auto simp: cmdModify_def or_invalid_def Let_def split: option.splits Option.bind_splits if_splits)
    then show ?thesis using lookup_confirmed [OF assms(2)] unfolding known_request_def by blast
  next
    case 3
    then obtain i sy where "lookupExchangeId i c \<noteq> 0" "bs = encode_CancelOrderRequestMsg (cancelRequest (lookupExchangeId i c) sy)"
      by (auto simp: cmdCancel_def or_invalid_def Let_def split: option.splits Option.bind_splits if_splits)
    then show ?thesis using lookup_confirmed [OF assms(2)] unfolding known_request_def by blast
  qed
qed

text \<open>The table holds the replies entered so far; the bytes sent are whole requests until the command
  loop has been left.\<close>

definition table_ok :: "ClientProcess \<Rightarrow> bool" where
  "table_ok s \<longleftrightarrow> (case recv_pc s of
     R_note p \<Rightarrow> (\<exists>ps. handled s = ps @ [p] \<and> internalToExchange (client s) = fold note_reply ps Map.empty)
   | _ \<Rightarrow> internalToExchange (client s) = fold note_reply (handled s) Map.empty)"

definition sent_ok :: "ClientProcess \<Rightarrow> bool" where
  "sent_ok s \<longleftrightarrow> (\<exists>rest. concat (requests s) = outgoing s @ rest \<and> (main_pc s \<in> {Loop_top, Reading} \<longrightarrow> rest = []))"

definition client_inv :: "ClientProcess \<Rightarrow> bool" where
  "client_inv s \<longleftrightarrow> table_ok s \<and> sent_ok s \<and> list_all (known_request (handled s)) (requests s)
     \<and> (main_pc s = Joining \<longrightarrow> ended s)"

lemma table_ok_known:
  assumes "table_ok s" "command line (client s) = Request bs"
  shows "known_request (handled s) bs"
proof (cases "\<exists>p. recv_pc s = R_note p")
  case True
  with assms(1) obtain p ps where "handled s = ps @ [p]" "internalToExchange (client s) = fold note_reply ps Map.empty"
    by (auto simp: table_ok_def)
  with command_known [OF assms(2)] known_request_append [of ps bs "[p]"] show ?thesis by simp
next
  case False
  with assms have "internalToExchange (client s) = fold note_reply (handled s) Map.empty"
    by (auto simp: table_ok_def split: recv_pc.splits)
  with command_known [OF assms(2)] show ?thesis by simp
qed

lemma client_inv_line:
  assumes "client_inv s" "main_pc s = Reading"
  shows "client_inv (mainLine n line s)"
proof (cases "\<exists>bs. command line (client s) = Request bs")
  case True
  then obtain bs where bs: "command line (client s) = Request bs" by blast
  have "known_request (handled s) bs" using assms(1) table_ok_known [OF _ bs] by (simp add: client_inv_def)
  moreover have "\<exists>rest. bs = take (nat n) bs @ rest" by (metis append_take_drop_id)
  ultimately show ?thesis using assms bs
    by (auto simp: client_inv_def table_ok_def sent_ok_def mainLine_def commandStep_def request_of_def sendMsg_def
        split: recv_pc.splits)
next
  case False
  with assms show ?thesis
    by (auto simp: client_inv_def table_ok_def sent_ok_def mainLine_def commandStep_def request_of_def
        split: client_action.splits recv_pc.splits)
qed

lemma client_inv_main: "main_step s s' \<Longrightarrow> client_inv s \<Longrightarrow> client_inv s'"
  by (cases rule: main_step.cases)
    (auto simp: client_inv_line, auto simp: client_inv_def table_ok_def sent_ok_def split: recv_pc.splits)

lemma list_all_known_append:
  "list_all (known_request ps) bss \<Longrightarrow> list_all (known_request (ps @ qs)) bss"
  by (auto simp: list_all_iff known_request_append)

lemma client_inv_recv: "recv_step s s' \<Longrightarrow> client_inv s \<Longrightarrow> client_inv s'"
  by (cases rule: recv_step.cases)
    (auto simp: client_inv_def table_ok_def sent_ok_def after_header_def after_body_def Let_def list_all_known_append)

lemma client_inv_step: "client_step s s' \<Longrightarrow> client_inv s \<Longrightarrow> client_inv s'"
  by (cases rule: client_step.cases)
    (auto simp: client_inv_main client_inv_recv, auto simp: client_inv_def table_ok_def sent_ok_def signalHandler_def split: recv_pc.splits)

lemma client_inv_init: "client_inv (ClientProcess_init rest)"
  by (simp add: client_inv_def ClientProcess_init_def Client_init_def table_ok_def sent_ok_def)

interpretation client: counted_invariant client_step "ClientProcess_init rest" "\<lambda>_. client_inv" n for rest n
  by unfold_locales (auto intro: client_inv_init client_inv_step)

section \<open>The receive thread reads what the receive loop reads\<close>

text \<open>\<open>read_as pre ps\<close>: the receive loop reads \<open>pre\<close> as exactly the replies \<open>ps\<close>, however the socket
  splits it.\<close>

definition read_as :: "u8 list \<Rightarrow> printed list \<Rightarrow> bool" where
  "read_as pre ps \<longleftrightarrow> (\<forall>k rest c. fair_recv k \<longrightarrow> gRunning c \<longrightarrow>
     recvSteps (length ps) k (pre @ rest) c = Some (c\<lparr>internalToExchange := fold note_reply ps (internalToExchange c)\<rparr>, rest, ps))"

lemma read_as_Nil: "read_as [] []"
  by (simp add: read_as_def)

lemma recvSteps_append:
  assumes "recvSteps m k bs c = Some (c1, bs1, ps1)" "gRunning c1" "recvSteps n k bs1 c1 = Some (c2, bs2, ps2)"
  shows "recvSteps (m + n) k bs c = Some (c2, bs2, ps1 @ ps2)"
  using assms
proof (induction m arbitrary: bs c ps1)
  case (Suc m)
  then show ?case by (auto split: if_splits Option.bind_splits)
qed simp

lemma read_as_snoc: "read_as pre ps \<Longrightarrow> reads_as bs p \<Longrightarrow> read_as (pre @ bs) (ps @ [p])"
  unfolding read_as_def
proof (intro allI impI)
  fix k rest and c :: Client
  let ?c = "c\<lparr>internalToExchange := fold note_reply ps (internalToExchange c)\<rparr>"
  assume pre: "\<forall>k rest c. fair_recv k \<longrightarrow> gRunning c \<longrightarrow> recvSteps (length ps) k (pre @ rest) c
      = Some (c\<lparr>internalToExchange := fold note_reply ps (internalToExchange c)\<rparr>, rest, ps)"
    and bs: "reads_as bs p" and k: "fair_recv k" and run: "gRunning c"
  have "recvIteration k (bs @ rest) ?c = Some (?c\<lparr>internalToExchange := note_reply p (internalToExchange ?c)\<rparr>, rest, [p])"
    using bs k unfolding reads_as_def by blast
  then have "recvSteps 1 k (bs @ rest) ?c = Some (?c\<lparr>internalToExchange := note_reply p (internalToExchange ?c)\<rparr>, rest, [p])"
    using run by simp
  from recvSteps_append [OF pre [rule_format, OF k run, of "bs @ rest"] _ this] run
  show "recvSteps (length (ps @ [p])) k ((pre @ bs) @ rest) c
      = Some (c\<lparr>internalToExchange := fold note_reply (ps @ [p]) (internalToExchange c)\<rparr>, rest, ps @ [p])" by simp
qed

text \<open>The bytes of a header followed by those of its body.\<close>

definition whole_message :: "MsgHeader \<Rightarrow> u8 list \<Rightarrow> u8 list \<Rightarrow> bool" where
  "whole_message h hb body \<longleftrightarrow> length hb = sizeof_MsgHeader \<and> decode_MsgHeader hb = h
     \<and> length body = (if 0 < bodySize h \<and> bodySize h \<le> 256 then unat (bodySize h) else 0)"

lemma handleReply_other_client:
  "handleReply h body c = Some (c', p) \<Longrightarrow>
     handleReply h body d = Some (d\<lparr>internalToExchange := note_reply p (internalToExchange d)\<rparr>, p)"
  by (auto simp: handleReply_def Let_def split: MsgType.splits Option.bind_splits)

lemma whole_message_reads_as:
  assumes "whole_message h hb body" "handleReply h body c = Some (c', p)"
  shows "reads_as (hb @ body) p"
proof (rule reads_asI)
  fix k rest and d :: Client
  assume k: "fair_recv k"
  have "recvAll k sizeof_MsgHeader (hb @ body @ rest) = Inr (hb, body @ rest)"
    using assms(1) by (intro recvAll_append [OF k]) (simp add: whole_message_def)
  moreover have "recvAll k (unat (bodySize h)) (body @ rest) = Inr (body, rest)" if "0 < bodySize h \<and> bodySize h \<le> 256"
    using assms(1) that by (intro recvAll_append [OF k]) (simp add: whole_message_def)
  ultimately show "recvIteration k ((hb @ body) @ rest) d
      = Some (d\<lparr>internalToExchange := note_reply p (internalToExchange d)\<rparr>, rest, [p])"
    using assms(1) handleReply_other_client [OF assms(2), of d]
    by (auto simp: recvIteration_def whole_message_def Let_def)
qed

text \<open>Where the receive thread is in the stream, while the client runs.\<close>

fun stream_at :: "recv_pc \<Rightarrow> u8 list \<Rightarrow> printed list \<Rightarrow> bool" where
  "stream_at R_top bs ps \<longleftrightarrow> read_as bs ps"
| "stream_at (R_header got) bs ps \<longleftrightarrow> (\<exists>pre. bs = pre @ got \<and> length got < sizeof_MsgHeader \<and> read_as pre ps)"
| "stream_at (R_body h got) bs ps \<longleftrightarrow> (\<exists>pre hb. bs = pre @ hb @ got \<and> length hb = sizeof_MsgHeader \<and> decode_MsgHeader hb = h
     \<and> 0 < bodySize h \<and> bodySize h \<le> 256 \<and> length got < unat (bodySize h) \<and> read_as pre ps)"
| "stream_at (R_switch h body) bs ps \<longleftrightarrow> (\<exists>pre hb. bs = pre @ hb @ body \<and> whole_message h hb body \<and> read_as pre ps)"
| "stream_at (R_note p) bs ps \<longleftrightarrow> read_as bs ps"
| "stream_at R_done bs ps \<longleftrightarrow> False"
| "stream_at R_undefined bs ps \<longleftrightarrow> (\<exists>pre got. bs = pre @ got \<and> read_as pre ps)"

definition stream_inv :: "ClientProcess \<Rightarrow> bool" where
  "stream_inv s \<longleftrightarrow> (gRunning (client s) \<longrightarrow> stream_at (recv_pc s) (consumed s) (handled s))"

lemma stream_at_header:
  assumes "stream_at (R_header got) bs ps" "length (got @ new) \<le> sizeof_MsgHeader"
  shows "stream_at (after_header (got @ new)) (bs @ new) ps"
proof -
  obtain pre where pre: "bs = pre @ got" "read_as pre ps" using assms(1) by auto
  then have "bs @ new = pre @ (got @ new)" by simp
  with pre(2) assms(2) show ?thesis
    by (cases "length (got @ new) < sizeof_MsgHeader")
      (fastforce simp: after_header_def Let_def whole_message_def word_less_nat_alt)+
qed

lemma stream_at_body:
  assumes "stream_at (R_body h got) bs ps" "length (got @ new) \<le> unat (bodySize h)"
  shows "stream_at (after_body h (got @ new)) (bs @ new) ps"
proof -
  obtain pre hb where pre: "bs = pre @ hb @ got" "length hb = sizeof_MsgHeader" "decode_MsgHeader hb = h"
    "0 < bodySize h" "bodySize h \<le> 256" "read_as pre ps"
    using assms(1) by auto
  then have "bs @ new = pre @ hb @ (got @ new)" by simp
  with pre(2-) assms(2) show ?thesis
    by (cases "length (got @ new) < unat (bodySize h)") (fastforce simp: after_body_def whole_message_def)+
qed

lemma stream_at_switch:
  assumes "stream_at (R_switch h body) bs ps" "handleReply h body c = Some (c', p)"
  shows "stream_at (R_note p) bs (ps @ [p])"
  using assms(1) read_as_snoc whole_message_reads_as [OF _ assms(2)] by fastforce

lemma stream_inv_recv: "recv_step s s' \<Longrightarrow> stream_inv s \<Longrightarrow> stream_inv s'"
proof (induction rule: recv_step.induct)
  case (recv_loop s)
  then show ?case by (auto simp: stream_inv_def sizeof_MsgHeader_def)
next
  case (recv_header s got n)
  then have "stream_at (R_header got) (consumed s) (handled s) \<Longrightarrow> length (got @ take n (incoming s)) \<le> sizeof_MsgHeader" by auto
  with recv_header show ?case by (auto simp: stream_inv_def stream_at_header simp del: stream_at.simps)
next
  case (recv_body s h got n)
  then have "stream_at (R_body h got) (consumed s) (handled s) \<Longrightarrow> length (got @ take n (incoming s)) \<le> unat (bodySize h)" by auto
  with recv_body show ?case by (auto simp: stream_inv_def stream_at_body simp del: stream_at.simps)
next
  case (recv_print s h body c' p)
  then show ?case by (auto simp: stream_inv_def stream_at_switch simp del: stream_at.simps)
qed (auto simp: stream_inv_def)

lemma stream_inv_main: "main_step s s' \<Longrightarrow> stream_inv s \<Longrightarrow> stream_inv s'"
  by (cases rule: main_step.cases)
    (auto simp: stream_inv_def mainLine_def Let_def commandStep_def split: client_action.splits if_splits)

lemma stream_inv_step: "client_step s s' \<Longrightarrow> stream_inv s \<Longrightarrow> stream_inv s'"
  by (cases rule: client_step.cases) (auto simp: stream_inv_main stream_inv_recv, auto simp: stream_inv_def signalHandler_def)

interpretation stream: counted_invariant client_step "ClientProcess_init rest" "\<lambda>_. stream_inv" n for rest n
  by unfold_locales (simp add: stream_inv_def ClientProcess_init_def read_as_Nil, rule stream_inv_step)

section \<open>Leaving\<close>

text \<open>A step of one of the client's own threads.\<close>

definition thread_step :: "ClientProcess \<Rightarrow> ClientProcess \<Rightarrow> bool" where
  "thread_step s s' \<longleftrightarrow> main_step s s' \<or> recv_step s s'"

fun recv_phase :: "recv_pc \<Rightarrow> nat" where
  "recv_phase R_done = 0" | "recv_phase R_undefined = 0" | "recv_phase (R_header got) = 1" | "recv_phase R_top = 2"
| "recv_phase (R_note p) = 3" | "recv_phase (R_switch h body) = 4" | "recv_phase (R_body h got) = 5"

fun main_phase :: "main_pc \<Rightarrow> nat" where
  "main_phase Exited = 0" | "main_phase Joining = 1" | "main_phase Leaving = 2" | "main_phase Reading = 3" | "main_phase Loop_top = 4"

text \<open>How many steps the threads can take at most before the process has ended, once the command loop
  has been left.\<close>

definition steps_left :: "ClientProcess \<Rightarrow> nat" where
  "steps_left s = 6 * length (incoming s) + recv_phase (recv_pc s) + main_phase (main_pc s)"

lemma phase_after: "recv_phase (after_header got) \<le> 5" "recv_phase (after_body h got) \<le> 5"
  by (auto simp: after_header_def after_body_def Let_def)

lemma recv_step_decreases:
  assumes "recv_step s s'"
  shows "main_pc s' = main_pc s \<and> 6 * length (incoming s') + recv_phase (recv_pc s') < 6 * length (incoming s) + recv_phase (recv_pc s)"
  using assms
proof (cases rule: recv_step.cases)
  case (recv_header got n)
  then show ?thesis using phase_after(1) [of "got @ take n (incoming s)"] by simp
next
  case (recv_body h got n)
  then show ?thesis using phase_after(2) [of h "got @ take n (incoming s)"] by simp
qed auto

lemma thread_step_decreases:
  assumes "thread_step s s'" "main_pc s \<notin> {Loop_top, Reading}"
  shows "steps_left s' < steps_left s \<and> main_pc s' \<notin> {Loop_top, Reading}"
proof -
  consider "main_step s s'" | "recv_step s s'" using assms(1) by (auto simp: thread_step_def)
  then show ?thesis
  proof cases
    case 1
    then show ?thesis using assms(2) by (cases rule: main_step.cases) (auto simp: steps_left_def)
  next
    case 2
    then show ?thesis using assms(2) recv_step_decreases [of s s'] by (simp add: steps_left_def)
  qed
qed

lemma thread_run_bounded:
  "reach_in thread_step s n s' \<Longrightarrow> main_pc s \<notin> {Loop_top, Reading} \<Longrightarrow>
     n + steps_left s' \<le> steps_left s \<and> main_pc s' \<notin> {Loop_top, Reading}"
proof (induction rule: reach_in.induct)
  case (reach_next n s1 s2)
  then show ?case using thread_step_decreases [of s1 s2] by fastforce
qed simp

lemma thread_run_inv: "reach_in thread_step s n s' \<Longrightarrow> client_inv s \<Longrightarrow> client_inv s'"
  by (induction rule: reach_in.induct) (auto simp: thread_step_def client_inv_main client_inv_recv)

text \<open>A process that cannot go on has exited, or has read bytes it never received.\<close>

lemma recv_enabled: "ended s \<Longrightarrow> recv_pc s \<notin> {R_done, R_undefined} \<Longrightarrow> \<exists>s'. recv_step s s'"
proof (cases "recv_pc s")
  case (R_switch h body)
  then show ?thesis
    using recv_print [OF R_switch] recv_uninitialised [OF R_switch] by (cases "handleReply h body (client s)") auto
qed (auto intro: recv_loop recv_no_header recv_no_body recv_note)

lemma stuck_exited:
  assumes "client_inv s" "main_pc s \<notin> {Loop_top, Reading}" "\<not> (\<exists>s'. thread_step s s')"
  shows "main_pc s = Exited \<or> recv_pc s = R_undefined"
proof -
  have "main_pc s \<noteq> Leaving" using assms(3) main_shutdown [of s] by (auto simp: thread_step_def)
  moreover have "recv_pc s = R_undefined" if "main_pc s = Joining"
  proof -
    have "recv_pc s \<noteq> R_done" using assms(3) main_join [of s] that by (auto simp: thread_step_def)
    moreover have "ended s" using assms(1) that by (simp add: client_inv_def)
    ultimately show ?thesis using recv_enabled [of s] assms(3) by (auto simp: thread_step_def)
  qed
  ultimately show ?thesis using assms(2) by (cases "main_pc s") auto
qed

text \<open>Once \<^verbatim>\<open>gRunning\<close> is cleared, only a line the command loop is already waiting for is still handled.\<close>

definition pending_line :: "ClientProcess \<Rightarrow> nat" where
  "pending_line s = of_bool (main_pc s = Reading)"

lemma client_step_stopped:
  assumes "client_step s s'" "\<not> gRunning (client s)"
  shows "\<not> gRunning (client s') \<and> length (requests s') + pending_line s' \<le> length (requests s) + pending_line s"
proof -
  have main: "?thesis" if "main_step s s'"
    using that assms(2)
    by (cases rule: main_step.cases)
      (auto simp: pending_line_def mainLine_def Let_def commandStep_def request_of_def split: client_action.splits if_splits)
  have recv: "?thesis" if "recv_step s s'"
    using that assms(2) by (cases rule: recv_step.cases) (auto simp: pending_line_def)
  show ?thesis
    using assms by (cases rule: client_step.cases) (auto simp: main recv, auto simp: pending_line_def signalHandler_def)
qed

lemma client_run_stopped:
  assumes "reach_in client_step s n s'" "\<not> gRunning (client s)"
  shows "length (requests s') \<le> length (requests s) + 1"
proof -
  have "\<not> gRunning (client s') \<and> length (requests s') + pending_line s' \<le> length (requests s) + pending_line s"
    using assms by (induction rule: reach_in.induct) (auto dest: client_step_stopped order_trans)
  then show ?thesis by (auto simp: pending_line_def of_bool_def split: if_splits)
qed

section \<open>Theorems\<close>

text \<open>
  C16. The client only names orders the exchange has acknowledged: whatever is typed, whatever bytes
  arrive and however the two threads, the network and signals interleave, every request the client
  has composed is a new order, or a modify or cancel whose non-zero exchange id came with the
  confirmation of a new order that the client had printed; and what it has sent is a prefix of its
  requests, so a send that fails half-way is the last one.
\<close>

theorem client_sends_known_ids:
  assumes "client_reach rest n s"
  shows "list_all (known_request (handled s)) (requests s) \<and> (\<exists>unsent. concat (requests s) = outgoing s @ unsent)"
proof -
  have "client_inv s" by (rule client.reach_inv [OF assms order_refl])
  then show ?thesis by (auto simp: client_inv_def sent_ok_def)
qed

text \<open>
  C10. The receive thread, reading from the socket piece by piece while commands run beside it,
  implements the sequential receive loop: whenever a running client is back at the loop condition,
  the sequential loop reads the bytes taken from the socket as exactly the replies the client has
  printed, and builds exactly its table.
\<close>

theorem receive_thread_refines:
  assumes "client_reach rest n s" and "gRunning (client s)" and "recv_pc s = R_top" and "fair_recv k"
  shows "recvSteps (length (handled s)) k (consumed s @ later) Client_init
    = Some (Client_init\<lparr>internalToExchange := internalToExchange (client s)\<rparr>, later, handled s)"
proof -
  have "client_inv s" "stream_inv s"
    using client.reach_inv [OF assms(1) order_refl] stream.reach_inv [OF assms(1) order_refl] by simp_all
  then have "read_as (consumed s) (handled s)" "internalToExchange (client s) = fold note_reply (handled s) Map.empty"
    using assms(2,3) by (auto simp: stream_inv_def client_inv_def table_ok_def)
  moreover have "gRunning Client_init" "internalToExchange Client_init = Map.empty" by (simp_all add: Client_init_def)
  ultimately show ?thesis using assms(4) by (simp add: read_as_def)
qed

text \<open>
  C32. The client stops: once \<^verbatim>\<open>gRunning\<close> is cleared at most one more request is composed; and from any
  reachable state in which the command loop has been left, its threads can take only boundedly many
  more steps, and when they can take none the process has exited, unless the receive thread has read
  bytes it never received.
\<close>

theorem client_exits:
  assumes "client_reach rest n s"
  shows "(\<not> gRunning (client s) \<longrightarrow> reach_in client_step s m s' \<longrightarrow> length (requests s') \<le> length (requests s) + 1)
    \<and> (main_pc s \<in> {Leaving, Joining} \<longrightarrow> reach_in thread_step s m s' \<longrightarrow>
         m \<le> steps_left s \<and> ((\<exists>s''. thread_step s' s'') \<or> main_pc s' = Exited \<or> recv_pc s' = R_undefined))"
proof -
  have inv: "client_inv s" by (rule client.reach_inv [OF assms order_refl])
  have "m \<le> steps_left s \<and> ((\<exists>s''. thread_step s' s'') \<or> main_pc s' = Exited \<or> recv_pc s' = R_undefined)"
    if "main_pc s \<in> {Leaving, Joining}" "reach_in thread_step s m s'"
  proof -
    have "m + steps_left s' \<le> steps_left s" "main_pc s' \<notin> {Loop_top, Reading}"
      using thread_run_bounded [OF that(2)] that(1) by auto
    moreover have "client_inv s'" by (rule thread_run_inv [OF that(2) inv])
    ultimately show ?thesis using stuck_exited [of s'] by auto
  qed
  then show ?thesis using client_run_stopped [of s m s'] by blast
qed

section \<open>A session\<close>

text \<open>The exchange acknowledges order 7 with exchange id 1; then ``C, 7, 1'' is typed and the command
  loop meets the end of the input.\<close>

definition sample_reply :: NewOrderConfirmMsg where
  "sample_reply =
     \<lparr>nc_header = \<lparr>header_length = 19, header_type = NewOrderConfirm\<rparr>, nc_clientOrderId = 7, nc_orderId = 1\<rparr>"

definition reply_bytes :: "u8 list" where
  "reply_bytes = encode_NewOrderConfirmMsg sample_reply"

definition acknowledged_state :: ClientProcess where
  "acknowledged_state =
     \<lparr>client = \<lparr>gRunning = True, internalToExchange = [7 \<mapsto> 1]\<rparr>, main_pc = Loop_top, recv_pc = R_top, incoming = [],
      ended = False, outgoing = [], stdout = usage @ printed_text (P_new_confirm sample_reply), requests = [],
      handled = [P_new_confirm sample_reply], consumed = reply_bytes\<rparr>"

definition cancelled_state :: ClientProcess where
  "cancelled_state =
     (let c = \<lparr>gRunning = True, internalToExchange = [7 \<mapsto> 1]\<rparr>; bs = encode_CancelOrderRequestMsg (cancelRequest 1 1)
      in \<lparr>client = c, main_pc = Loop_top, recv_pc = R_top, incoming = [], ended = False, outgoing = bs,
          stdout = usage @ printed_text (P_new_confirm sample_reply) @ ''> '' @ echo ''C, 7, 1'' c, requests = [bs],
          handled = [P_new_confirm sample_reply], consumed = reply_bytes\<rparr>)"

definition leaving_state :: ClientProcess where
  "leaving_state = cancelled_state\<lparr>stdout := stdout cancelled_state @ ''> '', main_pc := Leaving\<rparr>"

lemma reply_bytes_parts:
  "length reply_bytes = 19" "after_header (take 3 reply_bytes) = R_body (nc_header sample_reply) []"
  "unat (bodySize (nc_header sample_reply)) = 16"
  "after_body (nc_header sample_reply) (drop 3 reply_bytes) = R_switch (nc_header sample_reply) (drop 3 reply_bytes)"
  "handleReply (nc_header sample_reply) (drop 3 reply_bytes) Client_init
    = Some (Client_init\<lparr>internalToExchange := (\<lambda>x. None)(7 \<mapsto> 1)\<rparr>, P_new_confirm sample_reply)"
proof -
  show "length reply_bytes = 19" "after_header (take 3 reply_bytes) = R_body (nc_header sample_reply) []"
    "unat (bodySize (nc_header sample_reply)) = 16"
    "after_body (nc_header sample_reply) (drop 3 reply_bytes) = R_switch (nc_header sample_reply) (drop 3 reply_bytes)"
    by code_simp+
  have "assemble (nc_header sample_reply) (drop 3 reply_bytes) sizeof_NewOrderConfirmMsg = Some reply_bytes"
    "decode_NewOrderConfirmMsg reply_bytes = sample_reply" "header_type (nc_header sample_reply) = NewOrderConfirm" by code_simp+
  then show "handleReply (nc_header sample_reply) (drop 3 reply_bytes) Client_init
    = Some (Client_init\<lparr>internalToExchange := (\<lambda>x. None)(7 \<mapsto> 1)\<rparr>, P_new_confirm sample_reply)"
    by (simp add: handleReply_def Client_init_def sample_reply_def)
qed

lemma reach_by_recv: "client_reach rest n s \<Longrightarrow> recv_step s s' \<Longrightarrow> client_reach rest (Suc n) s'"
  by (blast intro: reach_next by_recv)

lemma reach_by_main: "client_reach rest n s \<Longrightarrow> main_step s s' \<Longrightarrow> client_reach rest (Suc n) s'"
  by (blast intro: reach_next by_main)

lemma acknowledged_reachable: "client_reach reply_bytes 5 acknowledged_state"
proof -
  let ?c = "\<lparr>gRunning = True, internalToExchange = Map.empty\<rparr>" and ?h = "nc_header sample_reply"
  let ?s = "\<lambda>rp inc out hd cons. \<lparr>client = ?c, main_pc = Loop_top, recv_pc = rp, incoming = inc, ended = False, outgoing = [],
      stdout = out, requests = [], handled = hd, consumed = cons\<rparr> :: ClientProcess"
  have "client_reach reply_bytes 0 (?s R_top reply_bytes usage [] [])"
    using reach_start [of client_step "ClientProcess_init reply_bytes"] by (simp add: ClientProcess_init_def Client_init_def)
  from reach_by_recv [OF this recv_loop] have "client_reach reply_bytes (Suc 0) (?s (R_header []) reply_bytes usage [] [])" by simp
  from reach_by_recv [OF this recv_header [where n = 3]] reply_bytes_parts(1,2)
  have "client_reach reply_bytes (Suc (Suc 0)) (?s (R_body ?h []) (drop 3 reply_bytes) usage [] (take 3 reply_bytes))"
    by (simp add: sizeof_MsgHeader_def)
  from reach_by_recv [OF this recv_body [where n = 16]] reply_bytes_parts(1,3,4)
  have "client_reach reply_bytes (Suc (Suc (Suc 0))) (?s (R_switch ?h (drop 3 reply_bytes)) [] usage [] reply_bytes)"
    by simp
  from reach_by_recv [OF this recv_print] reply_bytes_parts(5)
  have "client_reach reply_bytes 4 (?s (R_note (P_new_confirm sample_reply)) []
      (usage @ printed_text (P_new_confirm sample_reply)) [P_new_confirm sample_reply] reply_bytes)"
    by (simp add: Client_init_def eval_nat_numeral del: printed_text.simps)
  from reach_by_recv [OF this recv_note] show ?thesis
    by (simp add: acknowledged_state_def sample_reply_def del: printed_text.simps)
qed

lemma cancelled_reachable: "client_reach reply_bytes 7 cancelled_state"
proof -
  let ?c = "\<lparr>gRunning = True, internalToExchange = [7 \<mapsto> 1]\<rparr> :: Client" and ?bs = "encode_CancelOrderRequestMsg (cancelRequest 1 1)"
  have cmd: "command ''C, 7, 1'' ?c = Request ?bs" by code_simp
  have "mainLine (int (length ?bs)) ''C, 7, 1'' (acknowledged_state\<lparr>main_pc := Reading, stdout := stdout acknowledged_state @ ''> ''\<rparr>)
      = cancelled_state"
    by (simp add: mainLine_def acknowledged_state_def cancelled_state_def cmd commandStep_def request_of_def sendMsg_def Let_def
        del: printed_text.simps)
  moreover have "client_reach reply_bytes 6 (acknowledged_state\<lparr>main_pc := Reading, stdout := stdout acknowledged_state @ ''> ''\<rparr>)"
    using reach_by_main [OF acknowledged_reachable main_prompt] by (simp add: acknowledged_state_def del: printed_text.simps)
  from reach_by_main [OF this main_line [where n = "int (length ?bs)" and line = "''C, 7, 1''"]] cmd
  have "client_reach reply_bytes 7 (mainLine (int (length ?bs)) ''C, 7, 1''
      (acknowledged_state\<lparr>main_pc := Reading, stdout := stdout acknowledged_state @ ''> ''\<rparr>))"
    by (simp add: acknowledged_state_def request_of_def del: printed_text.simps)
  ultimately show ?thesis by simp
qed

lemma leaving_reachable: "client_reach reply_bytes 9 leaving_state"
proof -
  have "client_reach reply_bytes 8 (cancelled_state\<lparr>main_pc := Reading, stdout := stdout cancelled_state @ ''> ''\<rparr>)"
    using reach_by_main [OF cancelled_reachable main_prompt] by (simp add: cancelled_state_def Let_def del: printed_text.simps)
  from reach_by_main [OF this main_eof] show ?thesis by (simp add: leaving_state_def)
qed

theorem client_sends_known_ids_witness:
  "requests cancelled_state = [encode_CancelOrderRequestMsg (cancelRequest 1 1)]
    \<and> list_all (known_request (handled cancelled_state)) (requests cancelled_state)"
  using client_sends_known_ids [OF cancelled_reachable] by (simp add: cancelled_state_def Let_def)

theorem receive_thread_refines_witness:
  "recvSteps 1 (\<lambda>bs n. min n (length bs)) reply_bytes Client_init
    = Some (Client_init\<lparr>internalToExchange := [7 \<mapsto> 1]\<rparr>, [], [P_new_confirm sample_reply])"
proof -
  have "fair_recv (\<lambda>bs n. min n (length bs))" by (auto simp: fair_recv_def)
  from receive_thread_refines [OF acknowledged_reachable _ _ this, of "[]"] show ?thesis
    by (simp add: acknowledged_state_def del: recvSteps.simps)
qed

theorem client_exits_witness:
  "main_pc leaving_state = Leaving \<and> 1 \<le> steps_left leaving_state
    \<and> (\<exists>s. thread_step (leaving_state\<lparr>main_pc := Joining, ended := True\<rparr>) s)"
proof -
  let ?s = "leaving_state\<lparr>main_pc := Joining, ended := True\<rparr>"
  have l: "main_pc leaving_state = Leaving" "main_pc ?s \<noteq> Exited" "recv_pc ?s \<noteq> R_undefined"
    by (simp_all add: leaving_state_def cancelled_state_def Let_def)
  have "reach_in thread_step leaving_state 1 ?s"
    using reach_next [OF reach_start, of thread_step leaving_state ?s] main_shutdown [OF l(1)] by (simp add: thread_step_def)
  with client_exits [OF leaving_reachable, of 1 ?s] l show ?thesis by blast
qed

section \<open>A reply that is cut short\<close>

text \<open>The server ignores how much of a reply its non-blocking \<^verbatim>\<open>send\<close> took. If the acknowledgement above is
  cut after the client's own id and another reply follows, the client completes it with the first
  bytes of that reply and enters a wrong exchange id in its table.\<close>

lemma truncated_reply_misread:
  "case recvIteration (\<lambda>bs n. min n (length bs)) (take 11 reply_bytes @ reply_bytes) Client_init of
     Some (c, rest, ps) \<Rightarrow> lookupExchangeId 7 c = 118095891 \<and> rest = drop 8 reply_bytes
   | None \<Rightarrow> False"
  by code_simp

end
