(* ===== verification/Client_Exchange.thy ===== *)
theory Client_Exchange
  imports Composition Order_Ownership Client_Process
begin

text \<open>
  The client process against the server's matching thread: the client reads a prefix of what the
  thread has sent to its descriptor, so the ids it names in requests were issued to its own trader.
\<close>

section \<open>What the client has read of a stream of replies\<close>

lemma recvSteps_eof: "gRunning c \<Longrightarrow> recvSteps (Suc m) k [] c = Some (c\<lparr>gRunning := False\<rparr>, [], [P_disconnected])"
  by (cases m) (simp_all add: recvIteration_def recvAll_eof sizeof_MsgHeader_def)

text \<open>A stream is read in one way: the replies read from a prefix are the first of the whole.\<close>

lemma replies_unique:
  assumes bss: "list_all2 reads_as bss ps" and pre: "concat bss = pre @ rest" "read_as pre qs"
  shows "qs = take (length qs) ps"
proof -
  let ?k = "\<lambda>bs n. min n (length bs)" and ?n = "length qs"
  have k: "fair_recv ?k" "gRunning Client_init" by (auto simp: fair_recv_def Client_init_def)
  let ?t = "\<lambda>ps. Client_init\<lparr>internalToExchange := fold note_reply ps (internalToExchange Client_init)\<rparr>"
  have read: "recvSteps ?n ?k (concat bss) Client_init = Some (?t qs, rest, qs)"
    using pre k by (simp add: read_as_def)
  have len: "length bss = length ps" using bss by (rule list_all2_lengthD)
  show ?thesis
  proof (cases "?n \<le> length ps")
    case True
    have "concat bss = concat (take ?n bss) @ concat (drop ?n bss)" by (metis append_take_drop_id concat_append)
    moreover have "list_all2 reads_as (take ?n bss) (take ?n ps)" using bss by (rule list_all2_takeI)
    note recvSteps_replies [OF k(1) this k(2), of "concat (drop ?n bss)"]
    ultimately show ?thesis using read True by (simp del: concat_append)
  next
    case False
    then obtain m where m: "?n = length ps + Suc m" using less_imp_Suc_add not_le by (metis add_Suc_right)
    have "recvSteps (length ps) ?k (concat bss) Client_init = Some (?t ps, [], ps)"
      using recvSteps_replies [OF k(1) bss k(2), of "[]"] by simp
    from recvSteps_append [OF this _ recvSteps_eof] k(2)
    have "recvSteps ?n ?k (concat bss) Client_init = Some ((?t ps)\<lparr>gRunning := False\<rparr>, [], ps @ [P_disconnected])"
      by (simp add: m)
    with read have "?t qs = (?t ps)\<lparr>gRunning := False\<rparr>" by simp
    then have "gRunning (?t qs) = gRunning ((?t ps)\<lparr>gRunning := False\<rparr>)" by (rule arg_cong)
    with k(2) show ?thesis by simp
  qed
qed

lemma stream_inv_read:
  assumes "stream_inv s" "gRunning (client s)"
  obtains pre got where "ClientProcess.consumed s = pre @ got" "read_as pre (handled s)"
  using assms by (cases "recv_pc s") (auto simp: stream_inv_def)

text \<open>While the client runs, what it has printed are the first replies of its stream.\<close>

lemma handled_replies:
  assumes "client_reach rest n s" "gRunning (client s)" "list_all2 reads_as bss ps" "concat bss = ClientProcess.consumed s @ unread"
  shows "set (handled s) \<subseteq> set ps"
proof -
  have "stream_inv s" by (rule stream.reach_inv [OF assms(1) order_refl])
  then obtain pre got where "ClientProcess.consumed s = pre @ got" "read_as pre (handled s)" using assms(2) by (rule stream_inv_read)
  with replies_unique [OF assms(3), of pre "got @ unread"] assms(4) show ?thesis by (metis append_assoc set_take_subset)
qed

section \<open>What the server sends to a trader\<close>

text \<open>A descriptor that is registered, when it is, for trader \<open>t\<close>.\<close>

definition serves :: "int \<Rightarrow> TraderId \<Rightarrow> SessionManager \<Rightarrow> bool" where
  "serves fd t s \<longleftrightarrow> sessions_ok s \<and> (fd \<in> set (getAllFds s) \<longrightarrow> getTraderId fd s = t)"

lemma request_answers:
  assumes "serves fd t s" "list_all typed_confirm cs" "list_all typed_update ms"
  shows "\<exists>ps. list_all2 reads_as (sent_to fd (sendConfirms s cs @ multicast s ms)) ps
    \<and> (\<forall>m. P_new_confirm m \<in> set ps \<longrightarrow> issued cs (nc_orderId m) t)"
proof (cases "fd \<in> set (getAllFds s)")
  case True
  with assms(1) have s: "sessions_ok s" "getTraderId fd s = t" "0 \<le> fd"
    by (auto simp: serves_def sessions_ok_def getAllFds_iff)
  let ?ps = "map confirm_reply (filter (\<lambda>x. getFd (oc_traderId x) s = fd) cs) @ map update_reply ms"
  have "issued cs (nc_orderId m) t" if "P_new_confirm m \<in> set ?ps" for m
  proof -
    from that obtain c where c: "c \<in> set cs" "getFd (oc_traderId c) s = fd" "P_new_confirm m = confirm_reply c"
      by (auto simp: update_reply_def simp del: confirm_reply.simps)
    then have "oc_type c = NewAck" "nc_orderId m = oc_orderId c"
      by (auto simp: toNewOrderConfirmMsg_def split: ConfirmType.splits)
    with c(1,2) getFd_owner [OF s(1), of "oc_traderId c"] s(2,3) show ?thesis by (auto simp: issued_def)
  qed
  with request_replies [OF assms(2,3)] show ?thesis
    unfolding sent_to_request [OF s(1) True] by blast
next
  case False
  then have "sent_to fd (sendConfirms s cs @ multicast s ms) = []"
    using assms(1) send_targets [of s _ cs ms] by (auto simp: serves_def sent_to_def filter_empty_conv)
  then show ?thesis by (intro exI [of _ "[]"]) simp
qed

text \<open>Everything known of the matching thread after the confirmations \<open>cs\<close>.\<close>

definition thread_inv :: "OrderConfirm list \<Rightarrow> MatchingThread \<Rightarrow> bool" where
  "thread_inv cs th \<longleftrightarrow> thread_ok th \<and> engine_typed (engine th) \<and> engine_owned cs (engine th)"

lemma handleRaw_answers:
  assumes "thread_inv L th" "nextOrderId (engine th) \<noteq> - 1" "handleRaw now s raw th = Some (th', acts)"
  obtains cs where "thread_inv (L @ cs) th'"
    "serves fd t s \<longrightarrow> (\<exists>ps. list_all2 reads_as (sent_to fd acts) ps \<and> (\<forall>m. P_new_confirm m \<in> set ps \<longrightarrow> issued cs (nc_orderId m) t))"
proof (cases "parseRequest now raw")
  case None
  with assms(3) have "th' = th" "sent_to fd acts = []" by (simp_all add: handleRaw_def sent_to_def)
  with assms(1) that [of "[]"] show ?thesis by simp
next
  case (Some req)
  with assms(3) obtain g cs ms where d: "dispatch req (engine th) = Some (g, cs, ms)" "engine th' = g"
    "acts = sendConfirms s cs @ multicast s ms"
    by (auto simp: handleRaw_def split: Option.bind_splits)
  have inv: "engine_ok (engine th)" "engine_typed (engine th)" "engine_owned L (engine th)" "thread_ok th"
    using assms(1) by (simp_all add: thread_inv_def thread_ok_def)
  note ty = dispatch_typed [OF inv(1,2) parseRequest_typed [OF Some] d(1)]
  have "thread_ok th'" using handleRaw_ok [OF inv(4) assms(2), of now s raw] assms(3) by auto
  with ty dispatch_owned [OF inv(1) assms(2) inv(3) d(1)] have "thread_inv (L @ cs) th'" by (simp add: thread_inv_def d(2))
  with that request_answers [of fd t s cs ms] ty show ?thesis unfolding d(3) by blast
qed

lemma matchingRun_answers:
  "thread_inv L th \<Longrightarrow> unat (nextOrderId (engine th)) + length msgs + n < 2 ^ 64 \<Longrightarrow> matchingRun msgs th = Some (th', acts) \<Longrightarrow>
   \<exists>cs. thread_inv (L @ cs) th' \<and> unat (nextOrderId (engine th')) + n < 2 ^ 64 \<and> (list_all (\<lambda>(now, s, raw). serves fd t s) msgs \<longrightarrow>
     (\<exists>ps. list_all2 reads_as (sent_to fd acts) ps \<and> (\<forall>m. P_new_confirm m \<in> set ps \<longrightarrow> issued cs (nc_orderId m) t)))"
proof (induction msgs arbitrary: L th acts)
  case Nil
  then show ?case by (intro exI [of _ "[]"]) (simp add: sent_to_def)
next
  case (Cons x msgs)
  obtain now s raw where x: "x = (now, s, raw)" by (cases x)
  have "unat (- 1 :: OrderId) = 2 ^ 64 - 1" by (simp add: unsigned_minus_1_eq_mask mask_eq_exp_minus_1)
  with Cons.prems(2) have room: "nextOrderId (engine th) \<noteq> - 1" by auto
  obtain th1 acts1 where th1: "handleRaw now s raw th = Some (th1, acts1)" "unat (nextOrderId (engine th1)) + length msgs + n < 2 ^ 64"
    by (rule handleRaw_room [of th "length msgs + n" now s raw]) (use Cons.prems(1,2) in \<open>simp_all add: thread_inv_def\<close>)
  with Cons.prems(3) obtain acts2 where r: "matchingRun msgs th1 = Some (th', acts2)" "acts = acts1 @ acts2"
    by (auto simp: x split: Option.bind_splits)
  obtain cs1 where cs1: "thread_inv (L @ cs1) th1" "serves fd t s \<longrightarrow>
      (\<exists>ps. list_all2 reads_as (sent_to fd acts1) ps \<and> (\<forall>m. P_new_confirm m \<in> set ps \<longrightarrow> issued cs1 (nc_orderId m) t))"
    by (rule handleRaw_answers [OF Cons.prems(1) room th1(1), where fd = fd and t = t])
  from Cons.IH [OF cs1(1) th1(2) r(1)] obtain cs2 where cs2: "thread_inv (L @ cs1 @ cs2) th'" "unat (nextOrderId (engine th')) + n < 2 ^ 64"
    "list_all (\<lambda>(now, s, raw). serves fd t s) msgs \<Longrightarrow>
      \<exists>ps. list_all2 reads_as (sent_to fd acts2) ps \<and> (\<forall>m. P_new_confirm m \<in> set ps \<longrightarrow> issued cs2 (nc_orderId m) t)"
    by auto
  have "\<exists>ps. list_all2 reads_as (sent_to fd acts) ps \<and> (\<forall>m. P_new_confirm m \<in> set ps \<longrightarrow> issued (cs1 @ cs2) (nc_orderId m) t)"
    if all: "list_all (\<lambda>(now, s, raw). serves fd t s) (x # msgs)"
  proof -
    obtain ps1 ps2 where "list_all2 reads_as (sent_to fd acts1) ps1" "\<forall>m. P_new_confirm m \<in> set ps1 \<longrightarrow> issued cs1 (nc_orderId m) t"
      "list_all2 reads_as (sent_to fd acts2) ps2" "\<forall>m. P_new_confirm m \<in> set ps2 \<longrightarrow> issued cs2 (nc_orderId m) t"
      using cs1(2) cs2(3) all by (auto simp: x)
    then show ?thesis by (intro exI [of _ "ps1 @ ps2"]) (auto simp: r(2) sent_to_append intro: list_all2_appendI)
  qed
  with cs2(1,2) show ?case by blast
qed

section \<open>Requests as the server parses them\<close>

lemma parse_framed_modify:
  assumes "valid_ModifyOrderRequestMsg m" "header_type (mo_header m) = ModifyOrderRequest"
  shows "parseRequest now (makeRaw t (of_nat sizeof_ModifyOrderRequestMsg) (encode_ModifyOrderRequestMsg m)) = Some (toOrderRequest_modify now m t)"
proof -
  have "length (encode_ModifyOrderRequestMsg m) = sizeof_ModifyOrderRequestMsg" by (rule modify_order_msg.encode_length)
  then show ?thesis
    using assms by (simp add: parseRequest_def makeRaw_def modify_order_msg.decode_header modify_order_msg.decode_encode
        sizeof_MsgHeader_def sizeof_ModifyOrderRequestMsg_def)
qed

lemma valid_modifyRequest: "valid_ModifyOrderRequestMsg (modifyRequest e sy p q)" "header_type (mo_header (modifyRequest e sy p q)) = ModifyOrderRequest"
  by (simp_all add: modifyRequest_def valid_ModifyOrderRequestMsg_def valid_MsgHeader_def byte_msg_type_def)

text \<open>A request the client may send is parsed into a request of its trader, and one that names an order names
  one it was told of.\<close>

lemma known_request_parsed:
  assumes "known_request ps bs"
  obtains req where "parseRequest now (makeRaw t (of_nat (length bs)) bs) = Some req" "m_traderId req = t"
    "m_requestType req = New \<or> (\<exists>m. P_new_confirm m \<in> set ps \<and> nc_orderId m = m_orderId req)"
proof -
  have len: "length (encode_NewOrderRequestMsg n) = 24" "length (encode_CancelOrderRequestMsg c) = 15"
    "length (encode_ModifyOrderRequestMsg m) = sizeof_ModifyOrderRequestMsg" for n c m
    by (simp_all add: new_order_msg.encode_length sizeof_NewOrderRequestMsg_def cancel_order_msg.encode_length
        sizeof_CancelOrderRequestMsg_def modify_order_msg.encode_length)
  from assms consider i sy sd p q where "bs = encode_NewOrderRequestMsg (newOrder i sy sd p q)"
    | e sy p q where "bs = encode_ModifyOrderRequestMsg (modifyRequest e sy p q)" "\<exists>m. P_new_confirm m \<in> set ps \<and> nc_orderId m = e"
    | e sy where "bs = encode_CancelOrderRequestMsg (cancelRequest e sy)" "\<exists>m. P_new_confirm m \<in> set ps \<and> nc_orderId m = e"
    unfolding known_request_def confirmed_def by blast
  then show ?thesis
  proof cases
    case 1
    show ?thesis
      by (rule that [of "toOrderRequest_new now (newOrder i sy sd p q) t"])
        (simp_all add: 1 len parse_framed_new [OF valid_client_requests(1,2)], simp_all add: toOrderRequest_new_def)
  next
    case 2
    then show ?thesis
      by (intro that [of "toOrderRequest_modify now (modifyRequest e sy p q) t"])
        (simp_all add: len parse_framed_modify [OF valid_modifyRequest], simp_all add: toOrderRequest_modify_def modifyRequest_def)
  next
    case 3
    then show ?thesis
      by (intro that [of "toOrderRequest_cancel now (cancelRequest e sy) t"])
        (simp_all add: len parse_framed_cancel [OF valid_client_requests(3,4)], simp_all add: toOrderRequest_cancel_def cancelRequest_def)
  qed
qed

section \<open>Theorem\<close>

text \<open>
  C11. A client speaks only for its own orders: let the matching thread have handled any messages,
  and let a running client process have read any prefix of what was sent to its descriptor, which
  was registered, whenever it was, for trader \<open>t\<close>. However the client's threads, its user and signals
  interleave, and whatever the server handles afterwards, each request the client has composed is,
  when it arrives, parsed as a request of \<open>t\<close> and executed; and it is rejected only if the book it
  names holds no such order any more, never because the order is somebody else's.
\<close>

theorem client_requests_authorised:
  assumes "client_reach rest n cl" and "gRunning (client cl)" and "bs \<in> set (requests cl)"
    and "matchingRun msgs MatchingThread_init = Some (th, acts)" and "list_all (\<lambda>(now, s, raw). serves fd t s) msgs"
    and "concat (sent_to fd acts) = ClientProcess.consumed cl @ unread"
    and "matchingRun later th = Some (th', acts')" and "length msgs + length later < 2 ^ 64 - 2"
  shows "\<exists>req g cs ms. parseRequest now (makeRaw t (of_nat (length bs)) bs) = Some req \<and> m_traderId req = t
    \<and> dispatch req (engine th') = Some (g, cs, ms)
    \<and> (\<forall>b. rejects cs \<longrightarrow> books (engine th') (m_symbolId req) = Some b \<longrightarrow> owner b (m_orderId req) = None)"
proof -
  have init: "thread_inv [] MatchingThread_init"
    by (simp add: thread_inv_def thread_ok_init engine_typed_init engine_owned_init)
  have room: "unat (nextOrderId (engine MatchingThread_init)) + length msgs + (length later + 1) < 2 ^ 64"
    using assms(8) thread_ok_init(2) by simp
  from matchingRun_answers [OF init room assms(4), of fd t] assms(5) obtain cs1 ps where
    run1: "thread_inv cs1 th" "unat (nextOrderId (engine th)) + length later + 1 < 2 ^ 64"
      "list_all2 reads_as (sent_to fd acts) ps" "\<forall>m. P_new_confirm m \<in> set ps \<longrightarrow> issued cs1 (nc_orderId m) t"
    by auto
  from matchingRun_answers [OF run1(1,2) assms(7)] obtain cs2 where
    run2: "thread_inv (cs1 @ cs2) th'" "unat (nextOrderId (engine th')) + 1 < 2 ^ 64" by blast
  then have inv: "engine_ok (engine th')" "engine_owned (cs1 @ cs2) (engine th')" by (simp_all add: thread_inv_def thread_ok_def)
  have "client_inv cl" by (rule client.reach_inv [OF assms(1) order_refl])
  then have "known_request (handled cl) bs" using assms(3) by (simp add: client_inv_def list_all_iff)
  then obtain req where req: "parseRequest now (makeRaw t (of_nat (length bs)) bs) = Some req" "m_traderId req = t"
    "m_requestType req = New \<or> (\<exists>m. P_new_confirm m \<in> set (handled cl) \<and> nc_orderId m = m_orderId req)"
    by (rule known_request_parsed)
  obtain g cs ms where d: "dispatch req (engine th') = Some (g, cs, ms)"
    by (rule dispatch_room [OF inv(1), of 0]) (use run2(2) in simp)
  have "owner b (m_orderId req) = None" if "rejects cs" "books (engine th') (m_symbolId req) = Some b" for b
  proof -
    have rej: "m_requestType req \<noteq> New" "owner b (m_orderId req) \<noteq> Some t"
      using dispatch_rejected [OF inv(1) d] that req(2) by auto
    with req(3) handled_replies [OF assms(1,2) run1(3) assms(6)] run1(4) have "issued (cs1 @ cs2) (m_orderId req) t" by auto
    from engine_owned_owner [OF inv this that(2)] rej(2) show ?thesis by auto
  qed
  with req d show ?thesis by blast
qed

text \<open>Trader 9 buys 10 at 50, reads the acknowledgement but not the market data behind it, and cancels.\<close>

definition sample_message :: "Timestamp \<times> SessionManager \<times> RawMessage" where
  "sample_message = (5, sample_registry, makeRaw 9 24 (encode_NewOrderRequestMsg (newOrder 7 1 ''BUY'' 50 10)))"

lemma sample_message_sent:
  obtains th acts where "matchingRun [sample_message] MatchingThread_init = Some (th, acts)"
    "concat (sent_to 4 acts) = reply_bytes @ update_bytes (MdUpdate 1 1 Buy 50 10 MdNew)"
proof -
  let ?req = "toOrderRequest_new 5 (newOrder 7 1 ''BUY'' 50 10) 9" and ?b = "OrderBook_new 1"
  let ?ack = "OrderConfirm NewAck 1 7 9 1 0 0 UnknownOrder" and ?md = "MdUpdate 1 1 Buy 50 10 MdNew"
  have f: "m_symbolId ?req = 1" "m_requestType ?req = New" "m_quantity ?req = 10" "m_clientOrderId ?req = 7" "m_traderId ?req = 9"
    "m_price ?req = 50" "m_side ?req = Buy" "symbol ?b = 1"
    by (simp_all add: toOrderRequest_new_def newOrder_def OrderBook_new_def)
  have b: "books (engine MatchingThread_init) (m_symbolId ?req) = Some ?b" "m_quantity ?req \<noteq> 0"
    unfolding f by (simp_all add: MatchingThread_init_def MatchingEngine_new_def)
  have none: "\<forall>r\<in>set (opposite_list ?req (abs_book ?b)). \<not> crosses ?req r"
    by (simp add: opposite_list_def abs_book_def abs_side_def OrderBook_new_def)
  note rests = handleRaw_rests [OF thread_ok_init(1) b(1) parse_framed_new [OF valid_client_requests(1,2)] f(2) b(2) none,
      where s = sample_registry, unfolded f thread_ok_init(2)]
  obtain th where th: "handleRaw 5 sample_registry (makeRaw 9 24 (encode_NewOrderRequestMsg (newOrder 7 1 ''BUY'' 50 10))) MatchingThread_init
      = Some (th, sendConfirms sample_registry [?ack] @ multicast sample_registry [?md])"
    by (rule rests)
  have "confirm_bytes ?ack = reply_bytes"
    by (simp add: reply_bytes_def sample_reply_def toNewOrderConfirmMsg_def sizeof_NewOrderConfirmMsg_def)
  then have "concat (sent_to 4 (sendConfirms sample_registry [?ack] @ multicast sample_registry [?md])) = reply_bytes @ update_bytes ?md"
    by (simp add: sent_to_request [OF sample_registry(1,2)] sample_registry(3) del: sendConfirms.simps multicast.simps confirm_bytes.simps)
  with that th show ?thesis by (simp add: sample_message_def del: sendConfirms.simps multicast.simps)
qed

theorem client_requests_authorised_witness:
  "\<exists>th acts req g cs ms. matchingRun [sample_message] MatchingThread_init = Some (th, acts)
    \<and> parseRequest 6 (makeRaw 9 15 (encode_CancelOrderRequestMsg (cancelRequest 1 1))) = Some req
    \<and> m_traderId req = 9 \<and> dispatch req (engine th) = Some (g, cs, ms)
    \<and> (\<forall>b. rejects cs \<longrightarrow> books (engine th) (m_symbolId req) = Some b \<longrightarrow> owner b (m_orderId req) = None)"
proof -
  let ?bs = "encode_CancelOrderRequestMsg (cancelRequest 1 1)"
  obtain th acts where run: "matchingRun [sample_message] MatchingThread_init = Some (th, acts)"
    "concat (sent_to 4 acts) = reply_bytes @ update_bytes (MdUpdate 1 1 Buy 50 10 MdNew)" by (rule sample_message_sent)
  have cl: "gRunning (client cancelled_state)" "?bs \<in> set (requests cancelled_state)" "ClientProcess.consumed cancelled_state = reply_bytes"
    by (simp_all add: cancelled_state_def Let_def)
  have "getTraderId 4 sample_registry = 9" by code_simp
  then have s: "list_all (\<lambda>(now, s, raw). serves 4 9 s) [sample_message]"
    using sample_registry(1) by (simp add: sample_message_def serves_def)
  have "length ?bs = 15" by (simp add: cancel_order_msg.encode_length sizeof_CancelOrderRequestMsg_def)
  then show ?thesis
    using client_requests_authorised [OF cancelled_reachable cl(1,2) run(1) s, of "update_bytes (MdUpdate 1 1 Buy 50 10 MdNew)" "[]" th "[]" 6]
      run by (simp add: cl(3))
qed

end
