(* ===== verification/Spec2Isabelle.thy ===== *)
theory Spec2Isabelle
  imports Book_Theorems Fill_Ledger Spsc_Release_Acquire Exchange_Interleaved Epoll_Mgr Client_Exchange
begin

text \<open>
  \<^bold>\<open>Verification of the exchange simulator\<close>

  \<^emph>\<open>The program.\<close> A server accepts TCP clients, reads order requests from them and matches orders
  in one book per instrument; confirmations go back to the traders concerned and market data to
  everybody. Its threads are: accept handlers (\<^verbatim>\<open>thread_accept.cpp\<close>, on \<^verbatim>\<open>tcp_server.cpp\<close>), the
  event loop that reads and frames client bytes (\<^verbatim>\<open>thread_epoll.cpp\<close>, on \<^verbatim>\<open>epoll_mgr.cpp\<close>), the
  matching thread (\<^verbatim>\<open>thread_matching.cpp\<close>, on \<^verbatim>\<open>matching_engine\<close>, \<^verbatim>\<open>order_book\<close> and
  \<^verbatim>\<open>price_level\<close>) and a terminal (\<^verbatim>\<open>thread_gui.cpp\<close>). The event loop hands raw messages to the
  matching thread through a lock-free ring buffer (\<^verbatim>\<open>spsc_queue.hpp\<close>); the session registry
  (\<^verbatim>\<open>session_manager.hpp\<close>) and the market table (\<^verbatim>\<open>market_state.hpp\<close>) are shared under mutexes.
  The client (\<^verbatim>\<open>client/src/main.cpp\<close>) turns typed commands into requests and prints replies.

  \<^emph>\<open>The theories.\<close>
  \<^item> \<open>Exchange_Prelude\<close>: machine words, \<^verbatim>\<open>std::map\<close> as an ordered association list, comparators
    (locale \<open>comparator\<close>), runs of a step relation (locales \<open>counted_invariant\<close>, \<open>simulation\<close>), decimal output.
  \<^item> \<open>Core_Types\<close> (\<^verbatim>\<open>core/include\<close>): identifiers, enumerations, requests, confirmations, raw messages.
  \<^item> \<open>Price_Level\<close>, \<open>Order_Book\<close> (\<^verbatim>\<open>price_level.hpp\<close>, \<^verbatim>\<open>order_book.hpp/.cpp\<close>): the book with its heap
    of elements, both price maps and both lookup tables, one definition per method; a use of freed
    memory is \<open>None\<close>.
  \<^item> \<open>Book_Spec\<close>: the abstract book, two lists in price-time priority; \<open>Book_Invariant\<close> and
    \<open>Book_Refinement\<close>: the representation invariant \<open>book_ok\<close>, the abstraction \<open>abs_book\<close>, and that
    add, cancel and modify implement the abstract operations; \<open>Book_Properties\<close> and \<open>Book_Theorems\<close>:
    priority, trades, conservation of quantity, uncrossed books, best prices,
    rejections, and the drift of the cached level totals; \<open>Fill_Ledger\<close>: the account of an order and the
    ownership of elements over a whole run of the engine; \<open>Order_Ownership\<close>: every id is issued to one trader, who owns its order.
  \<^item> \<open>Matching_Engine\<close> (\<^verbatim>\<open>matching_engine.hpp/.cpp\<close>): routing by symbol, with the book's contract as
    the locale \<open>book_contract\<close>.
  \<^item> \<open>Spsc_Queue\<close>: the ring buffer run by one thread (locale \<open>bounded_fifo\<close>); \<open>Spsc_Release_Acquire\<close>: one
    producer and one consumer interleaved load by load and store by store under the memory orders of the
    source, with stale loads and happens-before tracked by clocks: FIFO, no data race, and wait-free progress.
  \<^item> \<open>Protocol\<close> (\<^verbatim>\<open>protocol.hpp\<close>): packed little-endian layouts and converters (locales \<open>wire_codec\<close>,
    \<open>wire_bijection\<close>, interpreted on every message).
  \<^item> \<open>Session_Manager\<close>, \<open>Market_State\<close>, \<open>Terminal\<close>: registry (locale \<open>session_registry\<close>) with the lifetimes
    of the session objects, market table (locale \<open>bounded_table\<close>) and the screen.
  \<^item> \<open>Matching_Thread\<close>, \<open>Epoll_Thread\<close>: the bodies of the threads, logins and framing; \<open>Epoll_Mgr\<close>: the
    object that owns the epoll descriptor and its loop for any callbacks; \<open>Login_Handler\<close>: the handler of
    a connection, step by step, and the invariant of the tables between its steps.
  \<^item> \<open>Tcp_Socket\<close> (\<^verbatim>\<open>tcp_socket\<close>, \<^verbatim>\<open>tcp_server\<close>, \<^verbatim>\<open>tcp_client\<close>): ownership of descriptors by move-only
    objects in a store.
  \<^item> \<open>Client\<close>, \<open>Client_Session\<close>, \<open>Client_Main\<close>: the client's receive loop, id table, commands, texts,
    and its start up to an accepted login; \<open>Client_Process\<close>: command loop, receive thread and signal
    handler as one step relation: the ids it sends, what it reads, that it stops.
  \<^item> \<open>Typed_Replies\<close>, \<open>Composition\<close>: every value sent is a value of its enumeration, what one request
    sends to one client, orders that rest and are cancelled.
  \<^item> \<open>Exchange_Process\<close> (\<^verbatim>\<open>main.cpp\<close>): all server threads and the signal handler as one step relation
    with its invariant; \<open>Exchange_Interleaved\<close>: the same with the matching thread taken apart, so that
    logins and disconnects come between the lookup of a descriptor and the send on it.
  \<^item> \<open>Client_Exchange\<close>: a client process that reads what the matching thread sends it: its requests concern
    its own orders.
  \<^item> This theory: properties that span client, network code and engine, and the login of a client.

  \<^emph>\<open>Conventions.\<close> Unsigned integers are words and wrap. State is passed explicitly in records. \<open>None\<close> is
  undefined behaviour or a loop that does not end, so a theorem that an operation returns \<open>Some\<close> says
  that neither happens. The pointer that \<^verbatim>\<open>getSession\<close> returns names one node of the session map; an access
  through it is \<open>None\<close> once that node has been erased, also when its key is in the map again. Results of system calls are arguments: the chunks a \<^verbatim>\<open>recv\<close> returns, whether
  \<^verbatim>\<open>bind\<close> or \<^verbatim>\<open>epoll_ctl\<close> succeeds, which descriptor \<^verbatim>\<open>accept\<close> gives. Where a theorem relies on the kernel it says so:
  a new descriptor is not in use, events are reported for descriptors registered with epoll, and \<open>fair_recv\<close> (a blocking \<^verbatim>\<open>recv\<close> delivers at least one byte
  unless the stream has ended, and no more than asked for). What is sent is a list of actions.

  \<^emph>\<open>Bounds and fuel.\<close> Runs of the matching thread are shorter than \<open>2^64 - 1\<close> messages, and of the
  process shorter than \<open>2^64 - 2\<close> steps, because the id counter wraps after that and ids would repeat.
  The client's receive loop takes fuel; one unit per reply and two for the end of the connection
  suffice (\<open>recvLoop_replies\<close>), and a run that has too little is \<open>None\<close>, never a shorter result.
  The framing loop is a partial function because the source's loop can spin; when it returns is
  proved (\<open>frameLoop_correct\<close>), and when it does not (\<open>frameLoop_zero\<close>).

  \<^emph>\<open>Undefined behaviour that is reached.\<close> Whenever a read ends a connection, the data callback goes on with
  the session it has just destroyed (\<open>disconnect_reads_destroyed_session\<close>). The language says nothing about
  what follows; in the process models the event loop stays at that read and takes no further step. So the
  theorems on all reachable states (\<open>process_consistent\<close>, \<open>reply_to_new_owner\<close>, \<open>login_end_to_end\<close>) say what
  holds up to that read, and after it what the other threads keep as long as the read does no damage.

  \<^emph>\<open>Not modelled.\<close> Diagnostic printing of the server and sleeping. In the process models each
  event of the event loop up to its framing loop is one step (only that thread removes sessions and closes
  descriptors that are registered, and it removes a session before it closes the descriptor). The kernel's \<^verbatim>\<open>send\<close>
  may fail or send less than it was given; the server ignores its result, and its model takes every
  send as complete (what a client makes of a reply that was cut short is \<open>truncated_reply_misread\<close>);
  the client tests the result, and its model has every outcome. The class declarations, deleted
  copy operations, type aliases and \<^verbatim>\<open>static_assert\<close>s on trivial copyability of the headers have no
  definition of their own.
\<close>

section \<open>From the client's bytes to the engine\<close>

text \<open>
  C12. End to end: the bytes of a new order request, cut into callbacks and reads in any way and
  arriving from a logged-in client while the queue is empty, make the next iteration of the
  matching thread execute exactly that order for exactly that client's trader in the engine, and
  send the resulting confirmations and market data. None of the steps is undefined.
\<close>

theorem new_order_end_to_end:
  assumes "session_at fd (srv_sessions v) = Some c" and "recvBuffer c = []"
    and "queue_ok RAW_CAPACITY (srv_queue v)" and "queue_list RAW_CAPACITY (srv_queue v) = []"
    and "valid_NewOrderRequestMsg n" and "header_type (no_header n) = NewOrderRequest"
    and "header_length (no_header n) = of_nat sizeof_NewOrderRequestMsg"
    and "concat (concat css) = encode_NewOrderRequestMsg n"
    and "thread_ok th" and "nextOrderId (engine th) \<noteq> - 1"
  shows "\<exists>v' q' th' cs ms. handleEvents (map (readable fd) css) v = Some (Returned v')
    \<and> onOrder (toOrderRequest_new now n (cs_traderId c)) (engine th) [] [] = Some (engine th', cs, ms)
    \<and> matchingIteration now s (srv_queue v') th = Some (q', th', sendConfirms s cs @ multicast s ms)
    \<and> queue_list RAW_CAPACITY q' = [] \<and> thread_ok th'"
proof -
  let ?m = "encode_NewOrderRequestMsg n" and ?req = "toOrderRequest_new now n (cs_traderId c)"
  let ?raw = "makeRaw (cs_traderId c) 24 ?m"
  note fr = encoded_new_framed [OF assms(5,7)]
  have new: "m_requestType ?req = New" by (simp add: toOrderRequest_new_def)
  obtain v' where v': "handleEvents (map (readable fd) css) v = Some (Returned v')" "queue_ok RAW_CAPACITY (srv_queue v')"
    "queue_list RAW_CAPACITY (srv_queue v') = [?raw]"
    using stream_queued [OF assms(1,2), of "[?m]" css] fr assms(3,4,8) RAW_CAPACITY_valid(2)
    by (auto simp: queued_def MAX_RAW_MSG_SIZE_def)
  obtain q' where q': "try_pop RAW_CAPACITY (srv_queue v') = Some (Some ?raw, q')" "queue_list RAW_CAPACITY q' = []"
    using spsc.pop_item [OF v'(2,3)] by blast
  have "engine_ok (engine th)" using assms(9) by (simp add: thread_ok_def)
  then obtain g cs ms where g: "dispatch ?req (engine th) = Some (g, cs, ms)" "engine_ok g"
    by (rule dispatch_ok [OF _ assms(10)])
  let ?th = "\<lparr>engine = g, market = updateMarket (m_symbolId ?req) cs g (market th)\<rparr>"
  have "matchingIteration now s (srv_queue v') th = Some (q', ?th, sendConfirms s cs @ multicast s ms)"
    using q'(1) parse_framed_new [OF assms(5,6)] g(1) by (simp add: matchingIteration_def handleRaw_def)
  moreover have "onOrder ?req (engine th) [] [] = Some (engine ?th, cs, ms)"
    using g(1) new by (simp add: dispatch_def)
  moreover have "thread_ok ?th" using g(2) assms(9) by (simp add: thread_ok_def)
  ultimately show ?thesis using v'(1) q'(2) by blast
qed

theorem new_order_end_to_end_witness:
  "\<exists>v' q' th' cs ms. handleEvents (map (readable 4) [[encode_NewOrderRequestMsg sample_new]]) sample_server = Some (Returned v')
    \<and> onOrder (toOrderRequest_new 5 sample_new 9) (engine MatchingThread_init) [] [] = Some (engine th', cs, ms)
    \<and> matchingIteration 5 SessionManager_new (srv_queue v') MatchingThread_init
        = Some (q', th', sendConfirms SessionManager_new cs @ multicast SessionManager_new ms)"
proof -
  have v: "valid_NewOrderRequestMsg sample_new" "header_type (no_header sample_new) = NewOrderRequest"
    "header_length (no_header sample_new) = of_nat sizeof_NewOrderRequestMsg"
    by (simp_all add: sample_new_def wire_simps byte_msg_type_def byte_side_def)
  have c: "recvBuffer sample_session = []" "cs_traderId sample_session = 9" by (simp_all add: sample_session_def)
  have "nextOrderId (engine MatchingThread_init) \<noteq> - 1" by (simp add: thread_ok_init(2))
  from new_order_end_to_end [OF sample_server_session c(1) sample_server_queue v _ thread_ok_init(1) this,
      of "[[encode_NewOrderRequestMsg sample_new]]" 5 SessionManager_new] show ?thesis
    unfolding c(2) by auto
qed

section \<open>From the engine to the client\<close>

text \<open>
  C15. The server speaks the protocol: from its initial state, whatever raw messages the matching
  thread processes (fewer than \<open>2^64 - 1\<close>), the bytes sent to any one descriptor over the whole run
  form a stream that the client's receive loop reads as one known reply per message sent, however
  the socket splits it; it never meets an unknown message type, never reads bytes it has not
  received, and stops only at the end of the connection.
\<close>

theorem server_speaks_protocol:
  assumes "length msgs < 2 ^ 64 - 1" and "fair_recv k"
  shows "\<exists>th' acts ps c'. matchingRun msgs MatchingThread_init = Some (th', acts)
    \<and> recvLoop (length ps + 2) k (concat (sent_to fd acts)) Client_init = Some (c', ps @ [P_disconnected])
    \<and> length ps = length (sent_to fd acts) \<and> (\<forall>p\<in>set ps. (\<forall>t len. p \<noteq> P_unknown t len) \<and> p \<noteq> P_disconnected)"
proof -
  have room: "unat (nextOrderId (engine MatchingThread_init)) + length msgs < 2 ^ 64"
    using assms(1) thread_ok_init(2) by simp
  obtain th' acts where r: "matchingRun msgs MatchingThread_init = Some (th', acts)"
    using matchingRun_ok [OF thread_ok_init(1) room] by blast
  have "\<forall>bs\<in>set (sent_to fd acts). well_formed_reply bs"
    using matchingRun_typed [OF thread_ok_init(1) engine_typed_init room r] by (auto simp: sent_to_def)
  then obtain ps where ps: "list_all2 reads_as (sent_to fd acts) ps"
    "\<forall>p\<in>set ps. (\<forall>t len. p \<noteq> P_unknown t len) \<and> p \<noteq> P_disconnected"
    using well_formed_replies by blast
  have "gRunning Client_init" by (simp add: Client_init_def)
  from recvLoop_replies [OF assms(2) ps(1) this] ps r list_all2_lengthD [OF ps(1)] show ?thesis by metis
qed

text \<open>A socket that delivers as much as it has.\<close>

definition greedy_recv :: "u8 list \<Rightarrow> nat \<Rightarrow> nat" where
  "greedy_recv bs n = min n (length bs)"

lemma fair_greedy: "fair_recv greedy_recv"
  by (auto simp: fair_recv_def greedy_recv_def)

theorem server_speaks_protocol_witness:
  "\<exists>th' acts ps c'. matchingRun [(0, SessionManager_new, RawMessage_init)] MatchingThread_init = Some (th', acts)
    \<and> recvLoop (length ps + 2) greedy_recv (concat (sent_to 4 acts)) Client_init = Some (c', ps @ [P_disconnected])
    \<and> length ps = length (sent_to 4 acts) \<and> (\<forall>p\<in>set ps. (\<forall>t len. p \<noteq> P_unknown t len) \<and> p \<noteq> P_disconnected)"
  by (rule server_speaks_protocol [OF _ fair_greedy]) simp

text \<open>
  C13. Replies arrive as they were meant: while a request is handled by a thread whose books hold
  only values of the enumerations, a connected client reads, however the socket splits the bytes,
  exactly the confirmations for its trader followed by all market data updates, in the engine's
  order and with the engine's values, and records the exchange id of every acknowledged new order.
\<close>

theorem replies_understood:
  assumes "thread_ok th" and "engine_typed (engine th)" and "sessions_ok s" and "fd \<in> set (getAllFds s)"
    and "parseRequest now raw = Some req" and "dispatch req (engine th) = Some (g, cs, ms)"
    and "fair_recv k" and "gRunning c"
    and "ps = map confirm_reply (filter (\<lambda>x. getFd (oc_traderId x) s = fd) cs) @ map update_reply ms"
  shows "\<exists>th' acts. handleRaw now s raw th = Some (th', acts)
    \<and> recvSteps (length ps) k (concat (sent_to fd acts) @ rest) c
        = Some (c\<lparr>internalToExchange := fold note_reply ps (internalToExchange c)\<rparr>, rest, ps)"
proof -
  have "list_all typed_confirm cs" "list_all typed_update ms"
    using dispatch_typed [OF _ assms(2) parseRequest_typed [OF assms(5)] assms(6)] assms(1) by (simp_all add: thread_ok_def)
  from request_replies [OF this] have "list_all2 reads_as (sent_to fd (sendConfirms s cs @ multicast s ms)) ps"
    by (simp add: sent_to_request [OF assms(3,4)] assms(9) del: confirm_bytes.simps confirm_reply.simps)
  from recvSteps_replies [OF assms(7) this assms(8)] assms(5,6) show ?thesis by (simp add: handleRaw_def)
qed

theorem replies_understood_witness:
  "\<exists>th' acts. handleRaw 5 sample_registry (sample_raw 15 (encode_CancelOrderRequestMsg sample_cancel)) MatchingThread_init = Some (th', acts)
    \<and> recvSteps 1 greedy_recv (concat (sent_to 4 acts) @ [1, 2]) Client_init
        = Some (Client_init, [1, 2], [P_reject (toRejectMsg (OrderConfirm Reject 1 0 9 1 0 0 UnknownOrder))])"
proof -
  let ?raw = "sample_raw 15 (encode_CancelOrderRequestMsg sample_cancel)" and ?req = "toOrderRequest_cancel 5 sample_cancel 9"
  let ?cs = "[OrderConfirm Reject 1 0 9 1 0 0 UnknownOrder]"
  let ?ps = "map confirm_reply (filter (\<lambda>x. getFd (oc_traderId x) sample_registry = 4) ?cs) @ map update_reply []"
  have p: "parseRequest 5 ?raw = Some ?req" by code_simp
  have "\<exists>g. dispatch ?req (engine MatchingThread_init) = Some (g, ?cs, [])"
    by (simp add: dispatch_def toOrderRequest_cancel_def sample_cancel_def OrderRequest_init_def onCancel_def cancelOrder_def
        MatchingThread_init_def MatchingEngine_new_def OrderBook_new_def)
  then obtain g where d: "dispatch ?req (engine MatchingThread_init) = Some (g, ?cs, [])" by blast
  have "gRunning Client_init" by (simp add: Client_init_def)
  from replies_understood [OF thread_ok_init(1) engine_typed_init sample_registry(1,2) p d fair_greedy this, of ?ps "[1, 2]"]
  show ?thesis by (simp add: sample_registry(3))
qed

section \<open>Logging in\<close>

text \<open>A step of the handler that was started last, whatever it leads to.\<close>

lemma last_handler:
  assumes "x_logins x = hs @ [(fd, lp)]" "loginMicro received ctl_ok fd lp (x_server x) = (r, v, acts)"
  shows "other_step x (x\<lparr>x_server := v, x_sent := x_sent x @ acts, x_logins := hs @ handler_after fd r,
      x_unwatched := if lp = L_epoll \<and> \<not> ctl_ok then fd # x_unwatched x else x_unwatched x\<rparr>)"
  using login [OF assms] by simp

text \<open>The state after the handler of trader \<open>t\<close> on descriptor \<open>fd\<close> has run.\<close>

definition logged_in :: "bool \<Rightarrow> int \<Rightarrow> TraderId \<Rightarrow> Exchange \<Rightarrow> Exchange" where
  "logged_in ctl_ok fd t x =
     x\<lparr>x_server := epoll_add ctl_ok fd ((x_server x)\<lparr>srv_sessions := sessions_add fd t (srv_sessions (x_server x))\<rparr>),
       x_sent := x_sent x @ [Send fd (encode_LoginResponseMsg loginResponse)],
       x_unwatched := if ctl_ok then x_unwatched x else fd # x_unwatched x\<rparr>"

lemma accepted_steps:
  assumes r: "reach_in process_step s0 n (pc, x)"
    and "0 \<le> fd" "session_at fd (srv_sessions (x_server x)) = None" "fd \<notin> set (owned (x_logins x))"
  shows "reach_in process_step s0 (n + 7) (pc, logged_in ctl_ok fd t x)"
proof -
  let ?v = "(x_server x)\<lparr>srv_sessions := sessions_add fd t (srv_sessions (x_server x))\<rparr>"
  let ?x = "\<lambda>v us lp. x\<lparr>x_server := v, x_sent := x_sent x @ [Send fd (encode_LoginResponseMsg loginResponse)],
      x_logins := x_logins x @ lp, x_unwatched := us\<rparr>"
  let ?us = "if ctl_ok then x_unwatched x else fd # x_unwatched x"
  have "registered fd t x = ?x ?v (x_unwatched x) [(fd, L_nonblock)]" by (simp add: registered_def)
  with login_steps [OF assms, of t] have r: "reach_in process_step s0 (n + 4) (pc, ?x ?v (x_unwatched x) [(fd, L_nonblock)])" by simp
  have "other_step (?x ?v (x_unwatched x) [(fd, L_nonblock)]) (?x ?v (x_unwatched x) [(fd, L_epoll)])"
    using last_handler [of "?x ?v (x_unwatched x) [(fd, L_nonblock)]" "x_logins x" fd L_nonblock None ctl_ok] by (simp add: handler_after_def)
  note r = other_nextI [OF r this]
  have "other_step (?x ?v (x_unwatched x) [(fd, L_epoll)]) (?x (epoll_add ctl_ok fd ?v) ?us [(fd, L_release)])"
    using last_handler [of "?x ?v (x_unwatched x) [(fd, L_epoll)]" "x_logins x" fd L_epoll None ctl_ok]
    by (cases ctl_ok) (simp_all add: handler_after_def)
  note r = other_nextI [OF r this]
  have "other_step (?x (epoll_add ctl_ok fd ?v) ?us [(fd, L_release)]) (logged_in ctl_ok fd t x)"
    using last_handler [of "?x (epoll_add ctl_ok fd ?v) ?us [(fd, L_release)]" "x_logins x" fd L_release None ctl_ok]
    by (simp add: handler_after_def logged_in_def)
  from other_nextI [OF r this] show ?thesis by (simp add: eval_nat_numeral)
qed

lemma refused_steps:
  assumes r: "reach_in process_step s0 n (pc, x)"
    and "0 \<le> fd" "session_at fd (srv_sessions (x_server x)) = None" "fd \<notin> set (owned (x_logins x))"
    and "\<forall>bs. received = Some bs \<longrightarrow> length bs = sizeof_LoginRequestMsg \<longrightarrow> header_type (lr_header (decode_LoginRequestMsg bs)) \<noteq> LoginRequest"
  shows "reach_in process_step s0 (n + 2) (pc, x\<lparr>x_server := close_fd fd (x_server x)\<rparr>)"
proof -
  let ?x = "x\<lparr>x_logins := x_logins x @ [(fd, L_recv)]\<rparr>"
  have "loginMicro received True fd L_recv (x_server ?x) = (None, close_fd fd (x_server x), [])"
    using assms(5) by (auto simp: Let_def split: option.split)
  from last_handler [OF _ this, of "x_logins x"]
  have "other_step ?x (x\<lparr>x_server := close_fd fd (x_server x)\<rparr>)" by (simp add: handler_after_def)
  from other_nextI [OF other_nextI [OF r connect [OF assms(2-4)]] this] show ?thesis by simp
qed

text \<open>
  C33. Logging in, from the client's request to its handshake: in any state the server can reach, a client
  gets a descriptor that is not in use. If it sends its login request, its handler, run to its end in seven
  steps, registers the trader on exactly that descriptor (confirmations for the trader will go there, and
  requests from there are attributed to the trader), has the event loop watch it exactly if \<^verbatim>\<open>epoll_ctl\<close>
  succeeds, and answers with bytes that the client's handshake reads as an acceptance, leaving the
  rest of the stream; all other sessions, the queue, the books, the other handlers and the closed descriptors are as
  before. If the single read gives anything else (an error, another length, another message type),
  the descriptor is closed and nothing else in the process changes.
\<close>

theorem login_end_to_end:
  assumes "process_reach n (pc, x)" and "n < 2 ^ 64 - 2" and "0 \<le> fd"
    and "session_at fd (srv_sessions (x_server x)) = None" and "fd \<notin> set (owned (x_logins x))" and "fair_recv k"
  shows "(\<exists>x' acts. process_reach (n + 7) (pc, x') \<and> x_sent x' = x_sent x @ acts
      \<and> loginRun 6 (Some (encode_LoginRequestMsg (loginRequest t))) ctl_ok fd L_recv (x_server x) = (x_server x', acts)
      \<and> loginHandshake True k (concat (sent_to fd acts) @ rest) = Login_accepted rest
      \<and> getFd t (srv_sessions (x_server x')) = fd \<and> getTraderId fd (srv_sessions (x_server x')) = t
      \<and> (fd \<in> set (srv_epoll (x_server x')) \<longleftrightarrow> ctl_ok)
      \<and> (\<forall>fd'. fd' \<noteq> fd \<longrightarrow> session_at fd' (srv_sessions (x_server x')) = session_at fd' (srv_sessions (x_server x))
           \<and> (fd' \<in> set (srv_epoll (x_server x')) \<longleftrightarrow> fd' \<in> set (srv_epoll (x_server x))))
      \<and> srv_queue (x_server x') = srv_queue (x_server x) \<and> srv_closed (x_server x') = srv_closed (x_server x)
      \<and> x_thread x' = x_thread x \<and> x_logins x' = x_logins x \<and> x_pc x' = x_pc x)
    \<and> ((\<forall>bs. received = Some bs \<longrightarrow> length bs = sizeof_LoginRequestMsg \<longrightarrow> header_type (lr_header (decode_LoginRequestMsg bs)) \<noteq> LoginRequest)
       \<longrightarrow> loginRun 6 received ctl_ok fd L_recv (x_server x) = (close_fd fd (x_server x), [])
         \<and> process_reach (n + 2) (pc, x\<lparr>x_server := close_fd fd (x_server x)\<rparr>))"
proof -
  let ?x = "logged_in ctl_ok fd t x" and ?acts = "[Send fd (encode_LoginResponseMsg loginResponse)]"
  have "tables_ok (x_logins x) (x_unwatched x) (x_server x)"
    using interleaved.reach_inv [OF assms(1)] assms(2) by (simp add: process_inv_def exchange_inv_def)
  then have "fd \<notin> set (srv_epoll (x_server x))" using assms(4) watched_alone(1) by blast
  moreover have "loginHandshake True k (concat (sent_to fd ?acts) @ rest) = Login_accepted rest"
    using loginHandshake_accepted [OF assms(6)] by (simp add: sent_to_def)
  moreover have "process_reach (n + 7) (pc, ?x)" by (rule accepted_steps [OF assms(1,3-5)])
  moreover have "x_sent ?x = x_sent x @ ?acts" by (simp add: logged_in_def)
  moreover have "loginRun 6 (Some (encode_LoginRequestMsg (loginRequest t))) ctl_ok fd L_recv (x_server x) = (x_server ?x, ?acts)"
    using loginMicro_accepts [of t ctl_ok fd "x_server x"] by (simp add: eval_nat_numeral login_bytes_def logged_in_def del: loginMicro.simps(1))
  moreover have "loginRun 6 received ctl_ok fd L_recv (x_server x) = (close_fd fd (x_server x), [])"
    if "\<forall>bs. received = Some bs \<longrightarrow> length bs = sizeof_LoginRequestMsg \<longrightarrow> header_type (lr_header (decode_LoginRequestMsg bs)) \<noteq> LoginRequest"
    using that by (auto simp: loginRun_onAccept onAccept_def Let_def split: option.split)
  ultimately show ?thesis
    using refused_steps [OF assms(1,3-5)]
    by (intro conjI exI [of _ ?x] exI [of _ ?acts]) (auto simp: logged_in_def epoll_add_def getFd_def getTraderId_session)
qed

text \<open>Trader 9 logs in on descriptor 4 of a server that has just started; another client sends nothing there.\<close>

theorem login_end_to_end_witness:
  "(\<exists>x'. process_reach 7 (M_top, x') \<and> getFd 9 (srv_sessions (x_server x')) = 4 \<and> 4 \<in> set (srv_epoll (x_server x')))
    \<and> process_reach 2 (M_top, Exchange_init\<lparr>x_server := close_fd 4 (x_server Exchange_init)\<rparr>)"
proof -
  have "session_at 4 (srv_sessions (x_server Exchange_init)) = None" "4 \<notin> set (owned (x_logins Exchange_init))"
    by (simp_all add: Exchange_init_def Server_new_def SessionManager_new_def session_at_def)
  from login_end_to_end [OF reach_start _ _ this fair_greedy, where t = 9 and ctl_ok = True and received = None]
  have "(\<exists>x'. process_reach (0 + 7) (M_top, x') \<and> getFd 9 (srv_sessions (x_server x')) = 4 \<and> 4 \<in> set (srv_epoll (x_server x')))
    \<and> process_reach (0 + 2) (M_top, Exchange_init\<lparr>x_server := close_fd 4 (x_server Exchange_init)\<rparr>)" by fastforce
  then show ?thesis by (simp only: add_0)
qed

section \<open>A trader's session\<close>

text \<open>
  C14. Placing and taking back: a trader types a new order that reaches no resting order of the
  other side; the server handles the request and the client reads the replies; then the trader
  cancels by the same id of their own. Each step succeeds, the client learns the exchange id of its
  order, the second command cancels exactly that order, and the instrument's book is what it was
  before, order for order, in the same priority.
\<close>

theorem place_then_cancel:
  assumes ok: "thread_ok th" "nextOrderId (engine th) \<noteq> 0" and b: "books (engine th) sy = Some b"
    and s: "sessions_ok s" "fd \<in> set (getAllFds s)" "getFd t s = fd"
    and sock: "fair_recv k" "gRunning c"
    and sd: "plain sd" and q: "q \<noteq> 0"
    and req: "req = toOrderRequest_new now (newOrder i sy sd p q) t"
    and none: "\<forall>r\<in>set (opposite_list req (abs_book b)). \<not> crosses req r"
  shows "\<exists>bs1 th1 acts1 c1 ps bs2 th2 acts2 b2.
      command (''N'' @ gap @ decimal (unat i) @ gap @ decimal (unat sy) @ gap @ sd @ gap @ decimal (unat p) @ gap @ decimal (unat q)) c = Request bs1
    \<and> handleRaw now s (makeRaw t 24 bs1) th = Some (th1, acts1)
    \<and> recvSteps 2 k (concat (sent_to fd acts1)) c = Some (c1, [], ps)
    \<and> internalToExchange c1 i = Some (nextOrderId (engine th))
    \<and> command (''C'' @ gap @ decimal (unat i) @ gap @ decimal (unat sy)) c1 = Request bs2
    \<and> handleRaw later s (makeRaw t 15 bs2) th1 = Some (th2, acts2)
    \<and> books (engine th2) sy = Some b2 \<and> abs_book b2 = abs_book b"
proof -
  let ?o = "nextOrderId (engine th)" and ?bs1 = "encode_NewOrderRequestMsg (newOrder i sy sd p q)"
  let ?ack = "OrderConfirm NewAck ?o i t (symbol b) 0 0 UnknownOrder" and ?md = "MdUpdate (symbol b) ?o (m_side req) p q MdNew"
  let ?c1 = "c\<lparr>internalToExchange := (internalToExchange c)(i \<mapsto> ?o)\<rparr>" and ?r = "resting_order (req\<lparr>m_orderId := ?o\<rparr>)"
  have f: "m_symbolId req = sy" "m_requestType req = New" "m_quantity req = q" "m_clientOrderId req = i" "m_traderId req = t"
    "m_price req = p"
    by (simp_all add: req toOrderRequest_new_def newOrder_def)
  have p1: "parseRequest now (makeRaw t 24 ?bs1) = Some req"
    unfolding req by (rule parse_framed_new [OF valid_client_requests(1,2)])
  obtain th1 b1 where th1: "handleRaw now s (makeRaw t 24 ?bs1) th = Some (th1, sendConfirms s [?ack] @ multicast s [?md])"
    "books (engine th1) sy = Some b1" "book_ok b1" "abs_book b1 = spec_place ?r (abs_book b)"
    using handleRaw_rests [OF ok(1) _ p1 f(2) _ none, where s = s] b q unfolding f by metis
  have r: "r_id ?r = ?o" "r_trader ?r = t" by (simp_all add: resting_order_def f)
  have "book_ok b" "\<forall>j\<in>dom (orderMap b). j < ?o"
    using ok(1) b by (auto simp: thread_ok_def engine_ok_def books_inv_def book_ids_def)
  then have "r_id ?r \<notin> r_id ` set (spec_orders (abs_book b))" unfolding r using orderMap_dom [of b] by auto
  from handleRaw_cancels_placed [OF th1(2-4) this, of later s, unfolded r] obtain th2 acts2 b2 where
    "handleRaw later s (makeRaw t 15 (encode_CancelOrderRequestMsg (cancelRequest ?o sy))) th1 = Some (th2, acts2)"
    "books (engine th2) sy = Some b2" "abs_book b2 = abs_book b" by blast
  moreover have "command (''C'' @ gap @ decimal (unat i) @ gap @ decimal (unat sy)) ?c1
      = Request (encode_CancelOrderRequestMsg (cancelRequest ?o sy))"
    unfolding command_cancel by (simp add: lookupExchangeId_def ok(2))
  moreover have "internalToExchange ?c1 i = Some ?o" by simp
  ultimately show ?thesis
    using command_new [OF sd, of i sy p q c] th1(1) ack_read [OF s sock parseRequest_typed [OF p1], of ?o i "symbol b" p q] by blast
qed

theorem place_then_cancel_witness:
  "\<exists>bs1 th1 acts1 c1 ps bs2 th2 acts2 b2.
      command (''N'' @ gap @ decimal (unat (7 :: OrderId)) @ gap @ decimal (unat (1 :: SymbolId)) @ gap @ ''BUY'' @ gap
        @ decimal (unat (50 :: Price)) @ gap @ decimal (unat (10 :: Quantity))) Client_init = Request bs1
    \<and> handleRaw 5 sample_registry (makeRaw 9 24 bs1) MatchingThread_init = Some (th1, acts1)
    \<and> recvSteps 2 greedy_recv (concat (sent_to 4 acts1)) Client_init = Some (c1, [], ps)
    \<and> internalToExchange c1 7 = Some (nextOrderId (engine MatchingThread_init))
    \<and> command (''C'' @ gap @ decimal (unat (7 :: OrderId)) @ gap @ decimal (unat (1 :: SymbolId))) c1 = Request bs2
    \<and> handleRaw 6 sample_registry (makeRaw 9 15 bs2) th1 = Some (th2, acts2)
    \<and> books (engine th2) 1 = Some b2 \<and> abs_book b2 = abs_book (OrderBook_new 1)"
proof -
  have "nextOrderId (engine MatchingThread_init) \<noteq> 0" "gRunning Client_init"
    by (simp_all add: thread_ok_init(2) Client_init_def)
  moreover have "books (engine MatchingThread_init) 1 = Some (OrderBook_new 1)"
    by (simp add: MatchingThread_init_def MatchingEngine_new_def)
  moreover have "opposite_list r (abs_book (OrderBook_new 1)) = []" for r
    by (simp add: opposite_list_def abs_book_def abs_side_def OrderBook_new_def)
  ultimately show ?thesis
    by (intro place_then_cancel [OF thread_ok_init(1) _ _ sample_registry fair_greedy _ plain_words(4) _ refl]) simp_all
qed

end
